(* ===== verification/Payy_Prelude.thy ===== *)
theory Payy_Prelude
  imports Main "HOL-Library.Word" "HOL-Library.AList" "HOL-Library.Monad_Syntax"
begin

text \<open>
  Shared vocabulary of the development: the machine integers of the Rust code, the standard
  library containers it uses, and the generic lemmas the component theories share.

  Conventions used everywhere:
  \<^item> a Rust \<open>Result<T, E>\<close> is the sum \<open>'e + 't\<close> (\<open>Inl\<close> the error);
  \<^item> a computation that can panic (\<open>unwrap\<close>, \<open>assert!\<close>, \<open>unreachable!\<close>, an index out of range)
    is an \<open>option\<close>, where \<open>None\<close> is the panic;
  \<^item> a \<open>BTreeMap<K, V>\<close> is an association list in strictly ascending key order, so that
    iterating it yields the order Rust's iterator yields;
  \<^item> a \<open>HashMap<K, V>\<close> is an association list with distinct keys (\<open>AList.update\<close>, \<open>AList.delete\<close>):
    the list order is one of the iteration orders Rust may use.
\<close>

section \<open>Machine integers\<close>

type_synonym u8 = "8 word"
type_synonym u32 = "32 word"
type_synonym u64 = "64 word"
type_synonym u128 = "128 word"
type_synonym u256 = "256 word"

text \<open>\<open>CryptoHash\<close> and \<open>Address\<close> (\<open>pkg/primitives\<close>) wrap 32 and 20 bytes; an amount is a \<open>u128\<close>.\<close>

type_synonym crypto_hash = "256 word"
type_synonym address = "160 word"
type_synonym balance = u128

text \<open>The \<open>k\<close> big-endian and little-endian bytes of an integer.\<close>

definition le_bytes :: "nat \<Rightarrow> 'n::len word \<Rightarrow> u8 list" where
  "le_bytes k w = map (\<lambda>i. ucast (drop_bit (8 * i) w)) [0..<k]"

definition be_bytes :: "nat \<Rightarrow> 'n::len word \<Rightarrow> u8 list" where
  "be_bytes k w = rev (le_bytes k w)"

section \<open>Results of operations that may panic\<close>

text \<open>The operator \<open>?\<close>: a panic and an error end the function, a value goes on.\<close>

definition try_bind :: "('e + 'a) option \<Rightarrow> ('a \<Rightarrow> ('e + 'b) option) \<Rightarrow> ('e + 'b) option" where
  "try_bind m f = (case m of None \<Rightarrow> None | Some (Inl e) \<Rightarrow> Some (Inl e) | Some (Inr x) \<Rightarrow> f x)"

lemma try_bind_simps [simp]:
  "try_bind None f = None"
  "try_bind (Some (Inl e)) f = Some (Inl e)"
  "try_bind (Some (Inr x)) f = f x"
  by (simp_all add: try_bind_def)

text \<open>\<open>collect::<Result<Vec<_>, _>>\<close>: the first error, or panic, ends it.\<close>

fun collect_results :: "('e + 'a) option list \<Rightarrow> ('e + 'a list) option" where
  "collect_results [] = Some (Inr [])"
| "collect_results (r # rs) =
     try_bind r (\<lambda>x. try_bind (collect_results rs) (\<lambda>xs. Some (Inr (x # xs))))"

lemma collect_results_ok [simp]: "collect_results (map (\<lambda>x. Some (Inr (f x))) xs) = Some (Inr (map f xs))"
  by (induction xs) simp_all

section \<open>Collections of facts\<close>

named_theorems btree_simps \<open>lookup and domain equations of the ordered map\<close>
named_theorems inv_intros \<open>preservation of the component invariants\<close>

section \<open>Ordered maps (BTreeMap)\<close>

text \<open>
  \<open>bt_insert\<close> is \<open>BTreeMap::insert\<close>: the value of an existing key is replaced, a new key goes to
  its place in the order. \<open>bt_remove\<close> is \<open>BTreeMap::remove\<close>; \<open>map_of\<close> is \<open>get\<close>.
\<close>

fun bt_insert :: "'k::linorder \<Rightarrow> 'v \<Rightarrow> ('k \<times> 'v) list \<Rightarrow> ('k \<times> 'v) list" where
  "bt_insert k v [] = [(k, v)]"
| "bt_insert k v ((k', v') # m) =
     (if k < k' then (k, v) # (k', v') # m
      else if k' < k then (k', v') # bt_insert k v m
      else (k, v) # m)"

definition bt_remove :: "'k \<Rightarrow> ('k \<times> 'v) list \<Rightarrow> ('k \<times> 'v) list" where
  "bt_remove k m = filter (\<lambda>e. fst e \<noteq> k) m"

definition bt_ok :: "('k::linorder \<times> 'v) list \<Rightarrow> bool" where
  "bt_ok m = sorted_wrt (<) (map fst m)"

text \<open>\<open>keys().last()\<close>: the greatest key, if there is one.\<close>

definition bt_last :: "('k \<times> 'v) list \<Rightarrow> ('k \<times> 'v) option" where
  "bt_last m = (if m = [] then None else Some (last m))"

lemma map_of_bt_insert [btree_simps, simp]: "map_of (bt_insert k v m) = (map_of m)(k \<mapsto> v)"
  by (induction k v m rule: bt_insert.induct) (auto simp: fun_eq_iff)

lemma map_of_bt_remove [btree_simps, simp]: "map_of (bt_remove k m) = (map_of m)(k := None)"
  by (induction m) (auto simp: bt_remove_def fun_eq_iff)

lemma keys_bt_insert [btree_simps, simp]: "fst ` set (bt_insert k v m) = insert k (fst ` set m)"
  by (induction k v m rule: bt_insert.induct) auto

lemma bt_insert_not_Nil [simp]: "bt_insert k v m \<noteq> []"
  by (induction k v m rule: bt_insert.induct) auto

lemma bt_ok_Nil [simp]: "bt_ok []"
  by (simp add: bt_ok_def)

lemma bt_ok_Cons [simp]: "bt_ok (e # m) \<longleftrightarrow> (\<forall>e' \<in> set m. fst e < fst e') \<and> bt_ok m"
  by (auto simp: bt_ok_def)

lemma bt_ok_insert [inv_intros, simp, intro]: "bt_ok m \<Longrightarrow> bt_ok (bt_insert k v m)"
proof (induction k v m rule: bt_insert.induct)
  case (2 k v k' v' m)
  have *: "\<And>e. e \<in> set (bt_insert k v m) \<Longrightarrow> fst e = k \<or> fst e \<in> fst ` set m"
    using keys_bt_insert[of k v m] by (metis imageI insert_iff)
  show ?case
    using 2 * by (auto dest!: *)
qed simp

lemma bt_ok_filter [inv_intros, simp, intro]: "bt_ok m \<Longrightarrow> bt_ok (filter P m)"
  by (simp add: bt_ok_def sorted_wrt_filter sorted_wrt_map)

lemma bt_ok_remove [inv_intros, simp, intro]: "bt_ok m \<Longrightarrow> bt_ok (bt_remove k m)"
  by (simp add: bt_remove_def bt_ok_filter)

lemma bt_ok_distinct: "bt_ok m \<Longrightarrow> distinct (map fst m)"
  by (induction m) (force simp: image_iff)+

lemma bt_ok_map_of: "bt_ok m \<Longrightarrow> map_of m k = Some v \<longleftrightarrow> (k, v) \<in> set m"
  by (simp add: bt_ok_distinct)

lemma bt_ok_ext:
  assumes "map_of a = map_of b" "bt_ok a" "bt_ok b"
  shows "a = b"
proof -
  have "sorted (map fst a)" "sorted (map fst b)" "distinct (map fst a)" "distinct (map fst b)"
    using assms(2,3) by (simp_all add: bt_ok_def strict_sorted_iff)
  moreover have "set a = set b"
    using assms by (auto simp: bt_ok_map_of[symmetric] set_eq_iff)
  moreover have "inj_on fst (set a \<union> set b)" using calculation by (simp add: distinct_map)
  ultimately show ?thesis by (intro map_sorted_distinct_set_unique[of fst])
qed

lemma set_bt_insert: "bt_ok m \<Longrightarrow> set (bt_insert k v m) = insert (k, v) {e \<in> set m. fst e \<noteq> k}"
  by (induction k v m rule: bt_insert.induct) force+

lemma set_bt_remove: "set (bt_remove k m) = {e \<in> set m. fst e \<noteq> k}"
  by (auto simp: bt_remove_def)

lemma length_bt_insert:
  "bt_ok m \<Longrightarrow> length (bt_insert k v m) = (if k \<in> fst ` set m then length m else Suc (length m))"
proof (induction k v m rule: bt_insert.induct)
  case (2 k v k' v' m)
  show ?case
  proof (cases "k' < k")
    case True
    with 2 show ?thesis by auto
  next
    case False
    with 2(2) show ?thesis by force
  qed
qed simp

lemma bt_remove_absent: "map_of m k = None \<Longrightarrow> bt_remove k m = m"
  by (induction m) (auto simp: bt_remove_def split: if_splits)

lemma length_bt_remove:
  "bt_ok m \<Longrightarrow> length (bt_remove k m) = (if k \<in> fst ` set m then length m - 1 else length m)"
proof (induction m)
  case (Cons e m)
  show ?case
  proof (cases "fst e = k")
    case True
    have "\<forall>e' \<in> set m. fst e' \<noteq> k" using Cons.prems True by auto
    then have "filter (\<lambda>e. fst e \<noteq> k) m = m" by (simp add: filter_id_conv)
    then show ?thesis using True by (simp add: bt_remove_def)
  next
    case False
    then show ?thesis using Cons
      by (cases m) (auto simp: bt_remove_def)
  qed
qed (simp add: bt_remove_def)

lemma bt_last_None [simp]: "bt_last m = None \<longleftrightarrow> m = []"
  by (simp add: bt_last_def)

lemma bt_last_in: "bt_last m = Some e \<Longrightarrow> e \<in> set m"
  by (metis bt_last_def last_in_set option.inject option.distinct(1))

lemma bt_last_greatest: "bt_ok m \<Longrightarrow> bt_last m = Some (k, v) \<Longrightarrow> e \<in> set m \<Longrightarrow> fst e \<le> k"
proof (induction m)
  case (Cons a m)
  show ?case
  proof (cases "m = []")
    case True
    with Cons.prems show ?thesis by (simp add: bt_last_def)
  next
    case False
    with Cons.prems have "bt_last m = Some (k, v)" by (simp add: bt_last_def)
    moreover from this have "(k, v) \<in> set m" by (rule bt_last_in)
    ultimately show ?thesis using Cons by (auto intro: less_imp_le)
  qed
qed simp

section \<open>Hash maps\<close>

text \<open>\<open>HashMap::len\<close> and the iteration of values need distinct keys, which every insertion keeps.\<close>

definition hm_ok :: "('k \<times> 'v) list \<Rightarrow> bool" where
  "hm_ok m = distinct (map fst m)"

lemma key_lookup: "k \<in> set (map fst m) \<Longrightarrow> \<exists>v. map_of m k = Some v"
  using map_of_eq_None_iff[of m k] by (cases "map_of m k") auto

lemma hm_ok_Nil [simp]: "hm_ok []"
  by (simp add: hm_ok_def)

lemma hm_ok_update [inv_intros, simp, intro]: "hm_ok m \<Longrightarrow> hm_ok (AList.update k v m)"
  by (simp add: hm_ok_def distinct_update)

lemma hm_ok_delete [inv_intros, simp, intro]: "hm_ok m \<Longrightarrow> hm_ok (AList.delete k m)"
  by (simp add: hm_ok_def distinct_delete)

lemma hm_ok_filter [inv_intros, simp, intro]: "hm_ok m \<Longrightarrow> hm_ok (filter P m)"
  by (simp add: hm_ok_def distinct_map_filter)

lemma hm_ok_map_of: "hm_ok m \<Longrightarrow> map_of m k = Some v \<longleftrightarrow> (k, v) \<in> set m"
  by (simp add: hm_ok_def)

lemma set_hm_update:
  "hm_ok m \<Longrightarrow> set (AList.update k v m) = insert (k, v) {e \<in> set m. fst e \<noteq> k}"
  by (induction m) (auto simp: hm_ok_def image_iff)

lemma set_hm_delete: "set (AList.delete k m) = {e \<in> set m. fst e \<noteq> k}"
  by (auto simp: AList.delete_eq)

section \<open>Lists\<close>

text \<open>\<open>iter().position(p)\<close> followed by \<open>unwrap_or(len)\<close>, the split point both tree walks use.\<close>

definition position_or_len :: "('a \<Rightarrow> bool) \<Rightarrow> 'a list \<Rightarrow> nat" where
  "position_or_len p xs = length (takeWhile (\<lambda>x. \<not> p x) xs)"

lemma take_position: "take (position_or_len p xs) xs = takeWhile (\<lambda>x. \<not> p x) xs"
  by (simp add: position_or_len_def takeWhile_eq_take[symmetric])

lemma drop_position: "drop (position_or_len p xs) xs = dropWhile (\<lambda>x. \<not> p x) xs"
  by (simp add: position_or_len_def dropWhile_eq_drop[symmetric])

lemma position_or_len_map: "position_or_len p (map f xs) = position_or_len (p \<circ> f) xs"
  by (simp add: position_or_len_def takeWhile_map comp_def)

text \<open>On a list where a predicate, once true, stays true, the split point separates the two kinds.\<close>

lemma takeWhile_eq_filter_mono:
  "sorted_wrt (\<lambda>x y. P x \<longrightarrow> P y) xs \<Longrightarrow> takeWhile (\<lambda>x. \<not> P x) xs = filter (\<lambda>x. \<not> P x) xs"
  by (induction xs) (auto simp: filter_empty_conv)

lemma dropWhile_eq_filter_mono:
  "sorted_wrt (\<lambda>x y. P x \<longrightarrow> P y) xs \<Longrightarrow> dropWhile (\<lambda>x. \<not> P x) xs = filter P xs"
  by (induction xs) (auto simp: filter_id_conv)

lemma find_filter: "find Q (filter R xs) = find (\<lambda>x. R x \<and> Q x) xs"
  by (induction xs) auto

lemma find_SomeD: "find P xs = Some x \<Longrightarrow> x \<in> set xs \<and> P x"
  by (induction xs) (auto split: if_splits)

lemma find_cong_set: "(\<And>x. x \<in> set xs \<Longrightarrow> P x = Q x) \<Longrightarrow> find P xs = find Q xs"
  by (induction xs) auto

lemma sum_list_filter_split:
  "sum_list (map f (filter p xs)) + sum_list (map f (filter (\<lambda>x. \<not> p x) xs))
   = (sum_list (map f xs) :: 'a::comm_monoid_add)"
  by (induction xs) (auto simp: ac_simps)

lemma update_absent: "map_of m k = None \<Longrightarrow> AList.update k v m = m @ [(k, v)]"
  by (induction m) (auto split: if_splits)

end
