(* ===== verification/Zk_Element.thy ===== *)
theory Zk_Element
  imports Payy_Prelude
begin

text \<open>
  \<open>pkg/zk-primitives/src/element\<close>: the 256-bit \<open>Element\<close>, its byte, bit and field conversions,
  and the least-significant-bit handles (\<open>Lsb\<close>) that place an element in a sparse Merkle tree.

  \<open>Element\<close> wraps an unsigned 256-bit integer and derives its order from it, so it is
  \<^typ>\<open>u256\<close>. The arithmetic of the wrapped integer is the release-build arithmetic, which
  wraps. The scalar field of the proof system (\<open>Base\<close>) is not part of the repository: its
  conversions \<open>from_raw\<close> and \<open>to_repr\<close> are parameters, and what the code relies on is the
  hypothesis \<open>field_repr_ok\<close>.
\<close>

unbundle bit_operations_syntax

type_synonym element = u256

section \<open>Constants and small conversions (element/mod.rs, element/convert.rs)\<close>

definition ZERO :: element where "ZERO = 0"

definition ONE :: element where "ONE = 1"

definition ELEMENT_MAX :: element where "ELEMENT_MAX = - 1"

text \<open>The value of an empty slot of a tree; identical to \<open>ZERO\<close>.\<close>

definition NULL_HASH :: element where "NULL_HASH = ZERO"

definition BYTE_HASH_IV :: element where "BYTE_HASH_IV = 2"

definition MODULUS :: element where
  "MODULUS = 0x30644e72e131a029b85045b68181585d2833e84879b9709143e1f593f0000001"

definition element_new :: "u64 \<Rightarrow> element" where
  "element_new i = ucast i"

definition as_bool :: "element \<Rightarrow> bool option" where
  "as_bool e = (if e = ZERO then Some False else if e = ONE then Some True else None)"

definition element_of_bool :: "bool \<Rightarrow> element" where
  "element_of_bool b = (case b of False \<Rightarrow> ZERO | True \<Rightarrow> ONE)"

definition is_zero :: "element \<Rightarrow> bool" where
  "is_zero e \<longleftrightarrow> e = ZERO"

text \<open>\<open>From<uN>\<close> widens; \<open>TryFrom<Element> for uN\<close> fails when the value does not fit.\<close>

definition element_from_int :: "'n::len word \<Rightarrow> element" where
  "element_from_int v = ucast v"

definition int_try_from_element :: "element \<Rightarrow> 'n::len word option" where
  "int_try_from_element e = (if unat e < 2 ^ LENGTH('n) then Some (ucast e) else None)"

lemmas element_consts = ZERO_def ONE_def NULL_HASH_def

section \<open>Bytes (element/convert.rs)\<close>

definition to_le_bytes :: "element \<Rightarrow> u8 list" where
  "to_le_bytes e = map (\<lambda>i. ucast (drop_bit (8 * i) e)) [0..<32]"

definition to_be_bytes :: "element \<Rightarrow> u8 list" where
  "to_be_bytes e = rev (to_le_bytes e)"

text \<open>
  \<open>from_le_bytes\<close> takes an array of exactly 32 bytes; the recursion is over the byte list and
  the array type's length is the guard of the lemmas that need it.
\<close>

fun le_word :: "u8 list \<Rightarrow> 'n::len word" where
  "le_word [] = 0"
| "le_word (b # bs) = ucast b OR push_bit 8 (le_word bs)"

definition from_le_bytes :: "u8 list \<Rightarrow> element" where
  "from_le_bytes bs = le_word bs"

definition from_be_bytes :: "u8 list \<Rightarrow> element" where
  "from_be_bytes bs = from_le_bytes (rev bs)"

lemma length_le_bytes [simp]: "length (to_le_bytes e) = 32"
  by (simp add: to_le_bytes_def)

lemma length_be_bytes [simp]: "length (to_be_bytes e) = 32"
  by (simp add: to_be_bytes_def)

lemma bit_le_word:
  "bit (le_word bs :: 'n::len word) n \<longleftrightarrow>
     n < LENGTH('n) \<and> n div 8 < length bs \<and> bit (bs ! (n div 8)) (n mod 8)"
proof (induction bs arbitrary: n)
  case (Cons b bs)
  show ?case
  proof (cases "n < 8")
    case True
    then show ?thesis
      by (auto simp: bit_or_iff bit_push_bit_iff bit_simps)
  next
    case False
    then obtain m where n: "n = m + 8" by (metis add.commute le_Suc_ex not_less)
    have b: "\<not> bit b n" using False by (auto dest: bit_imp_le_length)
    have d: "n div 8 = Suc (m div 8)" "n mod 8 = m mod 8" using n by auto
    show ?thesis
      unfolding d using n b Cons.IH[of m]
      by (auto simp: bit_or_iff bit_push_bit_iff bit_simps dest: bit_imp_le_length)
  qed
qed simp

lemma to_le_bytes_nth: "i < 32 \<Longrightarrow> to_le_bytes e ! i = ucast (drop_bit (8 * i) e)"
  by (simp add: to_le_bytes_def)

lemma from_le_to_le [simp]: "from_le_bytes (to_le_bytes e) = e"
proof (rule bit_word_eqI)
  fix n assume "n < LENGTH(256)"
  then have n: "n < 256" by simp
  then have d: "n div 8 < 32" by auto
  have "8 * (n div 8) + n mod 8 = n" by simp
  then show "bit (from_le_bytes (to_le_bytes e)) n = bit e n"
    using n d by (simp add: from_le_bytes_def bit_le_word to_le_bytes_nth bit_simps)
qed

lemma to_le_from_le:
  assumes "length bs = 32"
  shows "to_le_bytes (from_le_bytes bs) = bs"
proof (rule nth_equalityI)
  show "length (to_le_bytes (from_le_bytes bs)) = length bs" using assms by simp
next
  fix i assume "i < length (to_le_bytes (from_le_bytes bs))"
  then have i: "i < 32" by simp
  show "to_le_bytes (from_le_bytes bs) ! i = bs ! i"
  proof (rule bit_word_eqI)
    fix n assume "n < LENGTH(8)"
    then have n: "n < 8" by simp
    have "(8 * i + n) div 8 = i" "(8 * i + n) mod 8 = n" "8 * i + n < 256"
      using n i by auto
    then show "bit (to_le_bytes (from_le_bytes bs) ! i) n = bit (bs ! i) n"
      using n i assms
      by (simp add: to_le_bytes_nth from_le_bytes_def bit_le_word bit_simps)
  qed
qed

lemma from_be_to_be [simp]: "from_be_bytes (to_be_bytes e) = e"
  by (simp add: from_be_bytes_def to_be_bytes_def)

lemma to_be_from_be: "length bs = 32 \<Longrightarrow> to_be_bytes (from_be_bytes bs) = bs"
  by (simp add: from_be_bytes_def to_be_bytes_def to_le_from_le)

lemma to_be_bytes_inject [simp]: "to_be_bytes a = to_be_bytes b \<longleftrightarrow> a = b"
  by (metis from_be_to_be)

text \<open>\<open>element/borsh_impls.rs\<close>: an element is written as its 32 big-endian bytes; reading takes
  32 bytes off the reader and fails when there are fewer.\<close>

definition borsh_serialize :: "element \<Rightarrow> u8 list" where
  "borsh_serialize e = to_be_bytes e"

definition borsh_deserialize_reader :: "u8 list \<Rightarrow> (element \<times> u8 list) option" where
  "borsh_deserialize_reader r =
     (if length r < 32 then None else Some (from_be_bytes (take 32 r), drop 32 r))"

lemma borsh_roundtrip: "borsh_deserialize_reader (borsh_serialize e @ rest) = Some (e, rest)"
  by (simp add: borsh_serialize_def borsh_deserialize_reader_def)

section \<open>Bits and slots (element/lsb.rs, element/collision.rs)\<close>

definition to_be_bits :: "element \<Rightarrow> bool list" where
  "to_be_bits e = map (bit e) (rev [0..<256])"

text \<open>
  The slice an \<open>Lsb\<close> handle compares, orders and iterates by: the last \<open>count\<close> of the 256 bits,
  most significant first. The code is only called with \<open>count \<le> 256\<close> (a larger one would panic).
\<close>

definition lsb :: "element \<Rightarrow> nat \<Rightarrow> bool list" where
  "lsb e count = drop (length (to_be_bits e) - count) (to_be_bits e)"

definition collides_with :: "nat \<Rightarrow> element \<Rightarrow> element \<Rightarrow> bool" where
  "collides_with depth a b \<longleftrightarrow> lsb a (depth - 1) = lsb b (depth - 1)"

lemma length_to_be_bits [simp]: "length (to_be_bits e) = 256"
  by (simp add: to_be_bits_def)

lemma length_lsb [simp]: "n \<le> 256 \<Longrightarrow> length (lsb e n) = n"
  by (simp add: lsb_def)

lemma lsb_eq_map: "n \<le> 256 \<Longrightarrow> lsb e n = map (bit e) (rev [0..<n])"
  by (rule nth_equalityI) (auto simp: lsb_def to_be_bits_def rev_nth)

lemma lsb_code [code]:
  "lsb e n = (if n \<le> 256 then map (bit e) (rev [0..<n]) else drop (256 - n) (to_be_bits e))"
  by (simp add: lsb_eq_map) (simp add: lsb_def)

lemma lsb_Suc: "n < 256 \<Longrightarrow> lsb e (Suc n) = bit e n # lsb e n"
  by (simp add: lsb_eq_map)

lemma lsb_eq_iff_take_bit:
  assumes "n \<le> 256"
  shows "lsb a n = lsb b n \<longleftrightarrow> take_bit n a = take_bit n b"
proof -
  have "lsb a n = lsb b n \<longleftrightarrow> (\<forall>i < n. bit a i = bit b i)"
    using assms by (auto simp: lsb_eq_map)
  also have "\<dots> \<longleftrightarrow> take_bit n a = take_bit n b"
    using assms by (simp add: bit_eq_iff bit_take_bit_iff) (meson less_le_trans)
  finally show ?thesis .
qed

lemma lsb_eq_iff_mod:
  assumes "n \<le> 256"
  shows "lsb a n = lsb b n \<longleftrightarrow> unat a mod 2 ^ n = unat b mod 2 ^ n"
  using assms
  by (simp add: lsb_eq_iff_take_bit word_unat_eq_iff unsigned_take_bit_eq flip: take_bit_eq_mod)

lemma lsb_full_inject: "lsb a 256 = lsb b 256 \<longleftrightarrow> a = b"
  using lsb_eq_iff_mod[of 256 a b] unsigned_less[of a, where 'a = nat] unsigned_less[of b, where 'a = nat]
  by (auto simp: word_unat_eq_iff)

section \<open>Field elements (element/halo2.rs)\<close>

definition canonicalize :: "element \<Rightarrow> element" where
  "canonicalize e = e mod MODULUS"

definition is_canonical :: "element \<Rightarrow> bool" where
  "is_canonical e \<longleftrightarrow> e = canonicalize e"

text \<open>The four 64-bit limbs of the 32 little-endian bytes, and its inverse from the tests.\<close>

definition u8s_to_u64 :: "u8 list \<Rightarrow> u64 list" where
  "u8s_to_u64 bs = map (\<lambda>i. le_word (take 8 (drop (8 * i) bs))) [0..<4]"

definition u64s_to_u8s :: "u64 list \<Rightarrow> u8 list" where
  "u64s_to_u8s ws = map (\<lambda>i. ucast (drop_bit (8 * (i mod 8)) (ws ! (i div 8)))) [0..<32]"

text \<open>The operations of the scalar field the conversions call.\<close>

record 'b field_ops =
  from_raw :: "u64 list \<Rightarrow> 'b"
  to_repr :: "'b \<Rightarrow> u8 list"
  poseidon :: "'b list \<Rightarrow> 'b"

definition to_base :: "'b field_ops \<Rightarrow> element \<Rightarrow> 'b" where
  "to_base F e = from_raw F (u8s_to_u64 (to_le_bytes e))"

definition from_base :: "'b field_ops \<Rightarrow> 'b \<Rightarrow> element" where
  "from_base F b = from_le_bytes (to_repr F b)"

text \<open>
  Documented behaviour of the field type: \<open>from_raw\<close> reads four little-endian limbs as an
  integer modulo the field's prime, \<open>to_repr\<close> writes the canonical representative as 32
  little-endian bytes.
\<close>

definition limbs_value :: "u64 list \<Rightarrow> nat" where
  "limbs_value ws = (\<Sum>i<length ws. unat (ws ! i) * 2 ^ (64 * i))"

definition field_repr_ok :: "'b field_ops \<Rightarrow> bool" where
  "field_repr_ok F \<longleftrightarrow>
     (\<forall>ws. length ws = 4 \<longrightarrow>
        to_repr F (from_raw F ws) = to_le_bytes (word_of_nat (limbs_value ws mod unat MODULUS)))"

lemma limb_eq:
  assumes "i < 4"
  shows "le_word (take 8 (drop (8 * i) (to_le_bytes e))) = (ucast (drop_bit (64 * i) e) :: u64)"
proof (rule bit_word_eqI)
  fix n assume "n < LENGTH(64)"
  then have n: "n < 64" by simp
  have m: "n div 8 < 8" using n by auto
  have i8: "8 * i + n div 8 < 32" using assms m by auto
  have eq: "8 * (8 * i + n div 8) + n mod 8 = 64 * i + n" by simp
  have r: "n mod 8 < Suc (Suc (Suc (Suc (Suc (Suc (Suc (Suc 0)))))))" by presburger
  show "bit (le_word (take 8 (drop (8 * i) (to_le_bytes e))) :: u64) n
        = bit (ucast (drop_bit (64 * i) e) :: u64) n"
    using n m i8 assms eq r
    by (simp add: bit_le_word to_le_bytes_nth bit_simps add.commute)
qed

lemma four_digits:
  "(x::nat) = x mod B + (x div B mod B) * B + (x div B ^ 2 mod B) * B ^ 2 + (x div B ^ 3) * B ^ 3"
proof -
  have 2: "x div B ^ 2 = x div B div B" by (simp add: power2_eq_square div_mult2_eq)
  have 3: "x div B ^ 3 = x div B ^ 2 div B"
    by (simp add: power3_eq_cube power2_eq_square div_mult2_eq)
  define y where "y = x div B"
  define z where "z = x div B ^ 2"
  define w where "w = x div B ^ 3"
  have x: "x = x mod B + y * B" by (simp add: y_def)
  have y: "y = y mod B + z * B" by (simp add: y_def z_def 2)
  have z: "z = z mod B + w * B" by (simp add: w_def z_def 3)
  have "y = y mod B + (z mod B + w * B) * B" by (subst z[symmetric]) (rule y)
  then have "y * B = (y mod B + (z mod B + w * B) * B) * B" by (rule arg_cong)
  then have "x mod B + y * B = x mod B + (y mod B + (z mod B + w * B) * B) * B"
    by (rule arg_cong)
  with x have "x = x mod B + (y mod B + (z mod B + w * B) * B) * B" by (rule trans)
  also have "\<dots> = x mod B + (y mod B) * B + (z mod B) * B ^ 2 + w * B ^ 3"
    by (simp only: distrib_right power2_eq_square power3_eq_cube add.assoc mult.assoc)
  finally show ?thesis by (simp only: y_def z_def w_def)
qed

lemma limbs_value_of_element: "limbs_value (u8s_to_u64 (to_le_bytes e)) = unat e"
proof -
  let ?x = "unat e" and ?B = "2 ^ 64 :: nat"
  have u: "u8s_to_u64 (to_le_bytes e) = map (\<lambda>i. ucast (drop_bit (64 * i) e)) [0..<4]"
    by (simp add: u8s_to_u64_def limb_eq)
  have v: "unat (ucast (drop_bit (64 * i) e) :: u64) = (?x div 2 ^ (64 * i)) mod ?B" for i
    by (simp only: unsigned_ucast_eq unat_drop_bit_eq) (simp add: drop_bit_eq_div take_bit_eq_mod)
  have x: "?x < ?B ^ 4" using unsigned_less[of e, where 'a = nat] by simp
  have "?x div ?B ^ 3 < ?B"
    using x by (simp add: less_mult_imp_div_less)
  then have top: "?x div ?B ^ 3 mod ?B = ?x div ?B ^ 3" by simp
  have "limbs_value (u8s_to_u64 (to_le_bytes e)) = (\<Sum>i<4. unat (ucast (drop_bit (64 * i) e) :: u64) * 2 ^ (64 * i))"
    unfolding limbs_value_def u by (rule sum.cong) simp_all
  also have "\<dots> = (\<Sum>i<4. ?x div ?B ^ i mod ?B * ?B ^ i)"
    by (simp only: v power_mult)
  also have "\<dots> = ?x mod ?B + (?x div ?B mod ?B) * ?B + (?x div ?B ^ 2 mod ?B) * ?B ^ 2 + (?x div ?B ^ 3) * ?B ^ 3"
    using top by (simp add: lessThan_nat_numeral lessThan_Suc del: power_mult_numeral)
  also have "\<dots> = ?x" by (rule four_digits[symmetric])
  finally show ?thesis .
qed

lemma canonical_iff: "is_canonical e \<longleftrightarrow> unat e < unat MODULUS"
proof
  assume "is_canonical e"
  then have "unat e = unat e mod unat MODULUS"
    by (metis is_canonical_def canonicalize_def unat_mod)
  moreover have "0 < unat MODULUS" by (simp add: MODULUS_def)
  ultimately show "unat e < unat MODULUS"
    by (metis mod_less_divisor)
next
  assume "unat e < unat MODULUS"
  then show "is_canonical e"
    by (metis is_canonical_def canonicalize_def mod_less unat_mod word_unat_eq_iff)
qed

lemma from_base_to_base:
  assumes "field_repr_ok F"
  shows "from_base F (to_base F e) = canonicalize e"
proof -
  have "length (u8s_to_u64 (to_le_bytes e)) = 4" by (simp add: u8s_to_u64_def)
  with assms have "to_repr F (to_base F e) = to_le_bytes (word_of_nat (unat e mod unat MODULUS))"
    by (simp add: field_repr_ok_def to_base_def limbs_value_of_element)
  then have "from_base F (to_base F e) = word_of_nat (unat e mod unat MODULUS)"
    by (simp add: from_base_def)
  also have "\<dots> = canonicalize e"
    by (simp add: canonicalize_def word_arith_nat_mod)
  finally show ?thesis .
qed

end
