(* ===== verification/Zk_Hash.thy ===== *)
theory Zk_Hash
  imports Zk_Element
begin

text \<open>
  \<open>pkg/zk-primitives/src/hash.rs\<close> and \<open>path.rs\<close>: hashing of element arrays and byte strings,
  and the Merkle root of a leaf and its siblings. The Poseidon permutation is not part of the
  repository and is the \<open>poseidon\<close> field of \<^typ>\<open>'b field_ops\<close>; the tree code only ever hashes
  pairs, so the tree theories take the two-element hash \<open>hm\<close> as their parameter, to be
  instantiated by \<open>hash_pair F\<close>.
\<close>

section \<open>Hashing (hash.rs)\<close>

definition hash_merge :: "'b field_ops \<Rightarrow> element list \<Rightarrow> element" where
  "hash_merge F elements = from_base F (poseidon F (map (to_base F) elements))"

abbreviation hash_pair :: "'b field_ops \<Rightarrow> element \<Rightarrow> element \<Rightarrow> element" where
  "hash_pair F l r \<equiv> hash_merge F [l, r]"

text \<open>\<open>slice::chunks(n)\<close> of the standard library, for \<open>n > 0\<close>.\<close>

function chunks :: "nat \<Rightarrow> 'a list \<Rightarrow> 'a list list" where
  "chunks n xs = (if xs = [] \<or> n = 0 then [] else take n xs # chunks n (drop n xs))"
  by pat_completeness auto
termination
  by (relation "measure (\<lambda>(n, xs). length xs)") auto

declare chunks.simps [simp del]

text \<open>\<open>u128::from_be_bytes\<close> of a 16-byte array.\<close>

definition u128_from_be_bytes :: "u8 list \<Rightarrow> u128" where
  "u128_from_be_bytes bs = le_word (rev bs)"

text \<open>The slice is copied to the front of 16 zero bytes; a longer slice would panic.\<close>

definition bytes_to_element :: "u8 list \<Rightarrow> element option" where
  "bytes_to_element bytes =
     (if length bytes > 16 then None
      else Some (element_from_int (u128_from_be_bytes (bytes @ replicate (16 - length bytes) 0))))"

text \<open>\<open>once(initial).chain(elements).reduce(hash_merge)\<close>: a left fold from the initial value.\<close>

definition hash_bytes :: "'b field_ops \<Rightarrow> u8 list \<Rightarrow> element option" where
  "hash_bytes F bytes =
     (let elements_from_bytes = map bytes_to_element (chunks 16 bytes)
      in if None \<in> set elements_from_bytes then None
         else Some (foldl (hash_pair F) BYTE_HASH_IV (map the elements_from_bytes)))"

lemma chunks_Nil [simp]: "chunks n [] = []"
  by (simp add: chunks.simps)

lemma concat_chunks: "0 < n \<Longrightarrow> concat (chunks n xs) = xs"
  by (induction n xs rule: chunks.induct) (subst chunks.simps, auto)

lemma chunks_bounds: "c \<in> set (chunks n xs) \<Longrightarrow> 0 < length c \<and> length c \<le> n"
proof (induction n xs rule: chunks.induct)
  case (1 n xs)
  show ?case
  proof (cases "xs = [] \<or> n = 0")
    case True
    with "1.prems" show ?thesis by (simp add: chunks.simps)
  next
    case False
    with "1.prems" have "c = take n xs \<or> c \<in> set (chunks n (drop n xs))"
      by (simp add: chunks.simps[of n xs])
    with False "1.IH" show ?thesis by auto
  qed
qed

text \<open>Every chunk fits, so hashing bytes never panics.\<close>

lemma hash_bytes_total: "\<exists>h. hash_bytes F bytes = Some h"
proof -
  have "None \<notin> set (map bytes_to_element (chunks 16 bytes))"
    using chunks_bounds[of _ 16 bytes] by (fastforce simp: bytes_to_element_def)
  then show ?thesis by (auto simp: hash_bytes_def)
qed

section \<open>Merkle roots (path.rs)\<close>

text \<open>The siblings come deepest first; the bit is \<open>True\<close> when the sibling is on the left.\<close>

fun compute_merkle_root :: "('a \<Rightarrow> 'a \<Rightarrow> 'a) \<Rightarrow> 'a \<Rightarrow> ('a \<times> bool) list \<Rightarrow> 'a" where
  "compute_merkle_root hm leaf [] = leaf"
| "compute_merkle_root hm leaf ((sibling, b) # siblings) =
     (case b of
        False \<Rightarrow> compute_merkle_root hm (hm leaf sibling) siblings
      | True \<Rightarrow> compute_merkle_root hm (hm sibling leaf) siblings)"

lemma compute_merkle_root_append:
  "compute_merkle_root hm leaf (xs @ ys)
   = compute_merkle_root hm (compute_merkle_root hm leaf xs) ys"
  by (induction hm leaf xs rule: compute_merkle_root.induct) (auto split: bool.splits)

text \<open>The pairs of elements a root computation hashes, in order.\<close>

fun merkle_pairs :: "('a \<Rightarrow> 'a \<Rightarrow> 'a) \<Rightarrow> 'a \<Rightarrow> ('a \<times> bool) list \<Rightarrow> ('a \<times> 'a) list" where
  "merkle_pairs hm leaf [] = []"
| "merkle_pairs hm leaf ((s, b) # rest) =
     (let p = (if b then (s, leaf) else (leaf, s)) in p # merkle_pairs hm (hm (fst p) (snd p)) rest)"

lemma compute_merkle_root_inject_path:
  assumes "compute_merkle_root hm a p1 = compute_merkle_root hm b p2" and "map snd p1 = map snd p2"
    and "inj_on (\<lambda>(l, r). hm l r) (set (merkle_pairs hm a p1) \<union> set (merkle_pairs hm b p2))"
  shows "a = b \<and> p1 = p2"
  using assms
proof (induction p1 p2 arbitrary: a b rule: list_induct2')
  case (4 e1 p1 e2 p2)
  obtain s1 d s2 where e: "e1 = (s1, d)" "e2 = (s2, d)"
    using "4.prems"(2) by (cases e1; cases e2) auto
  let ?p = "\<lambda>s x. if d then (s, x) else (x, s)"
  let ?h = "\<lambda>s x. hm (fst (?p s x)) (snd (?p s x))"
  have "compute_merkle_root hm (?h s1 a) p1 = compute_merkle_root hm (?h s2 b) p2"
    using "4.prems"(1) by (simp add: e split: bool.splits if_splits)
  moreover have "map snd p1 = map snd p2" using "4.prems"(2) by simp
  moreover have "inj_on (\<lambda>(l, r). hm l r)
      (set (merkle_pairs hm (?h s1 a) p1) \<union> set (merkle_pairs hm (?h s2 b) p2))"
    by (rule inj_on_subset[OF "4.prems"(3)]) (auto simp: e Let_def)
  ultimately have IH: "?h s1 a = ?h s2 b" "p1 = p2" using "4.IH" by blast+
  moreover have "?p s1 a \<in> set (merkle_pairs hm a (e1 # p1))" "?p s2 b \<in> set (merkle_pairs hm b (e2 # p2))"
    by (simp_all add: e Let_def)
  ultimately have "?p s1 a = ?p s2 b"
    using inj_onD[OF "4.prems"(3), of "?p s1 a" "?p s2 b"] by (simp add: case_prod_unfold)
  with IH(2) show ?case by (auto simp: e split: if_splits)
qed auto

lemma compute_merkle_root_inject:
  assumes "compute_merkle_root hm a path = compute_merkle_root hm b path"
    and "inj_on (\<lambda>(l, r). hm l r) (set (merkle_pairs hm a path) \<union> set (merkle_pairs hm b path))"
  shows "a = b"
  using compute_merkle_root_inject_path[OF assms(1) refl assms(2)] by blast

end
