(* ===== verification/Zk_Props.thy ===== *)
theory Zk_Props
  imports Zk_Hash
begin

text \<open>
  The properties of the elements: their slots, their encodings and their conversion to the scalar
  field, whose arithmetic is a parameter (\<open>field_ops\<close>).
\<close>

text \<open>
  Two elements collide in a tree of depth \<open>n + 1\<close> exactly when they agree modulo \<open>2 ^ n\<close>; at
  depth 257 only equal elements do.
\<close>

theorem collides_iff_mod:
  "(n \<le> 256 \<longrightarrow> (collides_with (Suc n) a b \<longleftrightarrow> unat a mod 2 ^ n = unat b mod 2 ^ n))
   \<and> (collides_with 257 a b \<longleftrightarrow> a = b)"
  using lsb_eq_iff_mod[of n a b] lsb_full_inject[of a b] by (simp add: collides_with_def)

theorem collides_iff_mod_witness:
  "collides_with 4 5 13 \<and> \<not> collides_with 5 5 13"
  using collides_iff_mod[of 3 5 13] collides_iff_mod[of 4 5 13] by simp

text \<open>
  C39: an element survives the trip through its big-endian, little-endian and Borsh encodings; what
  follows it in the reader is left there, and a reader with fewer than 32 bytes is an error.
\<close>

theorem element_encodings_roundtrip:
  "from_be_bytes (to_be_bytes e) = e \<and> from_le_bytes (to_le_bytes e) = e
   \<and> borsh_deserialize_reader (borsh_serialize e @ rest) = Some (e, rest)
   \<and> (case borsh_deserialize_reader bytes of
        None \<Rightarrow> length bytes < 32
      | Some (x, r) \<Rightarrow> bytes = borsh_serialize x @ r)"
proof -
  have "bytes = take 32 bytes @ drop 32 bytes" by simp
  then show ?thesis
    using borsh_roundtrip[of e rest]
    by (auto simp: borsh_deserialize_reader_def borsh_serialize_def to_be_from_be)
qed

text \<open>
  C40: converting an element to the field and back reduces it modulo the field's modulus, so it is the
  identity exactly on the canonical elements.
\<close>

theorem base_conversion:
  assumes "field_repr_ok F"
  shows "from_base F (to_base F e) = canonicalize e
         \<and> (from_base F (to_base F e) = e \<longleftrightarrow> unat e < unat MODULUS)"
proof -
  have "canonicalize e = e \<longleftrightarrow> unat e < unat MODULUS"
    using canonical_iff[of e] by (auto simp: is_canonical_def)
  then show ?thesis using from_base_to_base[OF assms, of e] by simp
qed

text \<open>The integers modulo the modulus, as a field representation.\<close>

definition mod_field :: "nat field_ops" where
  "mod_field = \<lparr>from_raw = (\<lambda>l. limbs_value l mod unat MODULUS),
                to_repr = (\<lambda>x. to_le_bytes (word_of_nat x)), poseidon = (\<lambda>xs. sum_list xs)\<rparr>"

theorem base_conversion_witness:
  "from_base mod_field (to_base mod_field (MODULUS + 5)) = 5"
proof -
  have "field_repr_ok mod_field" by (simp add: field_repr_ok_def mod_field_def)
  from base_conversion[OF this, of "MODULUS + 5"]
  show ?thesis by (simp add: canonicalize_def MODULUS_def)
qed

end
