(* ===== verification/Smirk_Cache.thy ===== *)
theory Smirk_Cache
  imports Zk_Hash "HOL-Library.Product_Lexorder"
begin

text \<open>
  \<open>pkg/smirk/src/hash_cache\<close> and \<open>pkg/smirk/src/hash.rs\<close>: the \<open>HashCache\<close> trait the tree hashes
  through, its two implementations, and the table of empty-subtree hashes.

  The trait is the locale \<open>hash_cache\<close>: its documented obligation is that the result always
  matches \<open>hash_merge\<close>. A call takes the cache and returns it, because \<open>SimpleHashCache\<close> updates
  its map and its counters through shared references.
\<close>

section \<open>The trait and its implementations (hash_cache/mod.rs)\<close>

record known_hash =
  kh_left :: element
  kh_right :: element
  kh_result :: element

record cache_metrics =
  m_hashes :: u64
  m_cache_hits :: u64
  m_cache_misses :: u64

record simple_cache =
  sc_inner :: "((element \<times> element) \<times> element) list"
  sc_initial :: "known_hash list"
  sc_metrics :: cache_metrics

definition incr_hashes :: "cache_metrics \<Rightarrow> cache_metrics" where
  "incr_hashes m = m\<lparr>m_hashes := m_hashes m + 1\<rparr>"

definition incr_cache_hits :: "cache_metrics \<Rightarrow> cache_metrics" where
  "incr_cache_hits m = m\<lparr>m_cache_hits := m_cache_hits m + 1\<rparr>"

definition incr_cache_misses :: "cache_metrics \<Rightarrow> cache_metrics" where
  "incr_cache_misses m = m\<lparr>m_cache_misses := m_cache_misses m + 1\<rparr>"

text \<open>\<open>NoopHashCache\<close> takes the trait's default method.\<close>

definition noop_hash ::
  "(element \<Rightarrow> element \<Rightarrow> element) \<Rightarrow> unit \<Rightarrow> element \<Rightarrow> element \<Rightarrow> element \<times> unit" where
  "noop_hash hm c left right = (hm left right, c)"

text \<open>
  \<open>binary_search_by_key\<close> on the sorted initial hashes returns some entry with the key when there
  is one; the model returns the first.
\<close>

definition simple_hash ::
  "(element \<Rightarrow> element \<Rightarrow> element) \<Rightarrow> simple_cache \<Rightarrow> element \<Rightarrow> element \<Rightarrow> element \<times> simple_cache"
where
  "simple_hash hm c left right =
     (let c = c\<lparr>sc_metrics := incr_hashes (sc_metrics c)\<rparr>
      in case find (\<lambda>h. (kh_left h, kh_right h) = (left, right)) (sc_initial c) of
           Some h \<Rightarrow> (kh_result h, c\<lparr>sc_metrics := incr_cache_hits (sc_metrics c)\<rparr>)
         | None \<Rightarrow>
             (case map_of (sc_inner c) (left, right) of
                Some r \<Rightarrow> (r, c\<lparr>sc_metrics := incr_cache_hits (sc_metrics c)\<rparr>)
              | None \<Rightarrow>
                  (let r = hm left right
                   in (r, c\<lparr>sc_metrics := incr_cache_misses (sc_metrics c),
                            sc_inner := AList.update (left, right) r (sc_inner c)\<rparr>))))"

definition simple_cache_new :: simple_cache where
  "simple_cache_new =
     \<lparr>sc_inner = [], sc_initial = [],
      sc_metrics = \<lparr>m_hashes = 0, m_cache_hits = 0, m_cache_misses = 0\<rparr>\<rparr>"

definition simple_cache_len :: "simple_cache \<Rightarrow> nat" where
  "simple_cache_len c = length (sc_inner c)"

definition simple_cache_is_empty :: "simple_cache \<Rightarrow> bool" where
  "simple_cache_is_empty c \<longleftrightarrow> length (sc_inner c) = 0"

text \<open>\<open>None\<close>: the assertion that it is called once only failed.\<close>

definition provide_known_hashes :: "simple_cache \<Rightarrow> known_hash list \<Rightarrow> simple_cache option" where
  "provide_known_hashes c hashes =
     (if sc_initial c \<noteq> [] then None
      else Some (c\<lparr>sc_initial := sort_key (\<lambda>h. (kh_left h, kh_right h)) hashes\<rparr>))"

definition evict :: "simple_cache \<Rightarrow> element \<Rightarrow> element \<Rightarrow> simple_cache" where
  "evict c left right = c\<lparr>sc_inner := AList.delete (left, right) (sc_inner c)\<rparr>"

definition evict_all :: "simple_cache \<Rightarrow> simple_cache" where
  "evict_all c = c\<lparr>sc_inner := []\<rparr>"

text \<open>What the implementor promises: every stored result is the hash of its key.\<close>

definition known_ok :: "(element \<Rightarrow> element \<Rightarrow> element) \<Rightarrow> known_hash \<Rightarrow> bool" where
  "known_ok hm h \<longleftrightarrow> kh_result h = hm (kh_left h) (kh_right h)"

definition simple_cache_ok :: "(element \<Rightarrow> element \<Rightarrow> element) \<Rightarrow> simple_cache \<Rightarrow> bool" where
  "simple_cache_ok hm c \<longleftrightarrow>
     (\<forall>l r v. map_of (sc_inner c) (l, r) = Some v \<longrightarrow> v = hm l r)
     \<and> (\<forall>h \<in> set (sc_initial c). known_ok hm h)"

locale hash_cache =
  fixes hm :: "element \<Rightarrow> element \<Rightarrow> element"
    and chash :: "'c \<Rightarrow> element \<Rightarrow> element \<Rightarrow> element \<times> 'c"
    and cinv :: "'c \<Rightarrow> bool"
  assumes hash_matches: "cinv c \<Longrightarrow> fst (chash c l r) = hm l r"
    and hash_keeps: "cinv c \<Longrightarrow> cinv (snd (chash c l r))"
begin

lemma chash_cases:
  assumes "cinv c"
  obtains c' where "chash c l r = (hm l r, c')" and "cinv c'"
  using hash_matches[OF assms, of l r] hash_keeps[OF assms, of l r] by (metis prod.collapse)

end

interpretation noop: hash_cache hm "noop_hash hm" "\<lambda>_. True" for hm
  by unfold_locales (simp_all add: noop_hash_def)

lemma simple_hash_correct:
  assumes "simple_cache_ok hm c"
  shows "fst (simple_hash hm c l r) = hm l r \<and> simple_cache_ok hm (snd (simple_hash hm c l r))"
proof (cases "find (\<lambda>h. (kh_left h, kh_right h) = (l, r)) (sc_initial c)")
  case (Some h)
  then have "h \<in> set (sc_initial c)" "kh_left h = l" "kh_right h = r"
    by (auto simp: find_Some_iff)
  then have "kh_result h = hm l r"
    using assms by (auto simp: simple_cache_ok_def known_ok_def)
  then show ?thesis
    using Some assms by (simp add: simple_hash_def simple_cache_ok_def Let_def)
next
  case None
  then show ?thesis
    using assms
    by (auto simp: simple_hash_def simple_cache_ok_def Let_def update_conv' split: option.splits)
qed

interpretation simple: hash_cache hm "simple_hash hm" "simple_cache_ok hm" for hm
  by unfold_locales (simp_all add: simple_hash_correct)

lemma simple_cache_new_ok [inv_intros]: "simple_cache_ok hm simple_cache_new"
  by (simp add: simple_cache_ok_def simple_cache_new_def)

lemma evict_ok [inv_intros]:
  "simple_cache_ok hm c \<Longrightarrow> simple_cache_ok hm (evict c l r)"
  by (auto simp: simple_cache_ok_def evict_def delete_conv' split: if_splits)

lemma evict_all_ok [inv_intros]: "simple_cache_ok hm c \<Longrightarrow> simple_cache_ok hm (evict_all c)"
  by (simp add: simple_cache_ok_def evict_all_def)

lemma provide_known_hashes_ok [inv_intros]:
  "simple_cache_ok hm c \<Longrightarrow> \<forall>h \<in> set hs. known_ok hm h \<Longrightarrow> provide_known_hashes c hs = Some c'
   \<Longrightarrow> simple_cache_ok hm c'"
  by (auto simp: simple_cache_ok_def provide_known_hashes_def split: if_splits)

text \<open>A use of the cache: hashes and evictions in any order, and the results of the hashes.\<close>

datatype cache_op = CacheHash element element | CacheEvict element element | CacheEvictAll

fun run_cache ::
  "(element \<Rightarrow> element \<Rightarrow> element) \<Rightarrow> simple_cache \<Rightarrow> cache_op list \<Rightarrow> element list \<times> simple_cache" where
  "run_cache hm c [] = ([], c)"
| "run_cache hm c (CacheHash l r # ops) =
     (let (h, c) = simple_hash hm c l r; (hs, c) = run_cache hm c ops in (h # hs, c))"
| "run_cache hm c (CacheEvict l r # ops) = run_cache hm (evict c l r) ops"
| "run_cache hm c (CacheEvictAll # ops) = run_cache hm (evict_all c) ops"

fun hashed_pairs :: "cache_op list \<Rightarrow> (element \<times> element) list" where
  "hashed_pairs [] = []"
| "hashed_pairs (CacheHash l r # ops) = (l, r) # hashed_pairs ops"
| "hashed_pairs (_ # ops) = hashed_pairs ops"

lemma simple_hash_metrics:
  "m_hashes (sc_metrics c) = m_cache_hits (sc_metrics c) + m_cache_misses (sc_metrics c)
   \<Longrightarrow> simple_hash hm c l r = (h, c')
   \<Longrightarrow> m_hashes (sc_metrics c') = m_cache_hits (sc_metrics c') + m_cache_misses (sc_metrics c')"
  by (auto simp: simple_hash_def Let_def incr_hashes_def incr_cache_hits_def incr_cache_misses_def
      split: option.splits)

lemma run_cache_ok:
  assumes "simple_cache_ok hm c"
    and "m_hashes (sc_metrics c) = m_cache_hits (sc_metrics c) + m_cache_misses (sc_metrics c)"
  shows "\<exists>c'. run_cache hm c ops = (map (\<lambda>(l, r). hm l r) (hashed_pairs ops), c')
           \<and> simple_cache_ok hm c'
           \<and> m_hashes (sc_metrics c') = m_cache_hits (sc_metrics c') + m_cache_misses (sc_metrics c')"
  using assms
proof (induction hm c ops rule: run_cache.induct)
  case (2 hm c l r ops)
  obtain c1 where c1: "simple_hash hm c l r = (hm l r, c1)" "simple_cache_ok hm c1"
    using simple.chash_cases[OF "2.prems"(1)] by blast
  from simple_hash_metrics[OF "2.prems"(2) c1(1)] show ?case
    using "2.IH"[OF c1(1)[symmetric] refl c1(2)] by (auto simp: c1(1))
next
  case (3 hm c l r ops)
  have "sc_metrics (evict c l r) = sc_metrics c" by (simp add: evict_def)
  then show ?case using 3 evict_ok by simp
next
  case (4 hm c ops)
  have "sc_metrics (evict_all c) = sc_metrics c" by (simp add: evict_all_def)
  then show ?case using 4 evict_all_ok by simp
qed simp

section \<open>Hashes of empty trees (hash.rs)\<close>

definition COMPUTE_DEPTH :: nat where "COMPUTE_DEPTH = 257"

text \<open>The loop of \<open>get_cache\<close>: each step pushes the hash of the last element with itself.\<close>

fun cache_loop :: "(element \<Rightarrow> element \<Rightarrow> element) \<Rightarrow> nat \<Rightarrow> element list \<Rightarrow> element list" where
  "cache_loop hm 0 vec = vec"
| "cache_loop hm (Suc n) vec = cache_loop hm n (vec @ [hm (last vec) (last vec)])"

definition get_cache :: "(element \<Rightarrow> element \<Rightarrow> element) \<Rightarrow> element list" where
  "get_cache hm = cache_loop hm (COMPUTE_DEPTH - 1) [NULL_HASH]"

fun fallback :: "(element \<Rightarrow> element \<Rightarrow> element) \<Rightarrow> nat \<Rightarrow> element option" where
  "fallback hm 0 = None"
| "fallback hm (Suc n) =
     (if Suc n \<le> COMPUTE_DEPTH then Some (get_cache hm ! n)
      else do { hash \<leftarrow> fallback hm n; Some (hm hash hash) })"

text \<open>\<open>None\<close>: the panic for depth 0.\<close>

definition empty_tree_hash :: "(element \<Rightarrow> element \<Rightarrow> element) \<Rightarrow> nat \<Rightarrow> element option" where
  "empty_tree_hash hm depth =
     (if depth = 0 then None
      else if depth - 1 < length (get_cache hm) then Some (get_cache hm ! (depth - 1))
      else fallback hm depth)"

text \<open>The recursive definition the documentation gives, counted from a single leaf.\<close>

fun empty_spec :: "(element \<Rightarrow> element \<Rightarrow> element) \<Rightarrow> nat \<Rightarrow> element" where
  "empty_spec hm 0 = NULL_HASH"
| "empty_spec hm (Suc n) = hm (empty_spec hm n) (empty_spec hm n)"

lemma cache_loop_spec:
  "vec = map (empty_spec hm) [0..<Suc m] \<Longrightarrow> cache_loop hm n vec = map (empty_spec hm) [0..<Suc m + n]"
proof (induction n arbitrary: m vec)
  case (Suc n)
  have "vec @ [hm (last vec) (last vec)] = map (empty_spec hm) [0..<Suc (Suc m)]"
    using Suc.prems by simp
  then show ?case using Suc.IH[of _ "Suc m"] by simp
qed simp

lemma get_cache_eq: "get_cache hm = map (empty_spec hm) [0..<COMPUTE_DEPTH]"
  using cache_loop_spec[of "[NULL_HASH]" hm 0 "COMPUTE_DEPTH - 1"]
  by (simp add: get_cache_def COMPUTE_DEPTH_def)

lemma fallback_eq: "fallback hm (Suc n) = Some (empty_spec hm n)"
  by (induction n) (auto simp: get_cache_eq COMPUTE_DEPTH_def Let_def nth_append)

lemma empty_tree_hash_Suc [simp]: "empty_tree_hash hm (Suc n) = Some (empty_spec hm n)"
  by (simp add: empty_tree_hash_def get_cache_eq fallback_eq del: fallback.simps)

lemma empty_tree_hash_0 [simp]: "empty_tree_hash hm 0 = None"
  by (simp add: empty_tree_hash_def)

end
