(* ===== verification/Smirk_Node.thy ===== *)
theory Smirk_Node
  imports Smirk_Cache "HOL-Library.List_Lexorder"
begin

text \<open>
  \<open>pkg/smirk/src/tree/tree_repr.rs\<close>, \<open>known_hashes.rs\<close> and the collision types of \<open>error.rs\<close>:
  the tree-like representation of a sparse Merkle tree, its in-place insertion without hashing,
  the recalculation of the dirty hashes, and the hypothetical root hash of \<open>hash_with\<close>.

  The abstract view of a node of height \<open>k\<close> is the function \<open>node_slot\<close> from the \<open>k\<close> left/right
  decisions to the element in that slot, and \<open>spec_root\<close> is the Merkle root of such a function.
  \<open>DEPTH\<close> is the argument \<open>N\<close>; a tree of depth \<open>N\<close> has paths of length \<open>N - 1\<close>.
\<close>

section \<open>Collisions (error.rs)\<close>

datatype struct_name = InBatch | InTree

record collision =
  col_in_tree :: element
  col_inserted :: element
  col_depth :: nat
  col_struct :: struct_name

section \<open>The node type and its operations (tree_repr.rs)\<close>

datatype node =
    Leaf element
  | Empty nat
  | Parent node node element bool

fun node_hash :: "(element \<Rightarrow> element \<Rightarrow> element) \<Rightarrow> node \<Rightarrow> element option" where
  "node_hash hm (Leaf hash) = Some hash"
| "node_hash hm (Parent left right hash hash_dirty) = Some hash"
| "node_hash hm (Empty depth) = empty_tree_hash hm depth"

text \<open>
  The recursions replace an \<open>Empty\<close> node by a parent of two smaller ones and start again, so what
  shrinks is twice the depth still to be split.
\<close>

fun node_measure :: "node \<Rightarrow> nat" where
  "node_measure (Leaf e) = 0"
| "node_measure (Empty d) = 2 * d"
| "node_measure (Parent l r h b) = Suc (max (node_measure l) (node_measure r))"

text \<open>
  The result of the two recursive insertions into a parent: the flag is recomputed, and the error
  of \<open>right?\<close> is returned before the one of \<open>left?\<close>.
\<close>

definition finish_parent ::
  "node \<Rightarrow> node \<Rightarrow> element \<Rightarrow> collision + bool \<Rightarrow> collision + bool \<Rightarrow> node \<times> (collision + bool)"
where
  "finish_parent l r hash left right =
     (let hash_dirty = (right = Inr True \<or> left = Inr True)
      in (Parent l r hash hash_dirty,
          case right of Inl c \<Rightarrow> Inl c
          | Inr _ \<Rightarrow> (case left of Inl c \<Rightarrow> Inl c | Inr _ \<Rightarrow> Inr hash_dirty)))"

text \<open>
  \<open>Node::insert_without_hashing\<close>: the node after the call and its result. \<open>None\<close> is a panic:
  \<open>unreachable!()\<close> at a leaf no element belongs to, an index past the end of the bits, the
  assertion that exactly one element reaches an empty leaf, an empty tree of depth 0. The closure
  of the error's \<open>find\<close> shadows the leaf, so it compares each element with itself.
\<close>

function node_insert ::
  "(element \<Rightarrow> element \<Rightarrow> element) \<Rightarrow> nat \<Rightarrow> node \<Rightarrow> element list \<Rightarrow> bool list list \<Rightarrow> nat
     \<Rightarrow> (node \<times> (collision + bool)) option"
where
  "node_insert hm N (Leaf e) elements bits path_depth =
     (if e \<in> set elements then Some (Leaf e, Inr False)
      else if \<exists>b \<in> set bits. b = lsb e (N - 1)
      then (case find (\<lambda>e. lsb e (N - 1) = lsb e (N - 1)) elements of
              None \<Rightarrow> None
            | Some x \<Rightarrow>
                Some (Leaf e, Inl \<lparr>col_in_tree = e, col_inserted = x, col_depth = N,
                                   col_struct = InTree\<rparr>))
      else None)"
| "node_insert hm N (Parent l r hash hash_dirty) elements bits path_depth =
     (if \<exists>b \<in> set bits. length b \<le> path_depth then None
      else
        (let rights_start = position_or_len (\<lambda>b. b ! path_depth) bits;
             lefts = take rights_start bits;
             rights = drop rights_start bits;
             lefts_elements = take rights_start elements;
             rights_elements = drop rights_start elements
         in case (lefts = [], rights = []) of
              (True, True) \<Rightarrow> Some (Parent l r hash hash_dirty, Inr False)
            | (False, True) \<Rightarrow> do {
                (l', left) \<leftarrow> node_insert hm N l lefts_elements lefts (path_depth + 1);
                Some (finish_parent l' r hash left (Inr False)) }
            | (True, False) \<Rightarrow> do {
                (r', right) \<leftarrow> node_insert hm N r rights_elements rights (path_depth + 1);
                Some (finish_parent l r' hash (Inr False) right) }
            | (False, False) \<Rightarrow> do {
                (r', left) \<leftarrow> node_insert hm N r rights_elements rights (path_depth + 1);
                (l', right) \<leftarrow> node_insert hm N l lefts_elements lefts (path_depth + 1);
                Some (finish_parent l' r' hash left right) }))"
| "node_insert hm N (Empty depth) elements bits path_depth =
     (if depth = 1
      then (case elements of [x] \<Rightarrow> Some (Leaf x, Inr True) | _ \<Rightarrow> None)
      else if depth = 0 then None
      else do {
        hash \<leftarrow> empty_tree_hash hm depth;
        node_insert hm N (Parent (Empty (depth - 1)) (Empty (depth - 1)) hash False)
          elements bits path_depth })"
  by pat_completeness auto
termination
  by (relation "measure (\<lambda>(hm, N, t, els, bits, pd). node_measure t)") auto

text \<open>What the two callbacks of \<open>recalculate_hashes\<close> are called with.\<close>

datatype hash_event = HashRemove element element | HashSet element element element

text \<open>
  \<open>Node::recalculate_hashes\<close>. \<open>rayon::join\<close> may run its two closures in any order; the model runs
  the left one first, which is one of the schedules.
\<close>

fun recalculate_hashes ::
  "(element \<Rightarrow> element \<Rightarrow> element) \<Rightarrow> ('c \<Rightarrow> element \<Rightarrow> element \<Rightarrow> element \<times> 'c) \<Rightarrow> 'c \<Rightarrow> node
     \<Rightarrow> (node \<times> 'c \<times> hash_event list) option"
where
  "recalculate_hashes hm chash c (Leaf e) = Some (Leaf e, c, [])"
| "recalculate_hashes hm chash c (Empty d) = Some (Empty d, c, [])"
| "recalculate_hashes hm chash c (Parent left right hash hash_dirty) =
     (if \<not> hash_dirty then Some (Parent left right hash hash_dirty, c, [])
      else do {
        left_hash_before \<leftarrow> node_hash hm left;
        right_hash_before \<leftarrow> node_hash hm right;
        (left', c, ev1) \<leftarrow> recalculate_hashes hm chash c left;
        (right', c, ev2) \<leftarrow> recalculate_hashes hm chash c right;
        left_hash \<leftarrow> node_hash hm left';
        right_hash \<leftarrow> node_hash hm right';
        let (hash', c) = chash c left_hash right_hash in
        Some (Parent left' right' hash' False, c,
              HashRemove left_hash_before right_hash_before # ev1 @ ev2
              @ [HashSet left_hash right_hash hash']) })"

text \<open>\<open>Node::hash_with_inner\<close>, with the cache it hashes through.\<close>

function hash_with_inner ::
  "(element \<Rightarrow> element \<Rightarrow> element) \<Rightarrow> ('c \<Rightarrow> element \<Rightarrow> element \<Rightarrow> element \<times> 'c) \<Rightarrow> 'c \<Rightarrow> node
     \<Rightarrow> element list \<Rightarrow> bool list list \<Rightarrow> nat \<Rightarrow> (element \<times> 'c) option"
where
  "hash_with_inner hm chash c (Leaf e) extra_elements bits path_depth = Some (e, c)"
| "hash_with_inner hm chash c (Parent left right hash hash_dirty) extra_elements bits path_depth =
     (if \<exists>b \<in> set bits. length b \<le> path_depth then None
      else
        (let right_start = position_or_len (\<lambda>b. b ! path_depth) bits;
             lefts = take right_start bits;
             lefts_elements = take right_start extra_elements;
             rights = drop right_start bits;
             rights_elements = drop right_start extra_elements
         in do {
           (left_hash, c) \<leftarrow>
             (case lefts = [] of
                True \<Rightarrow> do { h \<leftarrow> node_hash hm left; Some (h, c) }
              | False \<Rightarrow> hash_with_inner hm chash c left lefts_elements lefts (path_depth + 1));
           (right_hash, c) \<leftarrow>
             (case rights = [] of
                True \<Rightarrow> do { h \<leftarrow> node_hash hm right; Some (h, c) }
              | False \<Rightarrow> hash_with_inner hm chash c right rights_elements rights (path_depth + 1));
           Some (chash c left_hash right_hash) }))"
| "hash_with_inner hm chash c (Empty depth) extra_elements bits path_depth =
     (if depth = 1
      then (if length extra_elements \<le> 1
            then (case extra_elements of
                    [] \<Rightarrow> do { h \<leftarrow> empty_tree_hash hm 1; Some (h, c) }
                  | x # _ \<Rightarrow> Some (x, c))
            else None)
      else if depth = 0 then None
      else do {
        hash \<leftarrow> empty_tree_hash hm depth;
        hash_with_inner hm chash c (Parent (Empty (depth - 1)) (Empty (depth - 1)) hash False)
          extra_elements bits path_depth })"
  by pat_completeness auto
termination
  by (relation "measure (\<lambda>(hm, chash, c, t, els, bits, pd). node_measure t)") auto

declare node_insert.simps(3) [simp del] hash_with_inner.simps(3) [simp del]

text \<open>\<open>Node::hash_with\<close>: the extra elements are sorted by the bits of their slots.\<close>

definition hash_with ::
  "(element \<Rightarrow> element \<Rightarrow> element) \<Rightarrow> ('c \<Rightarrow> element \<Rightarrow> element \<Rightarrow> element \<times> 'c) \<Rightarrow> nat \<Rightarrow> 'c \<Rightarrow> node
     \<Rightarrow> element list \<Rightarrow> (element \<times> 'c) option"
where
  "hash_with hm chash N c t extra_elements =
     (let with_bits = map (\<lambda>e. (e, lsb e (N - 1))) extra_elements;
          sorted_bits = sort_key snd with_bits
      in hash_with_inner hm chash c t (map fst sorted_bits) (map snd sorted_bits) 0)"

text \<open>\<open>known_hashes\<close>: \<open>None\<close> is the assertion that no hash is dirty.\<close>

fun known_hashes_inner ::
  "(element \<Rightarrow> element \<Rightarrow> element) \<Rightarrow> node \<Rightarrow> known_hash list option" where
  "known_hashes_inner hm (Leaf e) = Some []"
| "known_hashes_inner hm (Empty d) = Some []"
| "known_hashes_inner hm (Parent left right hash hash_dirty) =
     (if hash_dirty then None
      else do {
        lh \<leftarrow> node_hash hm left;
        rh \<leftarrow> node_hash hm right;
        hl \<leftarrow> known_hashes_inner hm left;
        hr \<leftarrow> known_hashes_inner hm right;
        Some (\<lparr>kh_left = lh, kh_right = rh, kh_result = hash\<rparr> # hl @ hr) })"

section \<open>The abstract view\<close>

fun node_slot :: "node \<Rightarrow> bool list \<Rightarrow> element" where
  "node_slot (Leaf e) q = e"
| "node_slot (Empty d) q = NULL_HASH"
| "node_slot (Parent l r h d) q =
     (case q of [] \<Rightarrow> NULL_HASH | b # q' \<Rightarrow> node_slot (if b then r else l) q')"

fun spec_root :: "('a \<Rightarrow> 'a \<Rightarrow> 'a) \<Rightarrow> nat \<Rightarrow> (bool list \<Rightarrow> 'a) \<Rightarrow> 'a" where
  "spec_root hm 0 f = f []"
| "spec_root hm (Suc k) f =
     hm (spec_root hm k (\<lambda>q. f (False # q))) (spec_root hm k (\<lambda>q. f (True # q)))"

text \<open>A node of height \<open>k\<close>: leaves and empty trees at the right depth, no null leaf.\<close>

fun wf_node :: "nat \<Rightarrow> node \<Rightarrow> bool" where
  "wf_node k (Leaf e) \<longleftrightarrow> k = 0 \<and> e \<noteq> NULL_HASH"
| "wf_node k (Empty d) \<longleftrightarrow> d = Suc k"
| "wf_node k (Parent l r h d) \<longleftrightarrow> 0 < k \<and> wf_node (k - 1) l \<and> wf_node (k - 1) r"

text \<open>Every stored hash is the hash of what is below it, and nothing is dirty.\<close>

fun clean :: "(element \<Rightarrow> element \<Rightarrow> element) \<Rightarrow> nat \<Rightarrow> node \<Rightarrow> bool" where
  "clean hm k (Leaf e) = True"
| "clean hm k (Empty d) = True"
| "clean hm k (Parent l r h d) \<longleftrightarrow>
     \<not> d \<and> clean hm (k - 1) l \<and> clean hm (k - 1) r \<and> h = spec_root hm k (node_slot (Parent l r h d))"

text \<open>After an insertion without hashing: below a parent that is not dirty nothing changed.\<close>

fun fresh :: "(element \<Rightarrow> element \<Rightarrow> element) \<Rightarrow> nat \<Rightarrow> node \<Rightarrow> bool" where
  "fresh hm k (Leaf e) = True"
| "fresh hm k (Empty d) = True"
| "fresh hm k (Parent l r h d) \<longleftrightarrow>
     (if d then fresh hm (k - 1) l \<and> fresh hm (k - 1) r else clean hm k (Parent l r h d))"

lemma spec_root_cong:
  "(\<And>q. length q = k \<Longrightarrow> f q = g q) \<Longrightarrow> spec_root hm k f = spec_root hm k g"
proof (induction k arbitrary: f g)
  case (Suc k)
  have "spec_root hm k (\<lambda>q. f (b # q)) = spec_root hm k (\<lambda>q. g (b # q))" for b
    by (rule Suc.IH) (simp add: Suc.prems)
  then show ?case by simp
qed simp

lemma spec_root_null: "spec_root hm k (\<lambda>q. NULL_HASH) = empty_spec hm k"
  by (induction k) auto

lemma clean_fresh: "clean hm k t \<Longrightarrow> fresh hm k t"
  by (cases t) auto

lemma node_slot_Parent [simp]:
  "node_slot (Parent l r h d) (b # q) = node_slot (if b then r else l) q"
  by simp

lemma node_slot_Empty [simp]: "node_slot (Empty d) = (\<lambda>q. NULL_HASH)"
  by (simp add: fun_eq_iff)

lemma node_hash_clean:
  "wf_node k t \<Longrightarrow> clean hm k t \<Longrightarrow> node_hash hm t = Some (spec_root hm k (node_slot t))"
proof (cases t)
  case (Empty d)
  moreover assume "wf_node k t"
  ultimately show ?thesis by (simp add: spec_root_null)
qed auto

lemma spec_root_Parent:
  "0 < k \<Longrightarrow> spec_root hm k (node_slot (Parent l r h d))
   = hm (spec_root hm (k - 1) (node_slot l)) (spec_root hm (k - 1) (node_slot r))"
  by (cases k) auto

lemma node_hash_fresh_total: "wf_node k t \<Longrightarrow> \<exists>h. node_hash hm t = Some h"
  by (cases t) auto

section \<open>Splitting a sorted batch at a bit\<close>

text \<open>
  \<open>ready n pd els\<close>: the elements are sorted by their slots and share the first \<open>pd\<close> decisions, as
  they do when the recursion has taken those decisions.
\<close>

definition ready :: "nat \<Rightarrow> nat \<Rightarrow> element list \<Rightarrow> bool" where
  "ready n pd els \<longleftrightarrow>
     sorted (map (\<lambda>e. lsb e n) els)
     \<and> (\<forall>a \<in> set els. \<forall>b \<in> set els. take pd (lsb a n) = take pd (lsb b n))"

text \<open>The slots after writing the elements, seen from a node \<open>pd\<close> decisions down.\<close>

definition slot_upd ::
  "nat \<Rightarrow> nat \<Rightarrow> element list \<Rightarrow> (bool list \<Rightarrow> element) \<Rightarrow> bool list \<Rightarrow> element" where
  "slot_upd n pd els f q =
     (case find (\<lambda>e. drop pd (lsb e n) = q) els of None \<Rightarrow> f q | Some e \<Rightarrow> e)"

lemma slot_upd_Nil [simp]: "slot_upd n pd [] f = f"
  by (simp add: slot_upd_def fun_eq_iff)

lemma ready_prefix:
  "ready n pd els \<Longrightarrow> a \<in> set els \<Longrightarrow> b \<in> set els \<Longrightarrow> take pd (lsb a n) = take pd (lsb b n)"
  unfolding ready_def by blast

lemma lex_prefix_mono:
  "take i a = take i b \<Longrightarrow> a \<le> b \<Longrightarrow> length a = length b \<Longrightarrow> i < length a \<Longrightarrow> a ! i \<Longrightarrow> b ! i"
proof (induction i arbitrary: a b)
  case 0
  then show ?case by (cases a; cases b) auto
next
  case (Suc i)
  obtain x a' y b' where ab: "a = x # a'" "b = y # b'"
    using Suc.prems(3,4) by (cases a; cases b) auto
  have t: "take i a' = take i b'" and xy: "x = y" using Suc.prems(1) by (simp_all add: ab)
  from xy have le: "a' \<le> b'" using Suc.prems(2) by (simp add: ab)
  have "length a' = length b'" "i < length a'" "a' ! i"
    using Suc.prems(3-5) by (simp_all add: ab)
  with t le have "b' ! i" by (rule Suc.IH)
  then show ?case by (simp add: ab)
qed

lemma ready_sorted_wrt:
  assumes "ready n pd els" "pd < n" "n \<le> 256"
  shows "sorted_wrt (\<lambda>a b. lsb a n ! pd \<longrightarrow> lsb b n ! pd) els"
proof -
  have "sorted_wrt (\<lambda>a b. lsb a n \<le> lsb b n) els"
    using assms(1) by (simp add: ready_def sorted_wrt_map)
  then show ?thesis
  proof (rule sorted_wrt_mono_rel[rotated])
    fix a b assume ab: "a \<in> set els" "b \<in> set els" "lsb a n \<le> lsb b n"
    have "take pd (lsb a n) = take pd (lsb b n)"
      by (rule ready_prefix[OF assms(1) ab(1,2)])
    from lex_prefix_mono[OF this ab(3)] show "lsb a n ! pd \<longrightarrow> lsb b n ! pd"
      using assms(2,3) by simp
  qed
qed

lemma ready_split:
  assumes "ready n pd els" "pd < n" "n \<le> 256"
  defines "k \<equiv> position_or_len (\<lambda>b. b ! pd) (map (\<lambda>e. lsb e n) els)"
  shows "take k els = filter (\<lambda>e. lsb e n ! pd = False) els"
    and "drop k els = filter (\<lambda>e. lsb e n ! pd = True) els"
  using ready_sorted_wrt[OF assms(1-3)]
  by (simp_all add: k_def position_or_len_map comp_def take_position drop_position
      takeWhile_eq_filter_mono dropWhile_eq_filter_mono)

lemma take_Suc_eqI:
  "take pd a = take pd b \<Longrightarrow> a ! pd = b ! pd \<Longrightarrow> pd < length a \<Longrightarrow> pd < length b
   \<Longrightarrow> take (Suc pd) a = take (Suc pd) b"
  by (simp add: take_Suc_conv_app_nth)

lemma ready_filter:
  assumes "ready n pd els" "pd < n" "n \<le> 256"
  shows "ready n (Suc pd) (filter (\<lambda>e. lsb e n ! pd = b) els)"
  unfolding ready_def
proof (intro conjI ballI)
  show "sorted (map (\<lambda>e. lsb e n) (filter (\<lambda>e. lsb e n ! pd = b) els))"
    using assms(1) by (simp add: ready_def sorted_wrt_map sorted_wrt_filter)
next
  fix x y assume "x \<in> set (filter (\<lambda>e. lsb e n ! pd = b) els)" "y \<in> set (filter (\<lambda>e. lsb e n ! pd = b) els)"
  then have xy: "x \<in> set els" "y \<in> set els" "lsb x n ! pd = b" "lsb y n ! pd = b" by auto
  have "take pd (lsb x n) = take pd (lsb y n)"
    by (rule ready_prefix[OF assms(1) xy(1,2)])
  then show "take (Suc pd) (lsb x n) = take (Suc pd) (lsb y n)"
    using xy(3,4) assms(2,3) by (intro take_Suc_eqI) simp_all
qed

lemma drop_lsb: "pd < n \<Longrightarrow> n \<le> 256 \<Longrightarrow> drop pd (lsb e n) = lsb e n ! pd # drop (Suc pd) (lsb e n)"
  by (simp add: Cons_nth_drop_Suc)

lemma slot_upd_Cons:
  assumes "pd < n" "n \<le> 256"
  shows "slot_upd n pd els f (b # q)
         = slot_upd n (Suc pd) (filter (\<lambda>e. lsb e n ! pd = b) els) (\<lambda>q. f (b # q)) q"
  by (simp add: slot_upd_def find_filter drop_lsb[OF assms])

text \<open>The bits handed to the children are those of the elements handed to them.\<close>

lemmas split_simps = ready_split ready_filter take_map drop_map

section \<open>Insertion without hashing\<close>

text \<open>What an insertion of \<open>els\<close> at a node has to establish.\<close>

definition inserted ::
  "(element \<Rightarrow> element \<Rightarrow> element) \<Rightarrow> nat \<Rightarrow> nat \<Rightarrow> nat \<Rightarrow> node \<Rightarrow> element list \<Rightarrow> node \<Rightarrow> bool" where
  "inserted hm n k pd t els t' \<longleftrightarrow>
     wf_node k t' \<and> fresh hm k t'
     \<and> (\<forall>q. length q = k \<longrightarrow> node_slot t' q = slot_upd n pd els (node_slot t) q)"

text \<open>The elements can go into the node: none is null and all their slots are free.\<close>

definition insertable :: "nat \<Rightarrow> nat \<Rightarrow> node \<Rightarrow> element list \<Rightarrow> bool" where
  "insertable n pd t els \<longleftrightarrow>
     ready n pd els \<and> distinct (map (\<lambda>e. lsb e n) els)
     \<and> (\<forall>e \<in> set els. e \<noteq> NULL_HASH \<and> node_slot t (drop pd (lsb e n)) = NULL_HASH)"

text \<open>At the bottom, the elements with one slot are one element.\<close>

lemma insertable_bottom:
  assumes "insertable n n t (e # es)" "n \<le> 256"
  shows "es = []"
proof (rule ccontr)
  assume "es \<noteq> []"
  then obtain x where x: "x \<in> set es" by (cases es) auto
  have "ready n n (e # es)" using assms(1) by (simp add: insertable_def)
  then have "take n (lsb x n) = take n (lsb e n)"
    by (rule ready_prefix) (simp_all add: x)
  moreover have "lsb e n \<notin> (\<lambda>e. lsb e n) ` set es"
    using assms(1) by (simp add: insertable_def)
  moreover have "lsb x n \<in> (\<lambda>e. lsb e n) ` set es" using x by (rule imageI)
  ultimately show False using assms(2) by simp
qed

lemma inserted_refl: "wf_node k t \<Longrightarrow> clean hm k t \<Longrightarrow> inserted hm n k pd t [] t"
  by (simp add: inserted_def clean_fresh)

lemma insertable_child:
  assumes "insertable n pd (Parent l r h d) els" "pd < n" "n \<le> 256"
  shows "insertable n (Suc pd) (if b then r else l) (filter (\<lambda>e. lsb e n ! pd = b) els)"
  unfolding insertable_def
proof (intro conjI ballI)
  show "ready n (Suc pd) (filter (\<lambda>e. lsb e n ! pd = b) els)"
    using assms by (auto simp: insertable_def intro: ready_filter)
  show "distinct (map (\<lambda>e. lsb e n) (filter (\<lambda>e. lsb e n ! pd = b) els))"
    using assms by (simp add: insertable_def distinct_map_filter)
next
  fix e assume e: "e \<in> set (filter (\<lambda>e. lsb e n ! pd = b) els)"
  then show "e \<noteq> NULL_HASH" using assms by (auto simp: insertable_def)
  have "node_slot (Parent l r h d) (drop pd (lsb e n)) = NULL_HASH"
    using e assms by (auto simp: insertable_def)
  then show "node_slot (if b then r else l) (drop (Suc pd) (lsb e n)) = NULL_HASH"
    using e assms(2,3) by (simp add: drop_lsb)
qed

lemma inserted_Parent:
  assumes "inserted hm n k (Suc pd) l (filter (\<lambda>e. lsb e n ! pd = False) els) l'"
    and "inserted hm n k (Suc pd) r (filter (\<lambda>e. lsb e n ! pd = True) els) r'"
    and "pd < n" "n \<le> 256"
  shows "inserted hm n (Suc k) pd (Parent l r h d) els (Parent l' r' h True)"
proof -
  have "node_slot (Parent l' r' h True) q = slot_upd n pd els (node_slot (Parent l r h d)) q"
    if len: "length q = Suc k" for q
  proof -
    obtain b q' where q: "q = b # q'" "length q' = k"
      using len by (auto simp: length_Suc_conv)
    have "node_slot (if b then r' else l') q'
          = slot_upd n (Suc pd) (filter (\<lambda>e. lsb e n ! pd = b) els) (node_slot (if b then r else l)) q'"
    proof (cases b)
      case True
      have "\<forall>q. length q = k \<longrightarrow> node_slot r' q
          = slot_upd n (Suc pd) (filter (\<lambda>e. lsb e n ! pd = True) els) (node_slot r) q"
        using assms(2) unfolding inserted_def by blast
      from this[rule_format, OF q(2)] True show ?thesis by simp
    next
      case False
      have "\<forall>q. length q = k \<longrightarrow> node_slot l' q
          = slot_upd n (Suc pd) (filter (\<lambda>e. lsb e n ! pd = False) els) (node_slot l) q"
        using assms(1) unfolding inserted_def by blast
      from this[rule_format, OF q(2)] False show ?thesis by simp
    qed
    then show ?thesis unfolding q(1) slot_upd_Cons[OF assms(3,4)] node_slot_Parent .
  qed
  then show ?thesis using assms(1,2) by (simp add: inserted_def)
qed

lemma node_insert_correct:
  assumes "wf_node k t" "clean hm k t" "insertable n pd t els" "els \<noteq> []"
    and "pd + k = n" "n \<le> 256"
  shows "\<exists>t'. node_insert hm (Suc n) t els (map (\<lambda>e. lsb e n) els) pd = Some (t', Inr True)
            \<and> inserted hm n k pd t els t'"
  using assms
proof (induction k arbitrary: t els pd)
  case 0
  then have pd: "pd = n" by simp
  obtain e es where els: "els = e # es" using "0.prems"(4) by (cases els) auto
  have free: "node_slot t [] = NULL_HASH" and e: "e \<noteq> NULL_HASH"
    using "0.prems"(3,6) by (auto simp: insertable_def els pd)
  have "es = []"
    by (rule insertable_bottom[OF "0.prems"(3)[unfolded pd els] "0.prems"(6)])
  moreover obtain d where t: "t = Empty (Suc 0)"
    using "0.prems"(1) free by (cases t) auto
  ultimately show ?case
    using e "0.prems"(6)
    by (auto simp: els node_insert.simps(3) inserted_def slot_upd_def pd)
next
  case (Suc k)
  have pd: "pd < n" using Suc.prems(5) by simp
  let ?key = "\<lambda>e. lsb e n"
  let ?sub = "\<lambda>b. filter (\<lambda>e. lsb e n ! pd = b) els"
  have parent: "\<exists>t'. node_insert hm (Suc n) (Parent l r h d) els (map ?key els) pd = Some (t', Inr True)
            \<and> inserted hm n (Suc k) pd (Parent l r h d) els t'"
    if wf: "wf_node k l" "wf_node k r" "clean hm k l" "clean hm k r"
      and ins: "insertable n pd (Parent l r h d) els" for l r h d
  proof -
    have il: "insertable n (Suc pd) l (?sub False)" and ir: "insertable n (Suc pd) r (?sub True)"
      using insertable_child[OF ins pd Suc.prems(6), of False]
        insertable_child[OF ins pd Suc.prems(6), of True] by simp_all
    have rdy: "ready n pd els" using ins by (simp add: insertable_def)
    note sp = ready_split[OF rdy pd Suc.prems(6)]
    have ih: "\<exists>c'. node_insert hm (Suc n) c (?sub b) (map ?key (?sub b)) (pd + 1) = Some (c', Inr True)
            \<and> inserted hm n k (Suc pd) c (?sub b) c'"
      if "wf_node k c" "clean hm k c" "insertable n (Suc pd) c (?sub b)" "?sub b \<noteq> []" for c b
      using Suc.IH[OF that] Suc.prems(5,6) by simp
    have len: "\<not> (\<exists>b \<in> set (map ?key els). length b \<le> pd)" using pd Suc.prems(6) by auto
    note step = node_insert.simps(2)[of hm "Suc n" l r h d els "map ?key els" pd, unfolded if_not_P[OF len],
        unfolded Let_def take_map drop_map sp map_is_Nil_conv]
    note join = inserted_Parent[OF _ _ pd Suc.prems(6)]
    have ne: "?sub False \<noteq> [] \<or> ?sub True \<noteq> []"
      using Suc.prems(4) by (cases els) auto
    show ?thesis
    proof (cases "?sub False = []"; cases "?sub True = []")
      assume "?sub False = []" "?sub True = []"
      with ne show ?thesis by blast
    next
      assume e: "?sub False = []" "?sub True \<noteq> []"
      obtain r' where r': "node_insert hm (Suc n) r (?sub True) (map ?key (?sub True)) (pd + 1)
          = Some (r', Inr True)" "inserted hm n k (Suc pd) r (?sub True) r'"
        using ih[OF wf(2,4) ir e(2)] by blast
      have "inserted hm n (Suc k) pd (Parent l r h d) els (Parent l r' h True)"
        by (rule join[OF _ r'(2)]) (simp only: e inserted_refl[OF wf(1,3)])
      then show ?thesis using e(2) r'(1) unfolding step e(1) by (simp add: finish_parent_def)
    next
      assume e: "?sub False \<noteq> []" "?sub True = []"
      obtain l' where l': "node_insert hm (Suc n) l (?sub False) (map ?key (?sub False)) (pd + 1)
          = Some (l', Inr True)" "inserted hm n k (Suc pd) l (?sub False) l'"
        using ih[OF wf(1,3) il e(1)] by blast
      have "inserted hm n (Suc k) pd (Parent l r h d) els (Parent l' r h True)"
        by (rule join[OF l'(2)]) (simp only: e inserted_refl[OF wf(2,4)])
      then show ?thesis using e(1) l'(1) unfolding step e(2) by (simp add: finish_parent_def)
    next
      assume e: "?sub False \<noteq> []" "?sub True \<noteq> []"
      obtain l' where l': "node_insert hm (Suc n) l (?sub False) (map ?key (?sub False)) (pd + 1)
          = Some (l', Inr True)" "inserted hm n k (Suc pd) l (?sub False) l'"
        using ih[OF wf(1,3) il e(1)] by blast
      obtain r' where r': "node_insert hm (Suc n) r (?sub True) (map ?key (?sub True)) (pd + 1)
          = Some (r', Inr True)" "inserted hm n k (Suc pd) r (?sub True) r'"
        using ih[OF wf(2,4) ir e(2)] by blast
      have "inserted hm n (Suc k) pd (Parent l r h d) els (Parent l' r' h True)"
        by (rule join[OF l'(2) r'(2)])
      then show ?thesis using e l'(1) r'(1) unfolding step by (simp add: finish_parent_def)
    qed
  qed
  show ?case
  proof (cases t)
    case (Leaf e)
    with Suc.prems(1) show ?thesis by simp
  next
    case (Parent l r h d)
    with Suc.prems parent[of l r h d] show ?thesis by simp
  next
    case (Empty d)
    with Suc.prems(1) have d: "d = Suc (Suc k)" by simp
    have "insertable n pd (Parent (Empty (Suc k)) (Empty (Suc k)) (empty_spec hm (Suc k)) False) els"
      using Suc.prems(3) pd Suc.prems(6) by (simp add: insertable_def Empty drop_lsb)
    then obtain t' where t': "node_insert hm (Suc n)
        (Parent (Empty (Suc k)) (Empty (Suc k)) (empty_spec hm (Suc k)) False) els (map ?key els) pd
          = Some (t', Inr True)"
      "inserted hm n (Suc k) pd (Parent (Empty (Suc k)) (Empty (Suc k)) (empty_spec hm (Suc k)) False) els t'"
      using parent[of "Empty (Suc k)" "Empty (Suc k)"] by auto
    have "node_slot (Parent (Empty (Suc k)) (Empty (Suc k)) h' False) = node_slot (Empty d)" for h'
      by (auto simp: fun_eq_iff split: list.splits)
    moreover have "node_insert hm (Suc n) (Empty d) els (map ?key els) pd
        = node_insert hm (Suc n)
            (Parent (Empty (Suc k)) (Empty (Suc k)) (empty_spec hm (Suc k)) False) els (map ?key els) pd"
      by (subst node_insert.simps(3)) (simp add: d del: node_insert.simps(1,2) empty_spec.simps)
    ultimately show ?thesis
      using t' unfolding Empty inserted_def by (simp only:) blast
  qed
qed

end
