(* ===== verification/Smirk_Hashing.thy ===== *)
theory Smirk_Hashing
  imports Smirk_Node
begin

text \<open>
  What the hashing operations of \<open>tree_repr.rs\<close> compute, through any hash cache that keeps its
  contract: \<open>recalculate_hashes\<close> makes every stored hash the Merkle root of what is below it and
  changes no slot, \<open>hash_with_inner\<close> is the Merkle root the tree would have after an insertion, and
  the known hashes of a clean tree are hashes.
\<close>

context hash_cache begin

lemma recalculate_correct:
  assumes "wf_node k t" "fresh hm k t" "cinv c"
  shows "\<exists>t' c' ev. recalculate_hashes hm chash c t = Some (t', c', ev)
           \<and> wf_node k t' \<and> clean hm k t' \<and> node_slot t' = node_slot t \<and> cinv c'"
  using assms
proof (induction t arbitrary: k c)
  case (Parent l r h d)
  show ?case
  proof (cases d)
    case False
    with Parent.prems show ?thesis by (intro exI[of _ "Parent l r h d"]) simp
  next
    case True
    then obtain j where k: "k = Suc j" and wf: "wf_node j l" "wf_node j r"
      and fr: "fresh hm j l" "fresh hm j r"
      using Parent.prems(1,2) by (cases k) auto
    obtain hl hr where before: "node_hash hm l = Some hl" "node_hash hm r = Some hr"
      using node_hash_fresh_total wf by blast
    obtain l' c1 ev1 where l': "recalculate_hashes hm chash c l = Some (l', c1, ev1)"
      "wf_node j l'" "clean hm j l'" "node_slot l' = node_slot l" "cinv c1"
      using Parent.IH(1)[OF wf(1) fr(1) Parent.prems(3)] by blast
    obtain r' c2 ev2 where r': "recalculate_hashes hm chash c1 r = Some (r', c2, ev2)"
      "wf_node j r'" "clean hm j r'" "node_slot r' = node_slot r" "cinv c2"
      using Parent.IH(2)[OF wf(2) fr(2) l'(5)] by blast
    obtain c3 where c3: "chash c2 (spec_root hm j (node_slot l')) (spec_root hm j (node_slot r'))
        = (hm (spec_root hm j (node_slot l')) (spec_root hm j (node_slot r')), c3)" "cinv c3"
      using chash_cases[OF r'(5)] by blast
    have "node_slot (Parent l' r' h'' False) = node_slot (Parent l r h d)" for h''
      using l'(4) r'(4) by (auto simp: fun_eq_iff split: list.splits)
    then show ?thesis
      using True k l' r' before c3 node_hash_clean[OF l'(2,3)] node_hash_clean[OF r'(2,3)]
      by (simp add: spec_root_Parent del: node_slot.simps)
  qed
qed auto

text \<open>A child that gets no extra element contributes the hash it stores.\<close>

lemma hash_side:
  assumes "wf_node k t" "clean hm k t" "cinv c"
    and "els \<noteq> [] \<Longrightarrow> \<exists>c'. go = Some (spec_root hm k (slot_upd n pd els (node_slot t)), c') \<and> cinv c'"
  shows "\<exists>c'. (case els = [] of True \<Rightarrow> do { h \<leftarrow> node_hash hm t; Some (h, c) } | False \<Rightarrow> go)
           = Some (spec_root hm k (slot_upd n pd els (node_slot t)), c') \<and> cinv c'"
  using assms by (cases "els = []") (simp_all add: node_hash_clean)

lemma hash_with_inner_correct:
  assumes "wf_node k t" "clean hm k t" "insertable n pd t els" "pd + k = n" "n \<le> 256" "cinv c"
  shows "\<exists>c'. hash_with_inner hm chash c t els (map (\<lambda>e. lsb e n) els) pd
            = Some (spec_root hm k (slot_upd n pd els (node_slot t)), c') \<and> cinv c'"
  using assms
proof (induction k arbitrary: t els pd c)
  case 0
  then have pd: "pd = n" by simp
  show ?case
  proof (cases els)
    case Nil
    then show ?thesis using "0.prems"(1,6)
      by (cases t) (auto simp: hash_with_inner.simps(3) spec_root_null[of hm 0, simplified])
  next
    case (Cons e es)
    have "t = Empty (Suc 0)"
      using "0.prems"(1,3,5) by (cases t) (auto simp: insertable_def Cons pd)
    moreover have "es = []"
      by (rule insertable_bottom[OF "0.prems"(3)[unfolded pd Cons] "0.prems"(5)])
    ultimately show ?thesis
      using "0.prems"(5,6) by (auto simp: Cons hash_with_inner.simps(3) slot_upd_def pd)
  qed
next
  case (Suc k)
  have pd: "pd < n" using Suc.prems(4) by simp
  let ?key = "\<lambda>e. lsb e n"
  let ?sub = "\<lambda>b. filter (\<lambda>e. lsb e n ! pd = b) els"
  have parent: "\<exists>c'. hash_with_inner hm chash c (Parent l r h d) els (map ?key els) pd
        = Some (spec_root hm (Suc k) (slot_upd n pd els (node_slot (Parent l r h d))), c') \<and> cinv c'"
    if wf: "wf_node k l" "wf_node k r" "clean hm k l" "clean hm k r"
      and ins: "insertable n pd (Parent l r h d) els" for l r h d
  proof -
    have rdy: "ready n pd els" using ins by (simp add: insertable_def)
    note sp = ready_split[OF rdy pd Suc.prems(5)]
    have len: "\<not> (\<exists>b \<in> set (map ?key els). length b \<le> pd)" using pd Suc.prems(5) by auto
    have side: "\<exists>c'. (case map ?key (?sub b) = [] of True \<Rightarrow> do { h \<leftarrow> node_hash hm t; Some (h, c) }
          | False \<Rightarrow> hash_with_inner hm chash c t (?sub b) (map ?key (?sub b)) (pd + 1))
        = Some (spec_root hm k (slot_upd n (Suc pd) (?sub b) (node_slot t)), c') \<and> cinv c'"
      if "t = (if b then r else l)" "cinv c" for b t c
    proof -
      have t: "wf_node k t" "clean hm k t" "insertable n (Suc pd) t (?sub b)"
        using wf that(1) insertable_child[OF ins pd Suc.prems(5), of b] by simp_all
      show ?thesis
        unfolding map_is_Nil_conv Suc_eq_plus1[symmetric]
        by (rule hash_side[OF t(1,2) that(2)])
          (rule Suc.IH[OF t _ Suc.prems(5) that(2)], use Suc.prems(4) in simp)
    qed
    obtain c1 where l: "(case map ?key (?sub False) = [] of
          True \<Rightarrow> do { h \<leftarrow> node_hash hm l; Some (h, c) }
        | False \<Rightarrow> hash_with_inner hm chash c l (?sub False) (map ?key (?sub False)) (pd + 1))
        = Some (spec_root hm k (slot_upd n (Suc pd) (?sub False) (node_slot l)), c1)" "cinv c1"
      using side[of l False c] Suc.prems(6) by auto
    obtain c2 where r: "(case map ?key (?sub True) = [] of
          True \<Rightarrow> do { h \<leftarrow> node_hash hm r; Some (h, c1) }
        | False \<Rightarrow> hash_with_inner hm chash c1 r (?sub True) (map ?key (?sub True)) (pd + 1))
        = Some (spec_root hm k (slot_upd n (Suc pd) (?sub True) (node_slot r)), c2)" "cinv c2"
      using side[of r True c1] l(2) by auto
    note step = hash_with_inner.simps(2)[of hm chash c l r h d els "map ?key els" pd,
        unfolded if_not_P[OF len], unfolded Let_def take_map drop_map sp]
    have root: "spec_root hm (Suc k) (slot_upd n pd els (node_slot (Parent l r h d)))
        = hm (spec_root hm k (slot_upd n (Suc pd) (?sub False) (node_slot l)))
             (spec_root hm k (slot_upd n (Suc pd) (?sub True) (node_slot r)))"
      by (simp only: spec_root.simps slot_upd_Cons[OF pd Suc.prems(5)] node_slot_Parent if_False if_True)
    obtain c3 where c3: "chash c2 (spec_root hm k (slot_upd n (Suc pd) (?sub False) (node_slot l)))
             (spec_root hm k (slot_upd n (Suc pd) (?sub True) (node_slot r)))
        = (spec_root hm (Suc k) (slot_upd n pd els (node_slot (Parent l r h d))), c3)" "cinv c3"
      unfolding root by (rule chash_cases[OF r(2)])
    show ?thesis
      unfolding step by (simp only: l(1) r(1) c3(1) Option.bind_lunit prod.case) (use c3(2) in blast)
  qed
  show ?case
  proof (cases t)
    case (Leaf e)
    with Suc.prems(1) show ?thesis by simp
  next
    case (Parent l r h d)
    have "wf_node k l" "wf_node k r" "clean hm k l" "clean hm k r"
      using Suc.prems(1,2) by (simp_all add: Parent)
    then show ?thesis
      using Suc.prems(3) unfolding Parent by (rule parent)
  next
    case (Empty d)
    with Suc.prems(1) have d: "d = Suc (Suc k)" by simp
    let ?P = "Parent (Empty (Suc k)) (Empty (Suc k)) (empty_spec hm (Suc k)) False"
    have slot: "node_slot ?P q = node_slot (Empty d) q" for q by (cases q) simp_all
    then have "insertable n pd ?P els"
      using Suc.prems(3) unfolding insertable_def Empty by simp
    then have "\<exists>c'. hash_with_inner hm chash c ?P els (map ?key els) pd
        = Some (spec_root hm (Suc k) (slot_upd n pd els (node_slot ?P)), c') \<and> cinv c'"
      by (intro parent) simp_all
    moreover have "node_slot ?P = node_slot (Empty d)" using slot by (rule ext)
    moreover have "hash_with_inner hm chash c (Empty d) els (map ?key els) pd
        = hash_with_inner hm chash c ?P els (map ?key els) pd"
      by (subst hash_with_inner.simps(3)) (simp add: d del: hash_with_inner.simps(1,2) empty_spec.simps)
    ultimately show ?thesis unfolding Empty by simp
  qed
qed

end

lemma known_hashes_correct:
  assumes "wf_node k t" "clean hm k t"
  shows "\<exists>hs. known_hashes_inner hm t = Some hs \<and> (\<forall>h \<in> set hs. known_ok hm h)"
  using assms
proof (induction t arbitrary: k)
  case (Parent l r h d)
  then obtain j where k: "k = Suc j" "wf_node j l" "wf_node j r" "clean hm j l" "clean hm j r"
    "\<not> d" "h = spec_root hm k (node_slot (Parent l r h d))"
    by (cases k) auto
  obtain hl hr where "known_hashes_inner hm l = Some hl" "\<forall>h \<in> set hl. known_ok hm h"
    "known_hashes_inner hm r = Some hr" "\<forall>h \<in> set hr. known_ok hm h"
    using Parent.IH(1)[OF k(2,4)] Parent.IH(2)[OF k(3,5)] by blast
  moreover have "h = hm (spec_root hm j (node_slot l)) (spec_root hm j (node_slot r))"
    using k(7) spec_root_Parent[of k hm l r h d] by (simp add: k(1))
  ultimately show ?case
    using k(6) node_hash_clean[OF k(2,4)] node_hash_clean[OF k(3,5)]
    by (auto simp: known_ok_def simp del: node_slot.simps)
qed auto

end
