(* ===== verification/Smirk_Batch.thy ===== *)
theory Smirk_Batch
  imports Smirk_Node
begin

text \<open>
  \<open>pkg/smirk/src/batch\<close>: a batch of entries none of whose slots collide. The \<open>HashSet\<close> of the slots
  is a distinct list, in one of the orders its iteration may have.
\<close>

record 'v batch =
  b_entries :: "(element \<times> 'v) list"
  b_lsbs :: "bool list list"

definition batch_new :: "'v batch" where
  "batch_new = \<lparr>b_entries = [], b_lsbs = []\<rparr>"

definition batch_is_empty :: "'v batch \<Rightarrow> bool" where
  "batch_is_empty b \<longleftrightarrow> b_entries b = []"

definition batch_elements :: "'v batch \<Rightarrow> element list" where
  "batch_elements b = map fst (b_entries b)"

definition batch_values :: "'v batch \<Rightarrow> 'v list" where
  "batch_values b = map snd (b_entries b)"

definition find_element_with_lsb :: "nat \<Rightarrow> 'v batch \<Rightarrow> bool list \<Rightarrow> element option" where
  "find_element_with_lsb N b l = find (\<lambda>e. lsb e (N - 1) = l) (batch_elements b)"

text \<open>\<open>Batch::insert\<close>: an error leaves the batch as it was; \<open>None\<close> is the panic of \<open>unwrap\<close>.\<close>

definition batch_insert ::
  "nat \<Rightarrow> 'v batch \<Rightarrow> element \<Rightarrow> 'v \<Rightarrow> (collision list + 'v batch) option" where
  "batch_insert N b element value =
     (let l = lsb element (N - 1)
      in if l \<in> set (b_lsbs b)
         then do {
           in_tree \<leftarrow> find_element_with_lsb N b (lsb element (N - 1));
           Some (Inl [\<lparr>col_in_tree = in_tree, col_inserted = element, col_depth = N,
                       col_struct = InBatch\<rparr>]) }
         else Some (Inr (b\<lparr>b_lsbs := b_lsbs b @ [l],
                           b_entries := b_entries b @ [(element, value)]\<rparr>)))"

fun insert_entries ::
  "nat \<Rightarrow> 'v batch \<Rightarrow> (element \<times> 'v) list \<Rightarrow> (collision list + 'v batch) option" where
  "insert_entries N b [] = Some (Inr b)"
| "insert_entries N b ((element, value) # entries) = do {
     r \<leftarrow> batch_insert N b element value;
     (case r of Inl e \<Rightarrow> Some (Inl e) | Inr b \<Rightarrow> insert_entries N b entries) }"

definition batch_from_entries ::
  "nat \<Rightarrow> (element \<times> 'v) list \<Rightarrow> (collision list + 'v batch) option" where
  "batch_from_entries N entries = insert_entries N batch_new entries"

definition batch_from_elements ::
  "nat \<Rightarrow> 'v \<Rightarrow> element list \<Rightarrow> (collision list + 'v batch) option" where
  "batch_from_elements N dflt entries = batch_from_entries N (map (\<lambda>e. (e, dflt)) entries)"

text \<open>The collision built for each slot the two batches share.\<close>

definition merge_collision ::
  "nat \<Rightarrow> 'v batch \<Rightarrow> 'v batch \<Rightarrow> bool list \<Rightarrow> collision option" where
  "merge_collision N b other l = do {
     element_in_self \<leftarrow> find_element_with_lsb N b l;
     element_in_other \<leftarrow> find_element_with_lsb N other l;
     Some \<lparr>col_in_tree = element_in_self, col_inserted = element_in_other, col_depth = N,
           col_struct = InBatch\<rparr> }"

definition batch_merge ::
  "nat \<Rightarrow> 'v batch \<Rightarrow> 'v batch \<Rightarrow> (collision list + 'v batch) option" where
  "batch_merge N b other =
     (let colliding = filter (\<lambda>l. l \<in> set (b_lsbs other)) (b_lsbs b)
      in if colliding \<noteq> []
         then (let cs = map (merge_collision N b other) colliding
               in if None \<in> set cs then None else Some (Inl (map the cs)))
         else Some (Inr \<lparr>b_entries = b_entries b @ b_entries other,
                         b_lsbs = b_lsbs b @ b_lsbs other\<rparr>))"

text \<open>\<open>batch! { e => v }\<close>: an insertion into a new batch, unwrapped.\<close>

definition batch_single :: "nat \<Rightarrow> element \<Rightarrow> 'v \<Rightarrow> 'v batch option" where
  "batch_single N element value = do {
     r \<leftarrow> batch_insert N batch_new element value;
     (case r of Inl _ \<Rightarrow> None | Inr b \<Rightarrow> Some b) }"

section \<open>The invariant\<close>

definition batch_ok :: "nat \<Rightarrow> 'v batch \<Rightarrow> bool" where
  "batch_ok N b \<longleftrightarrow>
     set (b_lsbs b) = (\<lambda>e. lsb e (N - 1)) ` set (batch_elements b)
     \<and> distinct (b_lsbs b)
     \<and> distinct (map (\<lambda>e. lsb e (N - 1)) (batch_elements b))"

lemma find_element_ok:
  assumes "batch_ok N b" "l \<in> set (b_lsbs b)"
  obtains e where "find_element_with_lsb N b l = Some e" "e \<in> set (batch_elements b)" "lsb e (N - 1) = l"
proof (cases "find_element_with_lsb N b l")
  case None
  then show thesis using assms by (auto simp: find_element_with_lsb_def find_None_iff batch_ok_def)
next
  case (Some e)
  then show thesis
    using that find_SomeD[OF Some[unfolded find_element_with_lsb_def]] by blast
qed

lemma batch_new_ok [simp, inv_intros]: "batch_ok N batch_new"
  by (simp add: batch_ok_def batch_new_def batch_elements_def)

lemma batch_insert_ok [inv_intros]:
  "batch_ok N b \<Longrightarrow> batch_insert N b e v = Some (Inr b') \<Longrightarrow> batch_ok N b'"
  by (auto simp: batch_ok_def batch_insert_def batch_elements_def Let_def Option.bind_eq_Some_conv
      image_iff split: if_splits) force

lemma batch_insert_cases [consumes 1, case_names free clash]:
  assumes "batch_ok N b"
  obtains (free) b' where "lsb e (N - 1) \<notin> set (map (\<lambda>x. lsb x (N - 1)) (batch_elements b))"
      "batch_insert N b e v = Some (Inr b')" "batch_ok N b'" "b_entries b' = b_entries b @ [(e, v)]"
  | (clash) x where "x \<in> set (batch_elements b)" "lsb x (N - 1) = lsb e (N - 1)"
      "batch_insert N b e v = Some (Inl [\<lparr>col_in_tree = x, col_inserted = e, col_depth = N,
         col_struct = InBatch\<rparr>])"
proof (cases "lsb e (N - 1) \<in> set (b_lsbs b)")
  case True
  then obtain x where "find_element_with_lsb N b (lsb e (N - 1)) = Some x" "x \<in> set (batch_elements b)"
    "lsb x (N - 1) = lsb e (N - 1)"
    using find_element_ok[OF assms] by blast
  with True show thesis by (intro clash[of x]) (simp_all add: batch_insert_def)
next
  case False
  then have *: "batch_insert N b e v = Some (Inr (b\<lparr>b_lsbs := b_lsbs b @ [lsb e (N - 1)],
      b_entries := b_entries b @ [(e, v)]\<rparr>))"
    by (simp add: batch_insert_def)
  moreover have "set (b_lsbs b) = (\<lambda>e. lsb e (N - 1)) ` set (batch_elements b)"
    using assms by (simp add: batch_ok_def)
  ultimately show thesis
    using free[OF _ * batch_insert_ok[OF assms *]] False by simp
qed

lemma insert_entries_ok:
  assumes "batch_ok N b"
    and "distinct (map (\<lambda>e. lsb e (N - 1)) (batch_elements b @ map fst es))"
  shows "\<exists>b'. insert_entries N b es = Some (Inr b') \<and> batch_ok N b' \<and> b_entries b' = b_entries b @ es"
  using assms
proof (induction es arbitrary: b)
  case (Cons e es)
  obtain k v where e: "e = (k, v)" by (cases e)
  from Cons.prems(1) show ?case
  proof (cases rule: batch_insert_cases[of N b k v])
    case (free b')
    have "distinct (map (\<lambda>e. lsb e (N - 1)) (batch_elements b' @ map fst es))"
      using Cons.prems(2) free(4) by (simp add: batch_elements_def e)
    then show ?thesis using Cons.IH[OF free(3)] free by (auto simp: e)
  next
    case (clash x)
    then show ?thesis using Cons.prems(2) by (force simp: e image_iff)
  qed
qed simp

lemma insert_entries_clash:
  assumes "batch_ok N b"
    and "\<not> distinct (map (\<lambda>e. lsb e (N - 1)) (batch_elements b @ map fst es))"
  shows "\<exists>c. insert_entries N b es = Some (Inl [c]) \<and> col_struct c = InBatch
           \<and> lsb (col_in_tree c) (N - 1) = lsb (col_inserted c) (N - 1)
           \<and> col_inserted c \<in> set (map fst es)"
  using assms
proof (induction es arbitrary: b)
  case Nil
  then show ?case by (simp add: batch_ok_def)
next
  case (Cons e es)
  obtain k v where e: "e = (k, v)" by (cases e)
  from Cons.prems(1) show ?case
  proof (cases rule: batch_insert_cases[of N b k v])
    case (free b')
    have "\<not> distinct (map (\<lambda>e. lsb e (N - 1)) (batch_elements b' @ map fst es))"
      using Cons.prems(2) free(1,4) by (auto simp: batch_elements_def e)
    then show ?thesis using Cons.IH[OF free(3)] free(2) by (auto simp: e)
  next
    case (clash x)
    then show ?thesis by (simp add: e)
  qed
qed

lemma batch_single_ok:
  "\<exists>b. batch_single N e v = Some b \<and> batch_ok N b \<and> b_entries b = [(e, v)]"
  by (simp add: batch_single_def batch_insert_def batch_new_def batch_ok_def batch_elements_def)

lemma batch_merge_ok:
  assumes "batch_ok N b" "batch_ok N b2" "set (b_lsbs b) \<inter> set (b_lsbs b2) = {}"
  shows "\<exists>b'. batch_merge N b b2 = Some (Inr b') \<and> batch_ok N b'
           \<and> b_entries b' = b_entries b @ b_entries b2"
proof -
  have "filter (\<lambda>l. l \<in> set (b_lsbs b2)) (b_lsbs b) = []"
    using assms(3) by (auto simp: filter_empty_conv)
  then show ?thesis
    using assms by (auto simp: batch_merge_def batch_ok_def batch_elements_def)
qed

lemma batch_merge_clash:
  assumes "batch_ok N b" "batch_ok N b2" "set (b_lsbs b) \<inter> set (b_lsbs b2) \<noteq> {}"
  shows "\<exists>cs. batch_merge N b b2 = Some (Inl cs)
           \<and> length cs = length (filter (\<lambda>l. l \<in> set (b_lsbs b2)) (b_lsbs b))
           \<and> (\<forall>c \<in> set cs. col_in_tree c \<in> set (batch_elements b) \<and> col_inserted c \<in> set (batch_elements b2)
                \<and> lsb (col_in_tree c) (N - 1) = lsb (col_inserted c) (N - 1))"
proof -
  let ?ls = "filter (\<lambda>l. l \<in> set (b_lsbs b2)) (b_lsbs b)"
  have "\<exists>c. merge_collision N b b2 l = Some c \<and> col_in_tree c \<in> set (batch_elements b)
      \<and> col_inserted c \<in> set (batch_elements b2)
      \<and> lsb (col_in_tree c) (N - 1) = lsb (col_inserted c) (N - 1)" if "l \<in> set ?ls" for l
  proof -
    have l: "l \<in> set (b_lsbs b)" "l \<in> set (b_lsbs b2)" using that by auto
    show ?thesis
      by (rule find_element_ok[OF assms(1) l(1)], rule find_element_ok[OF assms(2) l(2)])
        (simp add: merge_collision_def)
  qed
  then have *: "\<forall>l \<in> set ?ls. \<exists>c. merge_collision N b b2 l = Some c \<and> col_in_tree c \<in> set (batch_elements b)
      \<and> col_inserted c \<in> set (batch_elements b2)
      \<and> lsb (col_in_tree c) (N - 1) = lsb (col_inserted c) (N - 1)" by blast
  then have "None \<notin> set (map (merge_collision N b b2) ?ls)" by fastforce
  moreover have "?ls \<noteq> []" using assms(3) by (auto simp: filter_empty_conv)
  ultimately have "batch_merge N b b2 = Some (Inl (map the (map (merge_collision N b b2) ?ls)))"
    unfolding batch_merge_def Let_def by (simp only: if_True if_False not_False_eq_True)
  then show ?thesis using * by fastforce
qed

end
