(* ===== verification/Smirk_Tree.thy ===== *)
theory Smirk_Tree
  imports Smirk_Hashing Smirk_Batch
begin

text \<open>
  \<open>pkg/smirk/src/tree\<close>: the public tree. A tree is the node representation, the \<open>BTreeMap\<close> of its
  entries and a hash cache; its operations are those of \<open>mod.rs\<close>, \<open>raw_api.rs\<close>, \<open>batch.rs\<close>,
  \<open>insert.rs\<close>, \<open>path.rs\<close>, \<open>iter.rs\<close> and \<open>known_hashes.rs\<close>. The invariant \<open>tree_inv\<close> ties the
  representation to the entries through the slots the elements belong to.
\<close>

section \<open>The tree (mod.rs)\<close>

record ('v, 'c) smirk_tree =
  t_tree :: node
  t_entries :: "(element \<times> 'v) list"
  t_cache :: 'c

definition new_with_cache :: "nat \<Rightarrow> 'c \<Rightarrow> ('v, 'c) smirk_tree" where
  "new_with_cache N cache = \<lparr>t_tree = Empty N, t_entries = [], t_cache = cache\<rparr>"

definition tree_len :: "('v, 'c) smirk_tree \<Rightarrow> nat" where
  "tree_len t = length (t_entries t)"

definition tree_is_empty :: "('v, 'c) smirk_tree \<Rightarrow> bool" where
  "tree_is_empty t \<longleftrightarrow> t_entries t = []"

definition contains_element :: "('v, 'c) smirk_tree \<Rightarrow> element \<Rightarrow> bool" where
  "contains_element t element \<longleftrightarrow> map_of (t_entries t) element \<noteq> None"

definition root_hash :: "(element \<Rightarrow> element \<Rightarrow> element) \<Rightarrow> ('v, 'c) smirk_tree \<Rightarrow> element option" where
  "root_hash hm t = node_hash hm (t_tree t)"

text \<open>\<open>PartialEq::eq\<close> of trees.\<close>

definition tree_eq ::
  "(element \<Rightarrow> element \<Rightarrow> element) \<Rightarrow> ('v, 'c) smirk_tree \<Rightarrow> ('v, 'c) smirk_tree \<Rightarrow> bool option" where
  "tree_eq hm t u = do { a \<leftarrow> root_hash hm t; b \<leftarrow> root_hash hm u; Some (a = b) }"

text \<open>\<open>root_hash_with\<close> changes nothing but the cache it hashes through.\<close>

definition root_hash_with ::
  "(element \<Rightarrow> element \<Rightarrow> element) \<Rightarrow> ('c \<Rightarrow> element \<Rightarrow> element \<Rightarrow> element \<times> 'c) \<Rightarrow> nat
     \<Rightarrow> ('v, 'c) smirk_tree \<Rightarrow> element list \<Rightarrow> (element \<times> ('v, 'c) smirk_tree) option" where
  "root_hash_with hm chash N t extra_elements = do {
     (h, c) \<leftarrow> hash_with hm chash N (t_cache t) (t_tree t) extra_elements;
     Some (h, t\<lparr>t_cache := c\<rparr>) }"

definition tree_elements :: "('v, 'c) smirk_tree \<Rightarrow> (element \<times> 'v) list" where
  "tree_elements t = t_entries t"

definition tree_known_hashes ::
  "(element \<Rightarrow> element \<Rightarrow> element) \<Rightarrow> ('v, 'c) smirk_tree \<Rightarrow> known_hash list option" where
  "tree_known_hashes hm t = known_hashes_inner hm (t_tree t)"

section \<open>Insertion (raw_api.rs, batch.rs, insert.rs)\<close>

text \<open>The final loop of \<open>insert_without_hashing\<close>.\<close>

fun add_entries :: "(element \<times> 'v) list \<Rightarrow> (element \<times> 'v) list \<Rightarrow> (element \<times> 'v) list" where
  "add_entries m [] = m"
| "add_entries m ((element, value) # entries) = add_entries (bt_insert element value m) entries"

text \<open>The tree after the call and its result; \<open>None\<close> is a panic.\<close>

definition insert_without_hashing ::
  "(element \<Rightarrow> element \<Rightarrow> element) \<Rightarrow> nat \<Rightarrow> ('v, 'c) smirk_tree \<Rightarrow> (element \<times> 'v) list
     \<Rightarrow> (('v, 'c) smirk_tree \<times> (collision + unit)) option" where
  "insert_without_hashing hm N t entries =
     (if entries = [] then Some (t, Inr ())
      else if \<exists>e \<in> set entries. fst e = NULL_HASH
      then Some (t, Inl \<lparr>col_in_tree = NULL_HASH, col_inserted = NULL_HASH, col_depth = N,
                         col_struct = InTree\<rparr>)
      else (case find (\<lambda>e. map_of (t_entries t) (fst e) \<noteq> None) entries of
         Some (element, _) \<Rightarrow>
           Some (t, Inl \<lparr>col_in_tree = element, col_inserted = element, col_depth = N,
                         col_struct = InTree\<rparr>)
       | None \<Rightarrow>
           (let elements_and_bits =
                  sort_key snd (map (\<lambda>e. (fst e, lsb (fst e) (N - 1))) entries);
                elements = map fst elements_and_bits;
                bits = map snd elements_and_bits
            in do {
              (tree, result) \<leftarrow> node_insert hm N (t_tree t) elements bits 0;
              (case result of
                 Inl c \<Rightarrow> Some (t\<lparr>t_tree := tree\<rparr>, Inl c)
               | Inr False \<Rightarrow> None
               | Inr True \<Rightarrow>
                   Some (t\<lparr>t_tree := tree, t_entries := add_entries (t_entries t) entries\<rparr>, Inr ())) })))"

text \<open>\<open>check_collisions\<close>: the loop over the keys of the tree. \<open>Inr ()\<close> when no slot is shared.\<close>

fun collisions_loop ::
  "nat \<Rightarrow> 'v batch \<Rightarrow> element list \<Rightarrow> collision list \<Rightarrow> collision list option" where
  "collisions_loop N b [] error = Some error"
| "collisions_loop N b (tree_element # keys) error =
     (let tree_lsb = lsb tree_element (N - 1)
      in if tree_lsb \<in> set (b_lsbs b)
         then do {
           batch_element \<leftarrow> find (\<lambda>e. lsb e (N - 1) = tree_lsb) (batch_elements b);
           collisions_loop N b keys
             (error @ [\<lparr>col_in_tree = tree_element, col_inserted = batch_element, col_depth = N,
                        col_struct = InTree\<rparr>]) }
         else collisions_loop N b keys error)"

definition check_collisions ::
  "nat \<Rightarrow> ('v, 'c) smirk_tree \<Rightarrow> 'w batch \<Rightarrow> (collision list + unit) option" where
  "check_collisions N t b = do {
     error \<leftarrow> collisions_loop N b (map fst (t_entries t)) [];
     (if error \<noteq> [] then Some (Inl error) else Some (Inr ())) }"

text \<open>
  \<open>insert_batch\<close>, with the calls of the two callbacks. An error leaves the tree as it was; the
  \<open>unwrap\<close> of \<open>insert_without_hashing\<close> makes its errors panics.
\<close>

definition insert_batch ::
  "(element \<Rightarrow> element \<Rightarrow> element) \<Rightarrow> ('c \<Rightarrow> element \<Rightarrow> element \<Rightarrow> element \<times> 'c) \<Rightarrow> nat
     \<Rightarrow> ('v, 'c) smirk_tree \<Rightarrow> 'v batch
     \<Rightarrow> (collision list + ('v, 'c) smirk_tree \<times> hash_event list) option" where
  "insert_batch hm chash N t b = do {
     checked \<leftarrow> check_collisions N t b;
     (case checked of
        Inl e \<Rightarrow> Some (Inl e)
      | Inr _ \<Rightarrow> do {
          (t, result) \<leftarrow> insert_without_hashing hm N t (b_entries b);
          (case result of
             Inl _ \<Rightarrow> None
           | Inr _ \<Rightarrow> do {
               (tree, c, events) \<leftarrow> recalculate_hashes hm chash (t_cache t) (t_tree t);
               Some (Inr (t\<lparr>t_tree := tree, t_cache := c\<rparr>, events)) }) }) }"

definition tree_insert ::
  "(element \<Rightarrow> element \<Rightarrow> element) \<Rightarrow> ('c \<Rightarrow> element \<Rightarrow> element \<Rightarrow> element \<times> 'c) \<Rightarrow> nat
     \<Rightarrow> ('v, 'c) smirk_tree \<Rightarrow> element \<Rightarrow> 'v \<Rightarrow> (collision list + ('v, 'c) smirk_tree) option" where
  "tree_insert hm chash N t element value = do {
     b \<leftarrow> batch_single N element value;
     r \<leftarrow> insert_batch hm chash N t b;
     Some (map_sum id fst r) }"

definition tree_get :: "('v, 'c) smirk_tree \<Rightarrow> element \<Rightarrow> 'v option" where
  "tree_get t element = map_of (t_entries t) element"

section \<open>Paths (path.rs)\<close>

text \<open>\<open>p_siblings\<close> is the array of length \<open>DEPTH\<close>; its last element is the one the path is for.\<close>

record path =
  p_siblings :: "element list"
  p_root_hash :: element

definition siblings_deepest_first :: "nat \<Rightarrow> path \<Rightarrow> element list" where
  "siblings_deepest_first N p = take (N - 1) (p_siblings p)"

definition path_element :: "path \<Rightarrow> element" where
  "path_element p = last (p_siblings p)"

definition path_lsb :: "nat \<Rightarrow> path \<Rightarrow> bool list" where
  "path_lsb N p = lsb (path_element p) (N - 1)"

definition compute_root_hash ::
  "(element \<Rightarrow> element \<Rightarrow> element) \<Rightarrow> nat \<Rightarrow> path \<Rightarrow> element \<Rightarrow> element" where
  "compute_root_hash hm N p element =
     compute_merkle_root hm element (zip (siblings_deepest_first N p) (rev (path_lsb N p)))"

definition actual_root_hash :: "path \<Rightarrow> element" where
  "actual_root_hash p = p_root_hash p"

definition proves :: "(element \<Rightarrow> element \<Rightarrow> element) \<Rightarrow> nat \<Rightarrow> path \<Rightarrow> element \<Rightarrow> bool" where
  "proves hm N p element \<longleftrightarrow> compute_root_hash hm N p element = actual_root_hash p"

text \<open>An assignment into the array; out of range it panics.\<close>

definition set_sibling :: "element list \<Rightarrow> nat \<Rightarrow> element \<Rightarrow> element list option" where
  "set_sibling xs i e = (if i < length xs then Some (xs[i := e]) else None)"

text \<open>The loop at an empty node, over the depths \<open>depth - 1, ..., 1\<close>.\<close>

fun fill_empty ::
  "(element \<Rightarrow> element \<Rightarrow> element) \<Rightarrow> element list \<Rightarrow> nat \<Rightarrow> nat list \<Rightarrow> element list option" where
  "fill_empty hm siblings i [] = Some siblings"
| "fill_empty hm siblings i (depth # depths) = do {
     h \<leftarrow> node_hash hm (Empty depth);
     siblings \<leftarrow> set_sibling siblings i h;
     fill_empty hm siblings (i + 1) depths }"

fun path_walk ::
  "(element \<Rightarrow> element \<Rightarrow> element) \<Rightarrow> node \<Rightarrow> element list \<Rightarrow> nat \<Rightarrow> bool list \<Rightarrow> element list option"
where
  "path_walk hm tree siblings index [] = Some siblings"
| "path_walk hm (Parent left right _ _) siblings index (b # bits) =
     (case b of
        False \<Rightarrow> do {
          h \<leftarrow> node_hash hm right;
          siblings \<leftarrow> set_sibling siblings index h;
          path_walk hm left siblings (index + 1) bits }
      | True \<Rightarrow> do {
          h \<leftarrow> node_hash hm left;
          siblings \<leftarrow> set_sibling siblings index h;
          path_walk hm right siblings (index + 1) bits })"
| "path_walk hm (Empty depth) siblings index (b # bits) =
     fill_empty hm siblings index (rev [1..<depth])"
| "path_walk hm (Leaf _) siblings index (b # bits) = None"

definition path_for ::
  "(element \<Rightarrow> element \<Rightarrow> element) \<Rightarrow> nat \<Rightarrow> ('v, 'c) smirk_tree \<Rightarrow> element \<Rightarrow> path option" where
  "path_for hm N t element =
     (let bits = lsb element (N - 1)
      in do {
        siblings \<leftarrow> path_walk hm (t_tree t) (replicate N NULL_HASH) 0 bits;
        siblings \<leftarrow> (if siblings = [] then None else Some (butlast siblings @ [element]));
        root \<leftarrow> root_hash hm t;
        Some \<lparr>p_siblings = rev (take (N - 1) siblings) @ drop (N - 1) siblings,
              p_root_hash = root\<rparr> })"

text \<open>
  \<open>insert_with_paths\<close> (insert.rs): the tree after the loop and its result. An error stops the loop
  but keeps the insertions made so far.
\<close>

fun insert_with_paths ::
  "(element \<Rightarrow> element \<Rightarrow> element) \<Rightarrow> ('c \<Rightarrow> element \<Rightarrow> element \<Rightarrow> element \<times> 'c) \<Rightarrow> nat
     \<Rightarrow> ('v, 'c) smirk_tree \<Rightarrow> (element \<times> 'v) list
     \<Rightarrow> (('v, 'c) smirk_tree \<times> (collision list + path list)) option" where
  "insert_with_paths hm chash N t [] = Some (t, Inr [])"
| "insert_with_paths hm chash N t ((element, value) # entries) = do {
     r \<leftarrow> tree_insert hm chash N t element value;
     (case r of
        Inl e \<Rightarrow> Some (t, Inl e)
      | Inr t \<Rightarrow> do {
          path \<leftarrow> path_for hm N t element;
          (t, rest) \<leftarrow> insert_with_paths hm chash N t entries;
          Some (t, map_sum id (\<lambda>result. path # result) rest) }) }"

definition insert_with_paths_default ::
  "(element \<Rightarrow> element \<Rightarrow> element) \<Rightarrow> ('c \<Rightarrow> element \<Rightarrow> element \<Rightarrow> element \<times> 'c) \<Rightarrow> nat \<Rightarrow> 'v
     \<Rightarrow> ('v, 'c) smirk_tree \<Rightarrow> element list
     \<Rightarrow> (('v, 'c) smirk_tree \<times> (collision list + path list)) option" where
  "insert_with_paths_default hm chash N dflt t elements =
     insert_with_paths hm chash N t (map (\<lambda>e. (e, dflt)) elements)"

end
