(* ===== verification/Smirk_Correct.thy ===== *)
theory Smirk_Correct
  imports Smirk_Tree "HOL-Library.Multiset"
begin

text \<open>
  The correctness of the tree: the invariant \<open>tree_inv\<close>, the functional behaviour of \<open>insert_batch\<close>
  on every branch, the hypothetical root of \<open>root_hash_with\<close>, and the paths. The root of a tree is a
  function of the set of its elements (\<open>slots\<close>, \<open>spec_root\<close>), so it does not depend on the order or
  the grouping of the insertions. A tree of \<open>DEPTH = Suc n\<close> has \<open>n\<close> left/right decisions.
\<close>

section \<open>The slots of a list of elements\<close>

definition slots :: "nat \<Rightarrow> element list \<Rightarrow> bool list \<Rightarrow> element" where
  "slots n els = slot_upd n 0 els (\<lambda>_. NULL_HASH)"

abbreviation keyed :: "nat \<Rightarrow> element list \<Rightarrow> bool" where
  "keyed n els \<equiv> distinct (map (\<lambda>e. lsb e n) els)"

lemma slot_upd_member:
  assumes "keyed n els" "e \<in> set els" "drop pd (lsb e n) = q"
    "\<And>a. a \<in> set els \<Longrightarrow> drop pd (lsb a n) = q \<Longrightarrow> lsb a n = lsb e n"
  shows "slot_upd n pd els f q = e"
proof -
  obtain x where x: "find (\<lambda>e. drop pd (lsb e n) = q) els = Some x"
    using assms(2,3) by (cases "find (\<lambda>e. drop pd (lsb e n) = q) els") (auto simp: find_None_iff)
  then have "x \<in> set els" "lsb x n = lsb e n"
    using find_SomeD[OF x] assms(4) by auto
  then have "x = e" using assms(1,2) by (auto simp: distinct_map dest: inj_onD)
  with x show ?thesis by (simp add: slot_upd_def)
qed

lemma slots_member: "keyed n els \<Longrightarrow> e \<in> set els \<Longrightarrow> slots n els (lsb e n) = e"
  unfolding slots_def by (rule slot_upd_member) auto

lemma slot_upd_free: "q \<notin> (\<lambda>e. lsb e n) ` set els \<Longrightarrow> slot_upd n 0 els f q = f q"
proof -
  assume "q \<notin> (\<lambda>e. lsb e n) ` set els"
  then have "find (\<lambda>e. drop 0 (lsb e n) = q) els = None" by (auto simp: find_None_iff)
  then show ?thesis by (simp add: slot_upd_def)
qed

lemma slots_free: "q \<notin> (\<lambda>e. lsb e n) ` set els \<Longrightarrow> slots n els q = NULL_HASH"
  by (simp add: slots_def slot_upd_free)

lemma slots_append:
  assumes "keyed n (a @ b)"
  shows "slot_upd n 0 a (slots n b) q = slots n (b @ a) q"
proof (cases "q \<in> (\<lambda>e. lsb e n) ` set a")
  case True
  then obtain e where e: "e \<in> set a" "q = lsb e n" by auto
  have "slot_upd n 0 a (slots n b) q = e"
    by (rule slot_upd_member) (use assms e in auto)
  moreover have "slots n (b @ a) (lsb e n) = e"
    by (rule slots_member) (use assms e in auto)
  ultimately show ?thesis by (simp add: e(2))
next
  case False
  then have "slot_upd n 0 a (slots n b) q = slots n b q" by (rule slot_upd_free)
  moreover have "slots n b q = slots n (b @ a) q"
  proof (cases "q \<in> (\<lambda>e. lsb e n) ` set b")
    case True
    then obtain e where e: "e \<in> set b" "q = lsb e n" by auto
    have "slots n b (lsb e n) = e" "slots n (b @ a) (lsb e n) = e"
      by (rule slots_member, use assms e in auto)+
    then show ?thesis by (simp add: e(2))
  next
    case free: False
    have "slots n b q = NULL_HASH" using free by (rule slots_free)
    moreover have "slots n (b @ a) q = NULL_HASH" using False free by (intro slots_free) auto
    ultimately show ?thesis by simp
  qed
  ultimately show ?thesis by simp
qed

lemma slots_set:
  assumes "keyed n a" "keyed n b" "set a = set b"
  shows "slots n a = slots n b"
proof
  fix q
  show "slots n a q = slots n b q"
  proof (cases "q \<in> (\<lambda>e. lsb e n) ` set a")
    case True
    then obtain e where e: "e \<in> set a" "q = lsb e n" by auto
    then have "slots n a (lsb e n) = e" "slots n b (lsb e n) = e"
      using assms by (auto intro: slots_member)
    then show ?thesis by (simp add: e(2))
  next
    case False
    then have "slots n a q = NULL_HASH" "slots n b q = NULL_HASH"
      unfolding assms(3) by (auto intro: slots_free simp: assms(3))
    then show ?thesis by simp
  qed
qed

section \<open>Sorting by slots\<close>

text \<open>
  The elements are sorted by distinct slots, so that \<open>sort_unstable_by\<close> and the stable \<open>sort_key\<close>
  give the same list.
\<close>

lemma sort_lsb:
  fixes els :: "element list" and n :: nat
  defines "ps \<equiv> sort_key snd (map (\<lambda>e. (e, lsb e n)) els)"
  shows "map snd ps = map (\<lambda>e. lsb e n) (map fst ps)" and "mset (map fst ps) = mset els"
    and "sorted (map (\<lambda>e. lsb e n) (map fst ps))"
proof -
  have *: "snd p = lsb (fst p) n" if "p \<in> set ps" for p using that by (auto simp: ps_def)
  then show "map snd ps = map (\<lambda>e. lsb e n) (map fst ps)" by simp
  have "mset (map fst ps) = image_mset fst (mset (map (\<lambda>e. (e, lsb e n)) els))"
    by (simp only: mset_map ps_def mset_sort)
  also have "\<dots> = mset els" by (simp add: multiset.map_comp comp_def)
  finally show "mset (map fst ps) = mset els" .
  have "sorted (map snd ps)" unfolding ps_def by (rule sorted_sort_key)
  with * show "sorted (map (\<lambda>e. lsb e n) (map fst ps))" by (simp cong: map_cong)
qed

lemma sorted_insertable:
  assumes "mset els' = mset els" "sorted (map (\<lambda>e. lsb e n) els')" "keyed n els"
    "NULL_HASH \<notin> set els" "\<And>e. e \<in> set els \<Longrightarrow> node_slot t (lsb e n) = NULL_HASH"
  shows "insertable n 0 t els'" and "keyed n els'" and "set els' = set els"
proof -
  show s: "set els' = set els" using assms(1) by (rule mset_eq_setD)
  have "mset (map (\<lambda>e. lsb e n) els') = mset (map (\<lambda>e. lsb e n) els)"
    using assms(1) by (simp only: mset_map)
  then show k: "keyed n els'" using assms(3) by (rule mset_eq_imp_distinct_iff[THEN iffD2])
  show "insertable n 0 t els'"
    using assms(2,4,5) k s by (auto simp: insertable_def ready_def)
qed

section \<open>The invariant\<close>

abbreviation keys :: "('v, 'c) smirk_tree \<Rightarrow> element list" where
  "keys t \<equiv> map fst (t_entries t)"

definition tree_inv ::
  "(element \<Rightarrow> element \<Rightarrow> element) \<Rightarrow> ('c \<Rightarrow> bool) \<Rightarrow> nat \<Rightarrow> ('v, 'c) smirk_tree \<Rightarrow> bool" where
  "tree_inv hm cinv n t \<longleftrightarrow>
     bt_ok (t_entries t) \<and> wf_node n (t_tree t) \<and> clean hm n (t_tree t) \<and> cinv (t_cache t)
     \<and> NULL_HASH \<notin> set (keys t) \<and> keyed n (keys t)
     \<and> (\<forall>q. length q = n \<longrightarrow> node_slot (t_tree t) q = slots n (keys t) q)"

lemma tree_inv_new [inv_intros]: "cinv c \<Longrightarrow> tree_inv hm cinv n (new_with_cache (Suc n) c)"
  by (simp add: tree_inv_def new_with_cache_def slots_def)

lemma root_hash_spec:
  assumes "tree_inv hm cinv n t"
  shows "root_hash hm t = Some (spec_root hm n (slots n (keys t)))"
proof -
  have "root_hash hm t = Some (spec_root hm n (node_slot (t_tree t)))"
    using assms by (auto simp: root_hash_def tree_inv_def intro: node_hash_clean)
  also have "spec_root hm n (node_slot (t_tree t)) = spec_root hm n (slots n (keys t))"
    using assms by (auto simp: tree_inv_def intro: spec_root_cong)
  finally show ?thesis .
qed

lemma tree_contains_slot:
  assumes "tree_inv hm cinv n t" "n \<le> 256"
  shows "contains_element t e \<longleftrightarrow> e \<noteq> NULL_HASH \<and> node_slot (t_tree t) (lsb e n) = e"
proof -
  have slot: "node_slot (t_tree t) (lsb e n) = slots n (keys t) (lsb e n)"
    using assms by (auto simp: tree_inv_def)
  have k: "keyed n (keys t)" and null: "NULL_HASH \<notin> set (keys t)" and bt: "bt_ok (t_entries t)"
    using assms(1) by (simp_all add: tree_inv_def)
  have "contains_element t e \<longleftrightarrow> e \<in> set (keys t)"
    using map_of_eq_None_iff[of "t_entries t" e] by (auto simp: contains_element_def)
  also have "\<dots> \<longleftrightarrow> e \<noteq> NULL_HASH \<and> slots n (keys t) (lsb e n) = e"
  proof
    assume "e \<in> set (keys t)"
    then show "e \<noteq> NULL_HASH \<and> slots n (keys t) (lsb e n) = e"
      using null slots_member[OF k] by blast
  next
    assume e: "e \<noteq> NULL_HASH \<and> slots n (keys t) (lsb e n) = e"
    then have "lsb e n \<in> (\<lambda>e. lsb e n) ` set (keys t)"
      using slots_free[of "lsb e n" n "keys t"] by auto
    then obtain x where "lsb e n = lsb x n" "x \<in> set (keys t)" by (rule imageE)
    then show "e \<in> set (keys t)" using slots_member[OF k] e by fastforce
  qed
  finally show ?thesis by (simp add: slot)
qed

text \<open>The pairs that the Merkle root of the slots hashes, and what follows when they do not collide.\<close>

fun root_pairs ::
  "(element \<Rightarrow> element \<Rightarrow> element) \<Rightarrow> nat \<Rightarrow> (bool list \<Rightarrow> element) \<Rightarrow> (element \<times> element) list" where
  "root_pairs hm 0 f = []"
| "root_pairs hm (Suc k) f =
     (spec_root hm k (\<lambda>q. f (False # q)), spec_root hm k (\<lambda>q. f (True # q)))
     # root_pairs hm k (\<lambda>q. f (False # q)) @ root_pairs hm k (\<lambda>q. f (True # q))"

lemma spec_root_inject:
  assumes "spec_root hm k f = spec_root hm k g"
    and "inj_on (\<lambda>(l, r). hm l r) (set (root_pairs hm k f) \<union> set (root_pairs hm k g))"
    and "length q = k"
  shows "f q = g q"
  using assms
proof (induction k arbitrary: f g q)
  case (Suc k)
  obtain b q' where q: "q = b # q'" "length q' = k" using Suc.prems(3) by (cases q) auto
  have "(spec_root hm k (\<lambda>q. f (False # q)), spec_root hm k (\<lambda>q. f (True # q)))
      = (spec_root hm k (\<lambda>q. g (False # q)), spec_root hm k (\<lambda>q. g (True # q)))"
    by (rule inj_onD[OF Suc.prems(2)]) (use Suc.prems(1) in simp_all)
  then have "spec_root hm k (\<lambda>q. f (b # q)) = spec_root hm k (\<lambda>q. g (b # q))"
    by (cases b) simp_all
  moreover have "inj_on (\<lambda>(l, r). hm l r)
      (set (root_pairs hm k (\<lambda>q. f (b # q))) \<union> set (root_pairs hm k (\<lambda>q. g (b # q))))"
    by (rule inj_on_subset[OF Suc.prems(2)]) (cases b; auto)
  ultimately have "(\<lambda>q. f (b # q)) q' = (\<lambda>q. g (b # q)) q'" using q(2) by (rule Suc.IH)
  then show ?case by (simp add: q(1))
qed simp

section \<open>Insertion of a batch\<close>

lemma map_of_add_entries: "map_of (add_entries m es) = map_of m ++ map_of (rev es)"
  by (induction m es rule: add_entries.induct) (auto simp: map_add_def fun_eq_iff split: option.splits)

lemma keys_add_entries: "fst ` set (add_entries m es) = fst ` set m \<union> fst ` set es"
  by (induction m es rule: add_entries.induct) auto

lemma add_entries_ok [inv_intros]: "bt_ok m \<Longrightarrow> bt_ok (add_entries m es)"
  by (induction m es rule: add_entries.induct) auto

lemma add_entries_append: "add_entries m (es @ fs) = add_entries (add_entries m es) fs"
  by (induction m es rule: add_entries.induct) auto

lemma add_entries_swap:
  assumes "bt_ok m" "fst ` set es \<inter> fst ` set fs = {}"
  shows "add_entries (add_entries m fs) es = add_entries (add_entries m es) fs"
proof (rule bt_ok_ext)
  have "dom (map_of (rev es)) \<inter> dom (map_of (rev fs)) = {}"
    using assms(2) by (simp add: dom_map_of_conv_image_fst)
  then show "map_of (add_entries (add_entries m fs) es) = map_of (add_entries (add_entries m es) fs)"
    by (simp add: map_of_add_entries map_add_comm[of "map_of (rev es)"] flip: map_add_assoc)
qed (use assms(1) in \<open>simp_all add: add_entries_ok\<close>)

lemma disjoint_keys: "f ` A \<inter> f ` B = {} \<Longrightarrow> A \<inter> B = {}"
  by blast

text \<open>The batch can be inserted: none of its elements is null and none of its slots is taken.\<close>

definition free_in :: "nat \<Rightarrow> ('v, 'c) smirk_tree \<Rightarrow> element list \<Rightarrow> bool" where
  "free_in n t els \<longleftrightarrow>
     NULL_HASH \<notin> set els
     \<and> (\<lambda>e. lsb e n) ` set (map fst (t_entries t)) \<inter> (\<lambda>e. lsb e n) ` set els = {}"

lemma free_in_slot:
  assumes "tree_inv hm cinv n t" "n \<le> 256" "free_in n t els" "e \<in> set els"
  shows "node_slot (t_tree t) (lsb e n) = NULL_HASH" and "map_of (t_entries t) e = None"
proof -
  have free: "lsb e n \<notin> (\<lambda>e. lsb e n) ` set (keys t)"
    using assms(3,4) by (auto simp: free_in_def)
  then show "node_slot (t_tree t) (lsb e n) = NULL_HASH"
    using assms(1,2) by (simp add: tree_inv_def slots_free del: set_map)
  show "map_of (t_entries t) e = None"
    using free by (auto simp: map_of_eq_None_iff)
qed

lemma free_in_add:
  assumes "free_in n t (map fst fs)"
    and "(\<lambda>e. lsb e n) ` set (map fst es) \<inter> (\<lambda>e. lsb e n) ` set (map fst fs) = {}"
    and "t_entries t' = add_entries (t_entries t) es"
  shows "free_in n t' (map fst fs)"
  using assms(1,2) keys_add_entries[of "t_entries t" es]
  by (simp add: free_in_def assms(3) image_Un Int_Un_distrib2)

lemma keyed_union:
  assumes "keyed n a" "keyed n b" "(\<lambda>e. lsb e n) ` set a \<inter> (\<lambda>e. lsb e n) ` set b = {}"
  shows "keyed n (a @ b)"
  using assms by (simp add: image_image)

lemma keyed_same_set:
  assumes "keyed n a" "distinct b" "set a = set b"
  shows "keyed n b"
  using assms by (metis distinct_map)

lemma keys_after:
  assumes "tree_inv hm cinv n t" "free_in n t (map fst es)" "keyed n (map fst es)"
  shows "set (map fst (add_entries (t_entries t) es)) = set (keys t @ map fst es)"
    and "keyed n (keys t @ map fst es)"
    and "keyed n (map fst (add_entries (t_entries t) es))"
proof -
  show s: "set (map fst (add_entries (t_entries t) es)) = set (keys t @ map fst es)"
    using keys_add_entries[of "t_entries t" es] by simp
  show k: "keyed n (keys t @ map fst es)"
    using assms by (intro keyed_union) (simp_all add: tree_inv_def free_in_def)
  show "keyed n (map fst (add_entries (t_entries t) es))"
    by (rule keyed_same_set[OF k _ s[symmetric]])
      (use assms(1) in \<open>simp add: tree_inv_def bt_ok_distinct add_entries_ok\<close>)
qed

lemma insert_without_hashing_ok:
  assumes inv: "tree_inv hm cinv n t" and n: "n \<le> 256"
    and free: "free_in n t (map fst es)" and keyed: "keyed n (map fst es)"
  shows "\<exists>tr. insert_without_hashing hm (Suc n) t es
            = Some (t\<lparr>t_tree := tr, t_entries := add_entries (t_entries t) es\<rparr>, Inr ())
          \<and> wf_node n tr \<and> fresh hm n tr
          \<and> (\<forall>q. length q = n \<longrightarrow> node_slot tr q = slots n (map fst (add_entries (t_entries t) es)) q)"
proof (cases "es = []")
  case True
  then show ?thesis
    using inv by (intro exI[of _ "t_tree t"])
      (simp add: insert_without_hashing_def tree_inv_def clean_fresh)
next
  case False
  let ?ps = "sort_key snd (map (\<lambda>e. (e, lsb e n)) (map fst es))"
  let ?els = "map fst ?ps"
  note srt = sort_lsb[of n "map fst es"]
  note ins = sorted_insertable[OF srt(2,3) keyed, where t = "t_tree t"]
  have null: "NULL_HASH \<notin> set (map fst es)" using free by (simp add: free_in_def)
  have slot: "node_slot (t_tree t) (lsb e n) = NULL_HASH" if "e \<in> set (map fst es)" for e
    by (rule free_in_slot(1)[OF inv n free that])
  have absent: "map_of (t_entries t) (fst x) = None" if "x \<in> set es" for x
    using free_in_slot(2)[OF inv n free, of "fst x"] that by simp
  have nd: "wf_node n (t_tree t)" "clean hm n (t_tree t)" using inv by (simp_all add: tree_inv_def)
  have ne: "?els \<noteq> []" using False ins(3)[OF null slot] by (metis list.map_disc_iff set_empty)
  obtain tr where tr: "node_insert hm (Suc n) (t_tree t) ?els (map (\<lambda>e. lsb e n) ?els) 0
      = Some (tr, Inr True)" "inserted hm n n 0 (t_tree t) ?els tr"
    using node_insert_correct[OF nd ins(1)[OF null slot] ne _ n] by auto
  have k': "keyed n (keys t @ ?els)"
    by (rule keyed_union)
      (use inv free ins(2,3)[OF null slot] in \<open>simp_all only: tree_inv_def free_in_def\<close>)
  then have k: "keyed n (?els @ keys t)" by (simp only: map_append distinct_append Int_commute)
  have "node_slot tr q = slots n (map fst (add_entries (t_entries t) es)) q" if len: "length q = n" for q
  proof -
    have "node_slot tr q = slot_upd n 0 ?els (node_slot (t_tree t)) q"
      using tr(2) len unfolding inserted_def by blast
    also have "\<dots> = slot_upd n 0 ?els (slots n (keys t)) q"
    proof -
      have "node_slot (t_tree t) q = slots n (keys t) q" using inv len by (simp add: tree_inv_def)
      then show ?thesis by (simp only: slot_upd_def)
    qed
    also have "\<dots> = slots n (keys t @ ?els) q"
      using k by (rule slots_append)
    also have "\<dots> = slots n (map fst (add_entries (t_entries t) es)) q"
      by (rule slots_set[OF k' keys_after(3)[OF inv free keyed], THEN fun_cong])
        (simp only: keys_after(1)[OF inv free keyed] set_append ins(3)[OF null slot])
    finally show ?thesis .
  qed
  moreover have "\<not> (\<exists>e \<in> set es. fst e = NULL_HASH)" using null by force
  moreover have "find (\<lambda>e. map_of (t_entries t) (fst e) \<noteq> None) es = None"
    by (simp add: find_None_iff) (use absent in fastforce)
  moreover have "map (\<lambda>e. (fst e, lsb (fst e) n)) es = map (\<lambda>e. (e, lsb e n)) (map fst es)" by simp
  ultimately show ?thesis
    using False tr srt(1)
    by (intro exI[of _ tr])
      (simp add: insert_without_hashing_def inserted_def Let_def del: map_map)
qed

text \<open>The collisions that \<open>check_collisions\<close> reports: one for each element whose slot is in the batch.\<close>

definition collisions_of :: "nat \<Rightarrow> 'v batch \<Rightarrow> element list \<Rightarrow> collision list" where
  "collisions_of n b ks =
     map (\<lambda>e. \<lparr>col_in_tree = e,
               col_inserted = the (find (\<lambda>x. lsb x n = lsb e n) (batch_elements b)),
               col_depth = Suc n, col_struct = InTree\<rparr>)
       (filter (\<lambda>e. lsb e n \<in> (\<lambda>e. lsb e n) ` set (batch_elements b)) ks)"

lemma collisions_loop_eq:
  assumes "batch_ok (Suc n) b"
  shows "collisions_loop (Suc n) b ks err = Some (err @ collisions_of n b ks)"
proof (induction ks arbitrary: err)
  case (Cons e ks)
  show ?case
  proof (cases "lsb e n \<in> set (b_lsbs b)")
    case True
    obtain x where "find (\<lambda>x. lsb x n = lsb e n) (batch_elements b) = Some x"
      using find_element_ok[OF assms True] by (auto simp: find_element_with_lsb_def)
    then show ?thesis
      using True Cons assms by (simp add: Let_def collisions_of_def batch_ok_def)
  next
    case False
    then show ?thesis using Cons assms by (simp add: Let_def collisions_of_def batch_ok_def)
  qed
qed (simp add: collisions_of_def)

lemma check_collisions_eq:
  assumes "batch_ok (Suc n) b"
  shows "check_collisions (Suc n) t b
         = Some (if collisions_of n b (keys t) = [] then Inr () else Inl (collisions_of n b (keys t)))"
  using assms by (simp add: check_collisions_def collisions_loop_eq)

lemma collisions_of_Nil:
  "collisions_of n b ks = [] \<longleftrightarrow>
     (\<lambda>e. lsb e n) ` set ks \<inter> (\<lambda>e. lsb e n) ` set (batch_elements b) = {}"
  by (auto simp: collisions_of_def filter_empty_conv)

lemma collisions_of_sound:
  assumes "c \<in> set (collisions_of n b ks)"
  shows "col_in_tree c \<in> set ks \<and> col_inserted c \<in> set (batch_elements b)
         \<and> lsb (col_in_tree c) n = lsb (col_inserted c) n \<and> col_depth c = Suc n \<and> col_struct c = InTree"
proof -
  obtain e where e: "e \<in> set ks" "lsb e n \<in> (\<lambda>e. lsb e n) ` set (batch_elements b)"
    "c = \<lparr>col_in_tree = e, col_inserted = the (find (\<lambda>x. lsb x n = lsb e n) (batch_elements b)),
          col_depth = Suc n, col_struct = InTree\<rparr>"
    using assms by (auto simp: collisions_of_def)
  obtain x where x: "find (\<lambda>x. lsb x n = lsb e n) (batch_elements b) = Some x"
    using e(2) by (cases "find (\<lambda>x. lsb x n = lsb e n) (batch_elements b)") (auto simp: find_None_iff)
  show ?thesis using e(1,3) x find_SomeD[OF x] by simp
qed

lemma insert_batch_collision:
  assumes "batch_ok (Suc n) b" "collisions_of n b (keys t) \<noteq> []"
  shows "insert_batch hm chash (Suc n) t b = Some (Inl (collisions_of n b (keys t)))"
  using assms by (simp add: insert_batch_def check_collisions_eq)

lemma insert_batch_null:
  assumes "batch_ok (Suc n) b" "collisions_of n b (keys t) = []" "NULL_HASH \<in> set (batch_elements b)"
  shows "insert_batch hm chash (Suc n) t b = None"
proof -
  have "\<exists>e \<in> set (b_entries b). fst e = NULL_HASH" and "b_entries b \<noteq> []"
    using assms(3) by (force simp: batch_elements_def)+
  then show ?thesis
    using assms(1,2) by (simp add: insert_batch_def check_collisions_eq insert_without_hashing_def)
qed

context hash_cache begin

lemma insert_batch_ok:
  assumes inv: "tree_inv hm cinv n t" and n: "n \<le> 256" and b: "batch_ok (Suc n) b"
    and free: "free_in n t (batch_elements b)"
  shows "\<exists>t' ev. insert_batch hm chash (Suc n) t b = Some (Inr (t', ev)) \<and> tree_inv hm cinv n t'
           \<and> t_entries t' = add_entries (t_entries t) (b_entries b)"
proof -
  have el: "batch_elements b = map fst (b_entries b)" by (simp add: batch_elements_def)
  have free': "free_in n t (map fst (b_entries b))" and keyed: "keyed n (map fst (b_entries b))"
    using free b by (simp_all add: el batch_ok_def)
  have "collisions_of n b (keys t) = []"
    using free unfolding collisions_of_Nil free_in_def by blast
  then have chk: "check_collisions (Suc n) t b = Some (Inr ())"
    using b by (simp add: check_collisions_eq)
  obtain tr where tr: "insert_without_hashing hm (Suc n) t (b_entries b)
      = Some (t\<lparr>t_tree := tr, t_entries := add_entries (t_entries t) (b_entries b)\<rparr>, Inr ())"
    "wf_node n tr" "fresh hm n tr"
    "\<forall>q. length q = n \<longrightarrow> node_slot tr q = slots n (map fst (add_entries (t_entries t) (b_entries b))) q"
    using insert_without_hashing_ok[OF inv n free' keyed] by blast
  have "cinv (t_cache t)" using inv by (simp add: tree_inv_def)
  from recalculate_correct[OF tr(2,3) this] obtain tr' c' ev where tr':
    "recalculate_hashes hm chash (t_cache t) tr = Some (tr', c', ev)" "wf_node n tr'" "clean hm n tr'"
    "node_slot tr' = node_slot tr" "cinv c'" by blast
  let ?t = "t\<lparr>t_tree := tr', t_entries := add_entries (t_entries t) (b_entries b), t_cache := c'\<rparr>"
  have "NULL_HASH \<notin> set (keys ?t)"
    using inv free' keys_add_entries[of "t_entries t" "b_entries b"] by (auto simp: tree_inv_def free_in_def)
  moreover have "bt_ok (t_entries ?t)" using inv by (simp add: tree_inv_def add_entries_ok)
  ultimately have "tree_inv hm cinv n ?t"
    using tr' tr(4) keys_after(3)[OF inv free' keyed] by (simp add: tree_inv_def del: map_map)
  moreover have "insert_batch hm chash (Suc n) t b = Some (Inr (?t, ev))"
    by (simp add: insert_batch_def chk tr(1) tr'(1))
  ultimately show ?thesis by (intro exI[of _ ?t]) simp
qed

lemma hash_with_spec:
  assumes inv: "tree_inv hm cinv n t" and n: "n \<le> 256"
    and free: "free_in n t els" and keyed: "keyed n els"
  shows "\<exists>c'. root_hash_with hm chash (Suc n) t els
           = Some (spec_root hm n (slots n (keys t @ els)), t\<lparr>t_cache := c'\<rparr>) \<and> cinv c'"
proof -
  let ?ps = "sort_key snd (map (\<lambda>e. (e, lsb e n)) els)"
  let ?els = "map fst ?ps"
  note srt = sort_lsb[of n els]
  note ins = sorted_insertable[OF srt(2,3) keyed, where t = "t_tree t"]
  have null: "NULL_HASH \<notin> set els" using free by (simp add: free_in_def)
  have slot: "node_slot (t_tree t) (lsb e n) = NULL_HASH" if "e \<in> set els" for e
    by (rule free_in_slot(1)[OF inv n free that])
  have nd: "wf_node n (t_tree t)" "clean hm n (t_tree t)" "cinv (t_cache t)"
    using inv by (simp_all add: tree_inv_def)
  obtain c' where c': "hash_with_inner hm chash (t_cache t) (t_tree t) ?els (map (\<lambda>e. lsb e n) ?els) 0
      = Some (spec_root hm n (slot_upd n 0 ?els (node_slot (t_tree t))), c')" "cinv c'"
    using hash_with_inner_correct[OF nd(1,2) ins(1)[OF null slot] _ n nd(3)] by auto
  have k1: "keyed n (keys t @ els)"
    using inv free keyed by (intro keyed_union) (simp_all only: tree_inv_def free_in_def)
  have s: "set (keys t @ els) = set (?els @ keys t)" using ins(3)[OF null slot] by auto
  have "distinct (?els @ keys t)"
  proof -
    have "mset (?els @ keys t) = mset (keys t @ els)" by (simp only: mset_append srt(2) add.commute)
    moreover have "distinct (keys t @ els)" using k1 by (rule distinct_map[THEN iffD1, THEN conjunct1])
    ultimately show ?thesis by (rule mset_eq_imp_distinct_iff[THEN iffD2])
  qed
  then have k2: "keyed n (?els @ keys t)"
    by (rule keyed_same_set[OF k1 _ s])
  have "slot_upd n 0 ?els (node_slot (t_tree t)) q = slots n (keys t @ els) q" if "length q = n" for q
  proof -
    have "node_slot (t_tree t) q = slots n (keys t) q" using inv that by (simp add: tree_inv_def)
    then have "slot_upd n 0 ?els (node_slot (t_tree t)) q = slot_upd n 0 ?els (slots n (keys t)) q"
      by (simp only: slot_upd_def)
    also have "\<dots> = slots n (keys t @ ?els) q" using k2 by (rule slots_append)
    also have "\<dots> = slots n (keys t @ els) q"
      by (rule slots_set[OF _ k1, THEN fun_cong])
        (use k2 ins(3)[OF null slot] in \<open>auto simp del: map_map\<close>)
    finally show ?thesis .
  qed
  then have "spec_root hm n (slot_upd n 0 ?els (node_slot (t_tree t)))
      = spec_root hm n (slots n (keys t @ els))" by (intro spec_root_cong) simp
  with c' srt(1) show ?thesis
    by (intro exI[of _ c'] conjI) (simp_all add: root_hash_with_def hash_with_def del: map_map)
qed

end

end
