(* ===== verification/Smirk_Path.thy ===== *)
theory Smirk_Path
  imports Smirk_Correct
begin

text \<open>
  The correctness of Merkle paths: the siblings that \<open>path_for\<close> collects are the roots beside the
  way to the element's slot, so a path computes the root the tree has with any element in that
  slot, and no element but the one in the slot is proved unless two different pairs that were hashed
  have the same hash.
\<close>

section \<open>The siblings beside a way through the tree\<close>

fun spec_siblings :: "('a \<Rightarrow> 'a \<Rightarrow> 'a) \<Rightarrow> (bool list \<Rightarrow> 'a) \<Rightarrow> bool list \<Rightarrow> 'a list" where
  "spec_siblings hm f [] = []"
| "spec_siblings hm f (b # q) =
     spec_root hm (length q) (\<lambda>p. f ((\<not> b) # p)) # spec_siblings hm (\<lambda>p. f (b # p)) q"

lemma length_spec_siblings [simp]: "length (spec_siblings hm f q) = length q"
  by (induction q arbitrary: f) auto

lemma spec_siblings_null:
  "spec_siblings hm (\<lambda>_. NULL_HASH) q
   = map (\<lambda>d. empty_spec hm (d - 1)) (rev [1..<Suc (length q)])"
  by (induction q) (auto simp: spec_root_null)

lemma spec_siblings_cong:
  "(\<And>p. length p = length q \<Longrightarrow> f p = g p) \<Longrightarrow> spec_siblings hm f q = spec_siblings hm g q"
proof (induction q arbitrary: f g)
  case (Cons b q)
  have "spec_root hm (length q) (\<lambda>p. f ((\<not> b) # p)) = spec_root hm (length q) (\<lambda>p. g ((\<not> b) # p))"
    by (rule spec_root_cong) (simp add: Cons.prems)
  moreover have "spec_siblings hm (\<lambda>p. f (b # p)) q = spec_siblings hm (\<lambda>p. g (b # p)) q"
    by (rule Cons.IH) (simp add: Cons.prems)
  ultimately show ?case by simp
qed simp

lemma merkle_root_siblings:
  "compute_merkle_root hm x (zip (rev (spec_siblings hm f q)) (rev q))
   = spec_root hm (length q) (f(q := x))"
proof (induction q arbitrary: f)
  case (Cons b q)
  have upd: "(\<lambda>p. (f(b # q := x)) (c # p)) = (if c = b then (\<lambda>p. f (b # p))(q := x) else (\<lambda>p. f (c # p)))" for c
    by (auto simp: fun_eq_iff)
  show ?case
    by (cases b) (simp_all add: compute_merkle_root_append Cons upd)
qed simp

section \<open>The loops of path\_for\<close>

lemma set_sibling_eq:
  "i < length xs \<Longrightarrow> set_sibling xs i e = Some (take i xs @ [e] @ drop (Suc i) xs)"
  by (simp add: set_sibling_def upd_conv_take_nth_drop)

lemma fill_empty_eq:
  assumes "i + length ds \<le> length xs" "0 \<notin> set ds"
  shows "fill_empty hm xs i ds
         = Some (take i xs @ map (\<lambda>d. empty_spec hm (d - 1)) ds @ drop (i + length ds) xs)"
  using assms
proof (induction ds arbitrary: i xs)
  case (Cons d ds)
  obtain m where d: "d = Suc m" using Cons.prems(2) by (cases d) auto
  let ?xs = "take i xs @ [empty_spec hm m] @ drop (Suc i) xs"
  have "set_sibling xs i (empty_spec hm m) = Some ?xs"
    using Cons.prems(1) by (intro set_sibling_eq) simp
  moreover have "fill_empty hm ?xs (i + 1) ds
      = Some (take (i + 1) ?xs @ map (\<lambda>d. empty_spec hm (d - 1)) ds @ drop (i + 1 + length ds) ?xs)"
    using Cons.prems by (intro Cons.IH) auto
  moreover have "min (length xs) i = i" using Cons.prems(1) by simp
  ultimately show ?case using Cons.prems(1) by (simp add: d add.commute)
qed simp

lemma path_walk_eq:
  assumes "wf_node (length q) t" "clean hm (length q) t" "i + length q \<le> length xs"
  shows "path_walk hm t xs i q
         = Some (take i xs @ spec_siblings hm (node_slot t) q @ drop (i + length q) xs)"
  using assms
proof (induction q arbitrary: t i xs)
  case (Cons b q)
  show ?case
  proof (cases t)
    case (Leaf e)
    with Cons.prems(1) show ?thesis by simp
  next
    case (Empty d)
    with Cons.prems(1) have d: "d = Suc (length (b # q))" by simp
    have ds: "length (rev [1..<d]) = length (b # q)" by (simp only: d length_rev length_upt)
    have "fill_empty hm xs i (rev [1..<d])
        = Some (take i xs @ map (\<lambda>d. empty_spec hm (d - 1)) (rev [1..<d]) @ drop (i + length (b # q)) xs)"
      using Cons.prems(3) fill_empty_eq[of i "rev [1..<d]" xs hm] unfolding ds by simp
    moreover have "spec_siblings hm (node_slot (Empty d)) (b # q)
        = map (\<lambda>d. empty_spec hm (d - 1)) (rev [1..<d])"
      using spec_siblings_null[of hm "b # q"] unfolding node_slot_Empty d .
    ultimately show ?thesis unfolding Empty path_walk.simps by simp
  next
    case (Parent l r h d)
    have wf: "wf_node (length q) l" "wf_node (length q) r" "clean hm (length q) l" "clean hm (length q) r"
      using Cons.prems(1,2) by (simp_all add: Parent)
    let ?s = "spec_root hm (length q) (\<lambda>p. node_slot t ((\<not> b) # p))"
    let ?t = "if b then r else l"
    let ?xs = "take i xs @ [?s] @ drop (Suc i) xs"
    have "path_walk hm t xs i (b # q) = path_walk hm ?t ?xs (i + 1) q"
      using Cons.prems(3) node_hash_clean[OF wf(1,3)] node_hash_clean[OF wf(2,4)]
      by (cases b) (simp_all add: Parent set_sibling_eq)
    also have "\<dots> = Some (take (i + 1) ?xs @ spec_siblings hm (node_slot ?t) q
        @ drop (i + 1 + length q) ?xs)"
      using Cons.prems(3) wf by (intro Cons.IH) auto
    also have "\<dots> = Some (take i xs @ spec_siblings hm (node_slot t) (b # q)
        @ drop (i + length (b # q)) xs)"
    proof -
      have "min (length xs) i = i" using Cons.prems(3) by simp
      moreover have "node_slot ?t = (\<lambda>p. node_slot t (b # p))" by (simp add: Parent fun_eq_iff)
      ultimately show ?thesis using Cons.prems(3) by (simp add: add.commute)
    qed
    finally show ?thesis .
  qed
qed simp

lemma path_for_eq:
  assumes inv: "tree_inv hm cinv n t" and n: "n \<le> 256"
  shows "path_for hm (Suc n) t e
         = Some \<lparr>p_siblings = rev (spec_siblings hm (slots n (keys t)) (lsb e n)) @ [e],
                 p_root_hash = spec_root hm n (slots n (keys t))\<rparr>"
proof -
  have len: "length (lsb e n) = n" using n by simp
  have nd: "wf_node (length (lsb e n)) (t_tree t)" "clean hm (length (lsb e n)) (t_tree t)"
    using inv by (simp_all add: tree_inv_def len)
  have "spec_siblings hm (node_slot (t_tree t)) (lsb e n) = spec_siblings hm (slots n (keys t)) (lsb e n)"
    using inv by (intro spec_siblings_cong) (simp add: tree_inv_def len)
  moreover have "drop n (replicate (Suc n) NULL_HASH) = [NULL_HASH]"
    by (simp only: drop_replicate) simp
  ultimately have "path_walk hm (t_tree t) (replicate (Suc n) NULL_HASH) 0 (lsb e n)
      = Some (spec_siblings hm (slots n (keys t)) (lsb e n) @ [NULL_HASH])"
    using path_walk_eq[OF nd, of 0 "replicate (Suc n) NULL_HASH"] by (simp add: len del: replicate.simps)
  then show ?thesis
    by (simp add: path_for_def root_hash_spec[OF inv] len Let_def)
qed

lemma path_root:
  assumes "n \<le> 256"
  shows "compute_root_hash hm (Suc n)
           \<lparr>p_siblings = rev (spec_siblings hm f (lsb e n)) @ [e], p_root_hash = h\<rparr> x
         = spec_root hm n (f(lsb e n := x))"
  using assms merkle_root_siblings[of hm x f "lsb e n"]
  by (simp add: compute_root_hash_def siblings_deepest_first_def path_lsb_def path_element_def)

section \<open>Insertion with paths (insert.rs)\<close>

text \<open>Each path leads from the root before its element was inserted to the root after it.\<close>

fun linked ::
  "(element \<Rightarrow> element \<Rightarrow> element) \<Rightarrow> nat \<Rightarrow> element \<Rightarrow> path list \<Rightarrow> element list \<Rightarrow> element \<Rightarrow> bool" where
  "linked hm N h [] [] h' \<longleftrightarrow> h = h'"
| "linked hm N h (p # ps) (e # es) h' \<longleftrightarrow>
     compute_root_hash hm N p NULL_HASH = h \<and> proves hm N p e
     \<and> linked hm N (compute_root_hash hm N p e) ps es h'"
| "linked hm N h _ _ h' \<longleftrightarrow> False"

context hash_cache begin

lemma tree_insert_ok:
  assumes inv: "tree_inv hm cinv n t" and n: "n \<le> 256" and free: "free_in n t [e]"
  shows "\<exists>t'. tree_insert hm chash (Suc n) t e v = Some (Inr t') \<and> tree_inv hm cinv n t'
           \<and> t_entries t' = bt_insert e v (t_entries t)"
proof -
  obtain b where b: "batch_single (Suc n) e v = Some b" "batch_ok (Suc n) b" "b_entries b = [(e, v)]"
    using batch_single_ok[of "Suc n" e v] by blast
  have "free_in n t (batch_elements b)" using free by (simp add: batch_elements_def b(3))
  from insert_batch_ok[OF inv n b(2) this] show ?thesis
    by (auto simp: tree_insert_def b)
qed

lemma path_after_insert:
  assumes inv: "tree_inv hm cinv n t" "tree_inv hm cinv n t'" and n: "n \<le> 256"
    and free: "free_in n t [e]" and new: "t_entries t' = bt_insert e v (t_entries t)"
    and p: "path_for hm (Suc n) t' e = Some p"
  shows "compute_root_hash hm (Suc n) p NULL_HASH = spec_root hm n (slots n (keys t))"
    and "compute_root_hash hm (Suc n) p e = spec_root hm n (slots n (keys t'))"
    and "proves hm (Suc n) p e"
proof -
  have free': "free_in n t (map fst [(e, v)])" using free by simp
  have new': "t_entries t' = add_entries (t_entries t) [(e, v)]" using new by simp
  have slot: "slots n (keys t') = (slots n (keys t))(lsb e n := e)"
  proof
    fix q
    have "slots n (keys t') q = slots n (keys t @ [e]) q"
      using keys_after[OF inv(1) free'] unfolding new' by (intro slots_set[THEN fun_cong]) simp_all
    also have "\<dots> = slot_upd n 0 [e] (slots n (keys t)) q"
      using keys_after(2)[OF inv(1) free'] by (intro slots_append[symmetric]) auto
    finally show "slots n (keys t') q = ((slots n (keys t))(lsb e n := e)) q"
      by (simp add: slot_upd_def)
  qed
  have null: "slots n (keys t) (lsb e n) = NULL_HASH"
    using free by (intro slots_free) (auto simp: free_in_def)
  note p' = p[unfolded path_for_eq[OF inv(2) n] option.inject, symmetric]
  show "compute_root_hash hm (Suc n) p NULL_HASH = spec_root hm n (slots n (keys t))"
    unfolding p' path_root[OF n] slot by (simp add: null[symmetric])
  show r: "compute_root_hash hm (Suc n) p e = spec_root hm n (slots n (keys t'))"
    unfolding p' path_root[OF n] slot by simp
  show "proves hm (Suc n) p e"
    unfolding proves_def r unfolding p' by (simp add: actual_root_hash_def)
qed

lemma insert_with_paths_ok:
  assumes "tree_inv hm cinv n t" "n \<le> 256" "free_in n t (map fst es)" "keyed n (map fst es)"
    and "root_hash hm t = Some h"
  shows "\<exists>t' ps h'. insert_with_paths hm chash (Suc n) t es = Some (t', Inr ps)
           \<and> tree_inv hm cinv n t' \<and> t_entries t' = add_entries (t_entries t) es
           \<and> root_hash hm t' = Some h' \<and> linked hm (Suc n) h ps (map fst es) h'"
  using assms(1,3-)
proof (induction es arbitrary: t h)
  case (Cons a es)
  obtain e v where a: "a = (e, v)" by (cases a)
  have free: "free_in n t [e]" using Cons.prems(2) by (auto simp: free_in_def a)
  obtain t1 where t1: "tree_insert hm chash (Suc n) t e v = Some (Inr t1)" "tree_inv hm cinv n t1"
    "t_entries t1 = bt_insert e v (t_entries t)"
    using tree_insert_ok[OF Cons.prems(1) assms(2) free] by blast
  obtain p where p: "path_for hm (Suc n) t1 e = Some p"
    using path_for_eq[OF t1(2) assms(2)] by blast
  note pp = path_after_insert[OF Cons.prems(1) t1(2) assms(2) free t1(3) p]
  have "free_in n t1 (map fst es)"
    using Cons.prems(2,3) by (auto simp: free_in_def a t1(3))
  moreover have "keyed n (map fst es)" using Cons.prems(3) by simp
  ultimately obtain t' ps h' where rest: "insert_with_paths hm chash (Suc n) t1 es = Some (t', Inr ps)"
    "tree_inv hm cinv n t'" "t_entries t' = add_entries (t_entries t1) es" "root_hash hm t' = Some h'"
    "linked hm (Suc n) (spec_root hm n (slots n (keys t1))) ps (map fst es) h'"
    using Cons.IH[OF t1(2) _ _ root_hash_spec[OF t1(2)]] by blast
  have "h = spec_root hm n (slots n (keys t))"
    using Cons.prems(4) root_hash_spec[OF Cons.prems(1)] by simp
  then show ?case using t1 p pp rest by (simp add: a)
qed auto

end

end
