(* ===== verification/Smirk_Props.thy ===== *)
theory Smirk_Props
  imports Smirk_Path
begin

text \<open>
  The properties of the sparse Merkle tree \<open>smirk\<close>, over the operations of the code with the
  \<open>SimpleHashCache\<close> that the persistent tree uses. Trees have \<open>DEPTH = Suc n\<close> with \<open>n \<le> 256\<close>, the
  number of bits of an element.
\<close>

text \<open>A concrete merge of two elements and a concrete batch, to run the operations on.\<close>

definition sum_hash :: "element \<Rightarrow> element \<Rightarrow> element" where
  "sum_hash l r = 3 * l + 5 * r + 7"

definition two_batch :: "bool batch" where
  "two_batch = \<lparr>b_entries = [(1, True), (2, False)], b_lsbs = [lsb 1 2, lsb 2 2]\<rparr>"

abbreviation fresh_tree :: "nat \<Rightarrow> ('v, simple_cache) smirk_tree" where
  "fresh_tree n \<equiv> new_with_cache (Suc n) simple_cache_new"

lemma fresh_tree_inv [simp]: "tree_inv hm (simple_cache_ok hm) n (fresh_tree n)"
  by (intro tree_inv_new simple_cache_new_ok)

lemma two_le: "(2::nat) \<le> 256"
  by simp

lemma two_batch_ok [simp]: "batch_ok (Suc 2) two_batch"
  by code_simp

lemma two_batch_free [simp]: "free_in 2 (fresh_tree 2) (batch_elements two_batch)"
  by code_simp

text \<open>
  C13: inserting a batch of non-null elements whose slots are free succeeds; the new tree satisfies
  the invariant, maps exactly the old entries and those of the batch, and its root hash is the Merkle
  root of the slots of all its elements.
\<close>

theorem insert_batch_spec:
  assumes "tree_inv hm (simple_cache_ok hm) n t" "n \<le> 256" "batch_ok (Suc n) b"
    and "free_in n t (batch_elements b)"
  shows "\<exists>t' ev. insert_batch hm (simple_hash hm) (Suc n) t b = Some (Inr (t', ev))
           \<and> tree_inv hm (simple_cache_ok hm) n t'
           \<and> map_of (t_entries t') = map_of (t_entries t) ++ map_of (rev (b_entries b))
           \<and> root_hash hm t' = Some (spec_root hm n (slots n (keys t @ batch_elements b)))"
proof -
  obtain t' ev where t': "insert_batch hm (simple_hash hm) (Suc n) t b = Some (Inr (t', ev))"
    "tree_inv hm (simple_cache_ok hm) n t'" "t_entries t' = add_entries (t_entries t) (b_entries b)"
    using simple.insert_batch_ok[OF assms] by blast
  have "free_in n t (map fst (b_entries b))" "keyed n (map fst (b_entries b))"
    using assms(3,4) by (simp_all add: batch_ok_def batch_elements_def)
  note k = keys_after[OF assms(1) this]
  have "slots n (keys t') = slots n (keys t @ batch_elements b)"
    unfolding t'(3) batch_elements_def by (rule slots_set[OF k(3,2,1)])
  then show ?thesis
    using t' root_hash_spec[OF t'(2)] by (auto simp: map_of_add_entries)
qed

theorem insert_batch_spec_witness:
  "\<exists>t' ev. insert_batch sum_hash (simple_hash sum_hash) 3 (fresh_tree 2) two_batch = Some (Inr (t', ev))
     \<and> tree_get t' 2 = Some False
     \<and> root_hash sum_hash t' = Some (spec_root sum_hash 2 (slots 2 [1, 2]))"
proof -
  from insert_batch_spec[OF fresh_tree_inv two_le two_batch_ok two_batch_free, of sum_hash]
  obtain t' ev where "insert_batch sum_hash (simple_hash sum_hash) (Suc 2) (fresh_tree 2) two_batch
      = Some (Inr (t', ev))"
    "map_of (t_entries t') = map_of (t_entries (fresh_tree 2)) ++ map_of (rev (b_entries two_batch))"
    "root_hash sum_hash t' = Some (spec_root sum_hash 2
       (slots 2 (keys (fresh_tree 2 :: (bool, simple_cache) smirk_tree) @ batch_elements two_batch)))"
    by blast
  then show ?thesis
    by (simp add: tree_get_def two_batch_def batch_elements_def new_with_cache_def)
qed

text \<open>
  C34: inserting a batch never fails silently. If the slot of an element of the tree is also the slot
  of an element of the batch, the call returns one collision for each such element of the tree, in
  their order, naming two elements with the same slot; and otherwise a null element in the batch makes
  the call panic.
\<close>

theorem insert_batch_errors:
  assumes "batch_ok (Suc n) b"
  shows "if collisions_of n b (keys t) \<noteq> []
         then insert_batch hm chash (Suc n) t b = Some (Inl (collisions_of n b (keys t)))
              \<and> map col_in_tree (collisions_of n b (keys t))
                = filter (\<lambda>e. lsb e n \<in> set (b_lsbs b)) (keys t)
              \<and> (\<forall>c \<in> set (collisions_of n b (keys t)).
                   col_inserted c \<in> set (batch_elements b)
                   \<and> collides_with (Suc n) (col_in_tree c) (col_inserted c))
         else NULL_HASH \<in> set (batch_elements b) \<longrightarrow> insert_batch hm chash (Suc n) t b = None"
proof -
  have "map col_in_tree (collisions_of n b (keys t)) = filter (\<lambda>e. lsb e n \<in> set (b_lsbs b)) (keys t)"
    using assms by (simp add: collisions_of_def batch_ok_def comp_def)
  then show ?thesis
    using insert_batch_collision[OF assms, of t hm chash] insert_batch_null[OF assms, of t hm chash]
      collisions_of_sound by (auto simp: collides_with_def)
qed

theorem insert_batch_errors_witness:
  "\<exists>t' ev c. insert_batch sum_hash (simple_hash sum_hash) 3 (fresh_tree 2) two_batch = Some (Inr (t', ev))
     \<and> insert_batch sum_hash (simple_hash sum_hash) 3 t' two_batch = Some (Inl c)"
proof -
  obtain t' ev where t': "insert_batch sum_hash (simple_hash sum_hash) (Suc 2) (fresh_tree 2) two_batch
      = Some (Inr (t', ev))"
    "t_entries t' = add_entries (t_entries (fresh_tree 2)) (b_entries two_batch)"
    using simple.insert_batch_ok[OF fresh_tree_inv two_le two_batch_ok two_batch_free] by fastforce
  have "keys t' = [1, 2]" by (simp add: t'(2) new_with_cache_def two_batch_def)
  then have "collisions_of 2 two_batch (keys t') \<noteq> []"
    by (simp add: collisions_of_def two_batch_def batch_elements_def)
  with insert_batch_errors[OF two_batch_ok, of t' sum_hash "simple_hash sum_hash"] t'(1)
  show ?thesis by simp
qed

text \<open>
  C22: \<open>root_hash_with\<close> computes, without changing the entries, the root hash the tree has after the
  extra elements are inserted.
\<close>

theorem root_hash_with_insert:
  assumes "tree_inv hm (simple_cache_ok hm) n t" "n \<le> 256" "batch_ok (Suc n) b"
    and "free_in n t (batch_elements b)"
  shows "\<exists>h u t' ev. root_hash_with hm (simple_hash hm) (Suc n) t (batch_elements b) = Some (h, u)
           \<and> tree_inv hm (simple_cache_ok hm) n u \<and> t_entries u = t_entries t \<and> t_tree u = t_tree t
           \<and> insert_batch hm (simple_hash hm) (Suc n) u b = Some (Inr (t', ev))
           \<and> root_hash hm t' = Some h"
proof -
  have "keyed n (batch_elements b)" using assms(3) by (simp add: batch_ok_def)
  from simple.hash_with_spec[OF assms(1,2,4) this] obtain c' where c':
    "root_hash_with hm (simple_hash hm) (Suc n) t (batch_elements b)
       = Some (spec_root hm n (slots n (keys t @ batch_elements b)), t\<lparr>t_cache := c'\<rparr>)"
    "simple_cache_ok hm c'" by blast
  let ?u = "t\<lparr>t_cache := c'\<rparr>"
  have inv: "tree_inv hm (simple_cache_ok hm) n ?u" using assms(1) c'(2) by (simp add: tree_inv_def)
  have free: "free_in n ?u (batch_elements b)" using assms(4) by (simp add: free_in_def)
  obtain t' ev where t': "insert_batch hm (simple_hash hm) (Suc n) ?u b = Some (Inr (t', ev))"
    "tree_inv hm (simple_cache_ok hm) n t'" "t_entries t' = add_entries (t_entries ?u) (b_entries b)"
    using simple.insert_batch_ok[OF inv assms(2,3) free] by blast
  have "free_in n ?u (map fst (b_entries b))" "keyed n (map fst (b_entries b))"
    using assms(3) free by (simp_all add: batch_ok_def batch_elements_def)
  note k = keys_after[OF inv this]
  have "slots n (keys t') = slots n (keys ?u @ batch_elements b)"
    unfolding t'(3) batch_elements_def by (rule slots_set[OF k(3,2,1)])
  then show ?thesis
    using c'(1) inv t'(1) root_hash_spec[OF t'(2)] by (intro exI conjI) simp_all
qed

theorem root_hash_with_insert_witness:
  "\<exists>h u t' ev. root_hash_with sum_hash (simple_hash sum_hash) 3 (fresh_tree 2) [1, 2] = Some (h, u)
     \<and> insert_batch sum_hash (simple_hash sum_hash) 3 u two_batch = Some (Inr (t', ev))
     \<and> root_hash sum_hash t' = Some h"
  using root_hash_with_insert[OF fresh_tree_inv two_le two_batch_ok two_batch_free, of sum_hash]
  by (auto simp: batch_elements_def two_batch_def)

text \<open>
  C23: the root hash does not depend on how a set of entries is inserted: inserting the merge of two
  batches, the two batches one after the other, or in the opposite order gives trees with the same
  entries and the same root hash.
\<close>

theorem insert_order_irrelevant:
  assumes inv: "tree_inv hm (simple_cache_ok hm) n t" and n: "n \<le> 256"
    and b: "batch_ok (Suc n) b1" "batch_ok (Suc n) b2" "set (b_lsbs b1) \<inter> set (b_lsbs b2) = {}"
    and free: "free_in n t (batch_elements b1)" "free_in n t (batch_elements b2)"
  shows "\<exists>b t0 t1 t2 t3 t4 e0 e1 e2 e3 e4. batch_merge (Suc n) b1 b2 = Some (Inr b)
           \<and> insert_batch hm (simple_hash hm) (Suc n) t b = Some (Inr (t0, e0))
           \<and> insert_batch hm (simple_hash hm) (Suc n) t b1 = Some (Inr (t1, e1))
           \<and> insert_batch hm (simple_hash hm) (Suc n) t1 b2 = Some (Inr (t2, e2))
           \<and> insert_batch hm (simple_hash hm) (Suc n) t b2 = Some (Inr (t3, e3))
           \<and> insert_batch hm (simple_hash hm) (Suc n) t3 b1 = Some (Inr (t4, e4))
           \<and> t_entries t2 = t_entries t0 \<and> t_entries t4 = t_entries t0
           \<and> root_hash hm t2 = root_hash hm t0 \<and> root_hash hm t4 = root_hash hm t0"
proof -
  obtain b where m: "batch_merge (Suc n) b1 b2 = Some (Inr b)" "batch_ok (Suc n) b"
    "b_entries b = b_entries b1 @ b_entries b2"
    using batch_merge_ok[OF b] by blast
  have lsbs: "(\<lambda>e. lsb e n) ` set (batch_elements b1) \<inter> (\<lambda>e. lsb e n) ` set (batch_elements b2) = {}"
    using b by (simp add: batch_ok_def)
  have "free_in n t (batch_elements b)"
    using free by (auto simp: free_in_def batch_elements_def m(3) image_Un Int_Un_distrib)
  from simple.insert_batch_ok[OF inv n m(2) this] obtain t0 e0 where t0:
    "insert_batch hm (simple_hash hm) (Suc n) t b = Some (Inr (t0, e0))"
    "tree_inv hm (simple_cache_ok hm) n t0" "t_entries t0 = add_entries (t_entries t) (b_entries b)" by blast
  obtain t1 e1 where t1: "insert_batch hm (simple_hash hm) (Suc n) t b1 = Some (Inr (t1, e1))"
    "tree_inv hm (simple_cache_ok hm) n t1" "t_entries t1 = add_entries (t_entries t) (b_entries b1)"
    using simple.insert_batch_ok[OF inv n b(1) free(1)] by blast
  obtain t3 e3 where t3: "insert_batch hm (simple_hash hm) (Suc n) t b2 = Some (Inr (t3, e3))"
    "tree_inv hm (simple_cache_ok hm) n t3" "t_entries t3 = add_entries (t_entries t) (b_entries b2)"
    using simple.insert_batch_ok[OF inv n b(2) free(2)] by blast
  have f1: "free_in n t1 (batch_elements b2)"
    using free_in_add[OF free(2)[unfolded batch_elements_def] _ t1(3)] lsbs
    by (simp add: batch_elements_def)
  have f3: "free_in n t3 (batch_elements b1)"
    using free_in_add[OF free(1)[unfolded batch_elements_def] _ t3(3)] lsbs
    by (simp add: batch_elements_def Int_commute)
  obtain t2 e2 where t2: "insert_batch hm (simple_hash hm) (Suc n) t1 b2 = Some (Inr (t2, e2))"
    "tree_inv hm (simple_cache_ok hm) n t2" "t_entries t2 = add_entries (t_entries t1) (b_entries b2)"
    using simple.insert_batch_ok[OF t1(2) n b(2) f1] by blast
  obtain t4 e4 where t4: "insert_batch hm (simple_hash hm) (Suc n) t3 b1 = Some (Inr (t4, e4))"
    "tree_inv hm (simple_cache_ok hm) n t4" "t_entries t4 = add_entries (t_entries t3) (b_entries b1)"
    using simple.insert_batch_ok[OF t3(2) n b(1) f3] by blast
  have e2: "t_entries t2 = t_entries t0"
    by (simp add: t0(3) t1(3) t2(3) m(3) add_entries_append)
  have bt: "bt_ok (t_entries t)" using inv by (simp add: tree_inv_def)
  have dis: "fst ` set (b_entries b1) \<inter> fst ` set (b_entries b2) = {}"
    using lsbs unfolding batch_elements_def set_map by (rule disjoint_keys)
  have e4: "t_entries t4 = t_entries t0"
    by (simp only: t0(3) t3(3) t4(3) m(3) add_entries_append add_entries_swap[OF bt dis])
  have "root_hash hm t2 = root_hash hm t0" "root_hash hm t4 = root_hash hm t0"
    by (simp_all only: root_hash_spec[OF t0(2)] root_hash_spec[OF t2(2)] root_hash_spec[OF t4(2)] e2 e4)
  with m(1) t0(1) t1(1) t2(1) t3(1) t4(1) e2 e4 show ?thesis by blast
qed

theorem insert_order_irrelevant_witness:
  "\<exists>t1 t2 t3 t4 e1 e2 e3 e4.
     insert_batch sum_hash (simple_hash sum_hash) 3 (fresh_tree 2)
       \<lparr>b_entries = [(1, True)], b_lsbs = [[False, True]]\<rparr> = Some (Inr (t1, e1))
     \<and> insert_batch sum_hash (simple_hash sum_hash) 3 t1
       \<lparr>b_entries = [(2, False)], b_lsbs = [[True, False]]\<rparr> = Some (Inr (t2, e2))
     \<and> insert_batch sum_hash (simple_hash sum_hash) 3 (fresh_tree 2)
       \<lparr>b_entries = [(2, False)], b_lsbs = [[True, False]]\<rparr> = Some (Inr (t3, e3))
     \<and> insert_batch sum_hash (simple_hash sum_hash) 3 t3
       \<lparr>b_entries = [(1, True)], b_lsbs = [[False, True]]\<rparr> = Some (Inr (t4, e4))
     \<and> root_hash sum_hash t2 = root_hash sum_hash t4"
proof -
  let ?b1 = "\<lparr>b_entries = [(1 :: element, True)], b_lsbs = [[False, True]]\<rparr>"
  let ?b2 = "\<lparr>b_entries = [(2 :: element, False)], b_lsbs = [[True, False]]\<rparr>"
  have b: "batch_ok (Suc 2) ?b1" "batch_ok (Suc 2) ?b2" "set (b_lsbs ?b1) \<inter> set (b_lsbs ?b2) = {}"
    by (code_simp, code_simp, simp)
  have f: "free_in 2 (fresh_tree 2) (batch_elements ?b1)" "free_in 2 (fresh_tree 2) (batch_elements ?b2)"
    by code_simp+
  show ?thesis
    using insert_order_irrelevant[OF fresh_tree_inv two_le b f, of sum_hash]
    by (simp only: numeral_3_eq_3 numeral_2_eq_2) metis
qed

text \<open>
  C21: \<open>path_for\<close> always yields a path: it has \<open>DEPTH - 1\<close> siblings, remembers its element and the
  root hash, and computes for any element the Merkle root of the tree with that element in the slot.
  So it proves the element when the tree contains it, and the null element when the slot is free.
\<close>

theorem path_for_spec:
  assumes "tree_inv hm cinv n t" "n \<le> 256"
  shows "\<exists>p. path_for hm (Suc n) t e = Some p
           \<and> length (siblings_deepest_first (Suc n) p) = n \<and> path_element p = e
           \<and> root_hash hm t = Some (actual_root_hash p)
           \<and> (\<forall>x. compute_root_hash hm (Suc n) p x = spec_root hm n ((slots n (keys t))(lsb e n := x)))
           \<and> proves hm (Suc n) p (slots n (keys t) (lsb e n))
           \<and> (contains_element t e \<longrightarrow> proves hm (Suc n) p e)
           \<and> ((\<forall>x \<in> set (keys t). lsb x n \<noteq> lsb e n) \<longrightarrow> proves hm (Suc n) p NULL_HASH)"
proof -
  let ?p = "\<lparr>p_siblings = rev (spec_siblings hm (slots n (keys t)) (lsb e n)) @ [e],
             p_root_hash = spec_root hm n (slots n (keys t))\<rparr>"
  have proved: "proves hm (Suc n) ?p (slots n (keys t) (lsb e n))"
    unfolding proves_def path_root[OF assms(2)] by (simp add: actual_root_hash_def)
  have "slots n (keys t) (lsb e n) = e" if "contains_element t e"
    using that assms tree_contains_slot[OF assms] by (simp add: tree_inv_def)
  moreover have "slots n (keys t) (lsb e n) = NULL_HASH" if "\<forall>x \<in> set (keys t). lsb x n \<noteq> lsb e n"
    using that by (intro slots_free) (metis imageE)
  ultimately show ?thesis
    using path_for_eq[OF assms, of e] proved path_root[OF assms(2)] root_hash_spec[OF assms(1)] assms(2)
    by (auto simp: siblings_deepest_first_def path_element_def actual_root_hash_def)
qed

theorem path_for_spec_witness:
  "\<exists>(t :: (bool, simple_cache) smirk_tree) p. t_entries t = [(1, True), (2, False)] \<and> path_for sum_hash (Suc 2) t 5 = Some p
     \<and> proves sum_hash (Suc 2) p 1"
proof -
  obtain t ev where t: "tree_inv sum_hash (simple_cache_ok sum_hash) 2 t"
    "t_entries t = add_entries (t_entries (fresh_tree 2)) (b_entries two_batch)"
    using simple.insert_batch_ok[OF fresh_tree_inv two_le two_batch_ok two_batch_free] by blast
  have e: "t_entries t = [(1, True), (2, False)]"
    by (simp add: t(2) new_with_cache_def two_batch_def)
  have "slots 2 [1, 2] (lsb 5 2) = 1" by code_simp
  moreover obtain p where p: "path_for sum_hash (Suc 2) t 5 = Some p"
    and "proves sum_hash (Suc 2) p (slots 2 (keys t) (lsb 5 2))"
    using path_for_spec[OF t(1) two_le, of 5] by blast
  ultimately have "proves sum_hash (Suc 2) p 1" by (simp add: e)
  with p e show ?thesis by blast
qed

text \<open>
  C35: a path of a tree proves no other element than the one in its slot, as long as no two
  different pairs that the two root computations hash have the same hash.
\<close>

theorem path_binding:
  assumes "tree_inv hm cinv n t" "n \<le> 256" "path_for hm (Suc n) t e = Some p"
    and "proves hm (Suc n) p x"
    and "inj_on (\<lambda>(l, r). hm l r)
          (set (merkle_pairs hm x (zip (siblings_deepest_first (Suc n) p) (rev (path_lsb (Suc n) p))))
           \<union> set (merkle_pairs hm (slots n (keys t) (lsb e n))
                (zip (siblings_deepest_first (Suc n) p) (rev (path_lsb (Suc n) p)))))"
  shows "x = slots n (keys t) (lsb e n)"
proof -
  note p = assms(3)[unfolded path_for_eq[OF assms(1,2)] option.inject, symmetric]
  have "proves hm (Suc n) p (slots n (keys t) (lsb e n))"
    unfolding p proves_def path_root[OF assms(2)] by (simp add: actual_root_hash_def)
  then have "compute_root_hash hm (Suc n) p x
      = compute_root_hash hm (Suc n) p (slots n (keys t) (lsb e n))"
    using assms(4) by (simp add: proves_def)
  then show ?thesis
    unfolding compute_root_hash_def by (rule compute_merkle_root_inject[OF _ assms(5)])
qed

theorem path_binding_witness:
  "\<exists>p. path_for sum_hash (Suc 1) (fresh_tree 1 :: (bool, simple_cache) smirk_tree) 1 = Some p
     \<and> (\<forall>x \<in> {1, 5, 7}. \<not> proves sum_hash (Suc 1) p x)"
proof -
  let ?t = "fresh_tree 1 :: (bool, simple_cache) smirk_tree"
  let ?p = "\<lparr>p_siblings = [0, 1], p_root_hash = 7\<rparr>"
  have one: "(1::nat) \<le> 256" by simp
  have keys: "keys ?t = []" by (simp add: new_with_cache_def)
  have slot: "slots 1 (keys ?t) (lsb 1 1) = 0" unfolding keys by code_simp
  have "rev (spec_siblings sum_hash (slots 1 []) (lsb 1 1)) @ [1] = [0, 1]"
    and "spec_root sum_hash 1 (slots 1 []) = 7" by code_simp+
  then have p: "path_for sum_hash (Suc 1) ?t 1 = Some ?p"
    unfolding path_for_eq[OF fresh_tree_inv one] keys by simp
  have pairs: "set (merkle_pairs sum_hash x (zip (siblings_deepest_first (Suc 1) ?p)
      (rev (path_lsb (Suc 1) ?p)))) = {(0, x)}" for x
  proof -
    have "zip (siblings_deepest_first (Suc 1) ?p) (rev (path_lsb (Suc 1) ?p)) = [(0, True)]"
      by code_simp
    then show ?thesis by simp
  qed
  have "\<not> proves sum_hash (Suc 1) ?p x" if x: "x \<in> {1, 5, 7}" for x
  proof
    assume "proves sum_hash (Suc 1) ?p x"
    moreover have "inj_on (\<lambda>(l, r). sum_hash l r) ({(0, x)} \<union> {(0, 0)})"
      using x by (auto simp: inj_on_def sum_hash_def)
    ultimately have "x = slots 1 (keys ?t) (lsb 1 1)"
      using path_binding[OF fresh_tree_inv one p, of x] unfolding pairs slot by blast
    with x show False unfolding slot by auto
  qed
  with p show ?thesis by blast
qed

text \<open>
  \<open>insert_with_paths\<close> of non-null elements with free, different slots succeeds, and each path
  proves its element and leads from the root hash before the insertion of the element to the root
  hash after it, ending at the root hash of the new tree.
\<close>

theorem insert_with_paths_linked:
  assumes "tree_inv hm (simple_cache_ok hm) n t" "n \<le> 256" "free_in n t (map fst es)"
    and "keyed n (map fst es)" "root_hash hm t = Some h"
  shows "\<exists>t' ps h'. insert_with_paths hm (simple_hash hm) (Suc n) t es = Some (t', Inr ps)
           \<and> tree_inv hm (simple_cache_ok hm) n t'
           \<and> map_of (t_entries t') = map_of (t_entries t) ++ map_of (rev es)
           \<and> root_hash hm t' = Some h' \<and> linked hm (Suc n) h ps (map fst es) h'"
  using simple.insert_with_paths_ok[OF assms] map_of_add_entries[of "t_entries t" es] by metis

theorem insert_with_paths_linked_witness:
  "\<exists>t' ps h'. insert_with_paths sum_hash (simple_hash sum_hash) (Suc 2) (fresh_tree 2)
       [(1, True), (2, False)] = Some (t', Inr ps)
     \<and> root_hash sum_hash t' = Some h' \<and> linked sum_hash (Suc 2) 63 ps [1, 2] h'"
proof -
  have f: "free_in 2 (fresh_tree 2 :: (bool, simple_cache) smirk_tree) (map fst [(1, True), (2, False)])"
    and k: "keyed 2 (map fst [(1 :: element, True), (2, False)])"
    by code_simp+
  have r: "root_hash sum_hash (fresh_tree 2 :: (bool, simple_cache) smirk_tree) = Some 63"
    by (simp add: root_hash_def new_with_cache_def numeral_2_eq_2) (simp add: sum_hash_def NULL_HASH_def ZERO_def)
  show ?thesis using insert_with_paths_linked[OF fresh_tree_inv two_le f k r] by auto
qed

text \<open>
  Two trees that compare as equal have the same elements, as long as no two different pairs
  hashed in the two trees have the same hash.
\<close>

theorem tree_eq_same_elements:
  assumes "tree_inv hm cinv n t" "tree_inv hm cinv n u" "n \<le> 256" "tree_eq hm t u = Some True"
    and "inj_on (\<lambda>(l, r). hm l r)
           (set (root_pairs hm n (slots n (keys t))) \<union> set (root_pairs hm n (slots n (keys u))))"
  shows "map fst (t_entries t) = map fst (t_entries u)"
proof -
  have "spec_root hm n (slots n (keys t)) = spec_root hm n (slots n (keys u))"
    using assms(4) root_hash_spec[OF assms(1)] root_hash_spec[OF assms(2)] by (simp add: tree_eq_def)
  then have same: "slots n (keys t) q = slots n (keys u) q" if "length q = n" for q
    using spec_root_inject[OF _ assms(5) that] by simp
  have "contains_element t e \<longleftrightarrow> contains_element u e" for e
    using tree_contains_slot[OF assms(1,3)] tree_contains_slot[OF assms(2,3)] same[of "lsb e n"] assms(1-3)
    by (simp add: tree_inv_def)
  then have "set (keys t) = set (keys u)"
    by (simp add: contains_element_def map_of_eq_None_iff set_eq_iff)
  moreover have "sorted (keys t)" "sorted (keys u)" "distinct (keys t)" "distinct (keys u)"
    using assms(1,2) by (simp_all add: tree_inv_def bt_ok_def strict_sorted_iff)
  ultimately show ?thesis by (intro sorted_distinct_set_unique)
qed

theorem tree_eq_same_elements_witness:
  "\<exists>t1 ev. tree_insert sum_hash (noop_hash sum_hash) (Suc 1) (new_with_cache (Suc 1) ()) 1 True = Some (Inr t1)
     \<and> tree_eq sum_hash t1 (new_with_cache (Suc 1) ()) = Some ev \<and> \<not> ev"
proof -
  let ?t = "new_with_cache (Suc 1) () :: (bool, unit) smirk_tree"
  have one: "(1::nat) \<le> 256" by simp
  have inv: "tree_inv sum_hash (\<lambda>_. True) 1 ?t" by (simp add: tree_inv_new)
  have "free_in 1 ?t [1]" by code_simp
  from noop.tree_insert_ok[OF inv one this] obtain t1 where t1:
    "tree_insert sum_hash (noop_hash sum_hash) (Suc 1) ?t 1 True = Some (Inr t1)"
    "tree_inv sum_hash (\<lambda>_. True) 1 t1" "t_entries t1 = bt_insert 1 True (t_entries ?t)" by blast
  have k: "keys t1 = [1]" "keys ?t = []" by (simp_all add: t1(3) new_with_cache_def)
  have "root_pairs sum_hash 1 (slots 1 [1]) = [(0, 1)]" "root_pairs sum_hash 1 (slots 1 []) = [(0, 0)]"
    by code_simp+
  then have "inj_on (\<lambda>(l, r). sum_hash l r)
      (set (root_pairs sum_hash 1 (slots 1 (keys t1))) \<union> set (root_pairs sum_hash 1 (slots 1 (keys ?t))))"
    unfolding k by (simp only:) (simp add: sum_hash_def)
  then have "tree_eq sum_hash t1 ?t \<noteq> Some True"
    using tree_eq_same_elements[OF t1(2) inv one] k by auto
  moreover have "tree_eq sum_hash t1 ?t \<noteq> None"
    using root_hash_spec[OF t1(2)] root_hash_spec[OF inv] by (simp add: tree_eq_def)
  ultimately show ?thesis using t1(1) by auto
qed

text \<open>
  Building a batch from entries succeeds exactly when their slots are all different, keeping the
  entries in their order; otherwise the error holds one collision of two entries with the same slot.
\<close>

theorem batch_from_entries_spec:
  "(if keyed (N - 1) (map fst es)
    then \<exists>b. batch_from_entries N es = Some (Inr b) \<and> batch_ok N b \<and> b_entries b = es
    else \<exists>c. batch_from_entries N es = Some (Inl [c]) \<and> col_struct c = InBatch
           \<and> collides_with N (col_in_tree c) (col_inserted c) \<and> col_inserted c \<in> set (map fst es))"
  using insert_entries_ok[OF batch_new_ok, of N es] insert_entries_clash[OF batch_new_ok, of N es]
  by (auto simp: batch_from_entries_def batch_new_def batch_elements_def collides_with_def)

text \<open>
  The table of empty-tree hashes and its fallback give, for every depth, the recursive
  definition: the hash of an empty tree of one element less, twice. It is the root of a new tree.
\<close>

theorem empty_tree_hash_spec:
  "empty_tree_hash hm (Suc 0) = Some NULL_HASH
   \<and> (\<exists>h. empty_tree_hash hm (Suc n) = Some h \<and> empty_tree_hash hm (Suc (Suc n)) = Some (hm h h)
        \<and> root_hash hm (new_with_cache (Suc n) c) = Some h)"
  by (simp add: root_hash_def new_with_cache_def)

text \<open>
  Whatever is hashed and evicted, in any order, a \<open>SimpleHashCache\<close> answers each hash with the
  merge of its two elements, and counts each as a hit or a miss (modulo the word size).
\<close>

theorem simple_cache_transparent:
  assumes "simple_cache_ok hm c"
    and "m_hashes (sc_metrics c) = m_cache_hits (sc_metrics c) + m_cache_misses (sc_metrics c)"
  shows "fst (run_cache hm c ops) = map (\<lambda>(l, r). hm l r) (hashed_pairs ops)
         \<and> (let m = sc_metrics (snd (run_cache hm c ops)) in m_hashes m = m_cache_hits m + m_cache_misses m)"
  using run_cache_ok[OF assms, of ops] by (auto simp: Let_def)

theorem simple_cache_transparent_witness:
  "fst (run_cache sum_hash simple_cache_new
          [CacheHash 1 2, CacheHash 1 2, CacheEvict 1 2, CacheHash 1 2, CacheEvictAll]) = [20, 20, 20]"
  using simple_cache_transparent[OF simple_cache_new_ok, of sum_hash
      "[CacheHash 1 2, CacheHash 1 2, CacheEvict 1 2, CacheHash 1 2, CacheEvictAll]"]
  by (simp add: simple_cache_new_def sum_hash_def)

end
