(* ===== verification/Doomslug.thy ===== *)
theory Doomslug
  imports Payy_Prelude
begin

text \<open>
  \<open>pkg/doomslug\<close>: approvals (\<open>approval.rs\<close>) and the Doomslug logic (\<open>doomslug.rs\<close>).

  Instants and durations are naturals (nanoseconds since some start); the wall clock and the
  monotonic clock that the code reads for its records are arguments of the operations that read
  them. Heights are naturals (\<open>u64\<close> in the code, one per block). Balances are \<open>u128\<close>, whose sums wrap
  in a release build. \<open>debug_assert!\<close> is not compiled into a release build and is left out.
\<close>

section \<open>Approvals (approval.rs)\<close>

datatype approval_inner = Endorsement crypto_hash | Skip nat

record approval_content =
  ac_inner :: approval_inner
  ac_target_height :: nat

record approval =
  ap_content :: approval_content
  ap_signature :: "u8 list"

record approval_validated =
  av_content :: approval_content
  av_signature :: "u8 list"
  av_validator :: address

record approval_stake =
  st_validator :: address
  stake_this_epoch :: balance
  stake_next_epoch :: balance

record approval_history_entry =
  he_parent_height :: nat
  he_target_height :: nat
  he_creation_time :: nat
  he_timer_started_ago_millis :: u64
  he_expected_delay_millis :: u64

record approval_at_height_status =
  ahs_approvals :: "(address \<times> approval_inner \<times> nat) list"
  ahs_ready_at :: "nat option"

definition approval_inner_new :: "crypto_hash \<Rightarrow> nat \<Rightarrow> nat \<Rightarrow> approval_inner" where
  "approval_inner_new parent_hash parent_height target_height =
     (if target_height = parent_height + 1 then Endorsement parent_hash else Skip parent_height)"

definition approval_content_new :: "crypto_hash \<Rightarrow> nat \<Rightarrow> nat \<Rightarrow> approval_content" where
  "approval_content_new parent_hash parent_height target_height =
     \<lparr>ac_inner = approval_inner_new parent_hash parent_height target_height,
      ac_target_height = target_height\<rparr>"

definition new_endorsement :: "crypto_hash \<Rightarrow> nat \<Rightarrow> approval_content" where
  "new_endorsement parent_hash target_height =
     \<lparr>ac_inner = Endorsement parent_hash, ac_target_height = target_height\<rparr>"

text \<open>The bytes that are hashed for a signature; \<open>None\<close> is the \<open>todo!()\<close> for a skip.\<close>

definition content_preimage :: "approval_content \<Rightarrow> u8 list option" where
  "content_preimage c =
     (case ac_inner c of
        Endorsement h \<Rightarrow>
          Some (replicate 24 0 @ be_bytes 8 (word_of_nat (ac_target_height c) :: u64) @ be_bytes 32 h)
      | Skip _ \<Rightarrow> None)"

text \<open>\<open>keccak\<close>, \<open>sign\<close> and \<open>verify\<close> are the hash and the signature scheme of other packages.\<close>

definition content_hash :: "(u8 list \<Rightarrow> crypto_hash) \<Rightarrow> approval_content \<Rightarrow> crypto_hash option" where
  "content_hash keccak c = map_option keccak (content_preimage c)"

definition to_approval ::
  "(u8 list \<Rightarrow> crypto_hash) \<Rightarrow> ('p \<Rightarrow> crypto_hash \<Rightarrow> u8 list) \<Rightarrow> 'p \<Rightarrow> approval_content \<Rightarrow> approval option" where
  "to_approval keccak sign peer c = do {
     h \<leftarrow> content_hash keccak c;
     Some \<lparr>ap_content = c, ap_signature = sign peer h\<rparr> }"

definition to_approval_validated ::
  "(u8 list \<Rightarrow> crypto_hash) \<Rightarrow> ('p \<Rightarrow> crypto_hash \<Rightarrow> u8 list) \<Rightarrow> ('p \<Rightarrow> address) \<Rightarrow> 'p
     \<Rightarrow> approval_content \<Rightarrow> approval_validated option" where
  "to_approval_validated keccak sign addr peer c = do {
     h \<leftarrow> content_hash keccak c;
     Some \<lparr>av_content = c, av_signature = sign peer h, av_validator = addr peer\<rparr> }"

datatype approval_error = InvalidSignature

text \<open>\<open>TryFrom<Approval>\<close>: the validator is the signer that the signature recovers to.\<close>

definition approval_try_from ::
  "(u8 list \<Rightarrow> crypto_hash) \<Rightarrow> (u8 list \<Rightarrow> crypto_hash \<Rightarrow> address option) \<Rightarrow> approval
     \<Rightarrow> (approval_error + approval_validated) option" where
  "approval_try_from keccak verify msg = do {
     h \<leftarrow> content_hash keccak (ap_content msg);
     Some (case verify (ap_signature msg) h of
             None \<Rightarrow> Inl InvalidSignature
           | Some a \<Rightarrow> Inr \<lparr>av_content = ap_content msg, av_signature = ap_signature msg,
                             av_validator = a\<rparr>) }"

section \<open>The tracker of the approvals of one block\<close>

definition MAX_TIMER_ITERS :: nat where "MAX_TIMER_ITERS = 20"

definition MAX_HEIGHTS_AHEAD_TO_STORE_APPROVALS :: nat where
  "MAX_HEIGHTS_AHEAD_TO_STORE_APPROVALS = 10000"

definition MAX_HEIGHTS_BEFORE_TO_STORE_APPROVALS :: nat where
  "MAX_HEIGHTS_BEFORE_TO_STORE_APPROVALS = 20"

definition MAX_HISTORY_SIZE :: nat where "MAX_HISTORY_SIZE = 1000"

datatype threshold_mode = NoApprovals | TwoThirds

datatype readiness = NotReady | ReadySince nat

record approvals_tracker =
  witness :: "(address \<times> approval_validated \<times> nat) list"
  account_id_to_stakes :: "(address \<times> balance \<times> balance) list"
  total_stake_this_epoch :: balance
  approved_stake_this_epoch :: balance
  total_stake_next_epoch :: balance
  approved_stake_next_epoch :: balance
  time_passed_threshold :: "nat option"
  tr_threshold_mode :: threshold_mode

definition tracker_new ::
  "(address \<times> balance \<times> balance) list \<Rightarrow> threshold_mode \<Rightarrow> approvals_tracker" where
  "tracker_new stakes mode =
     \<lparr>witness = [], account_id_to_stakes = stakes,
      total_stake_this_epoch = sum_list (map (\<lambda>(_, x, _). x) stakes),
      approved_stake_this_epoch = 0,
      total_stake_next_epoch = sum_list (map (\<lambda>(_, _, x). x) stakes),
      approved_stake_next_epoch = 0,
      time_passed_threshold = None, tr_threshold_mode = mode\<rparr>"

definition get_block_production_readiness ::
  "nat \<Rightarrow> approvals_tracker \<Rightarrow> readiness \<times> approvals_tracker" where
  "get_block_production_readiness now t =
     (if (total_stake_this_epoch t * 2 div 3 < approved_stake_this_epoch t
           \<and> (total_stake_next_epoch t * 2 div 3 < approved_stake_next_epoch t
               \<or> total_stake_next_epoch t = 0))
         \<or> tr_threshold_mode t = NoApprovals
      then (case time_passed_threshold t of
              None \<Rightarrow> (ReadySince now, t\<lparr>time_passed_threshold := Some now\<rparr>)
            | Some when \<Rightarrow> (ReadySince when, t))
      else (NotReady, t))"

definition stakes_of :: "approvals_tracker \<Rightarrow> address \<Rightarrow> balance \<times> balance" where
  "stakes_of t v = (case map_of (account_id_to_stakes t) v of None \<Rightarrow> (0, 0) | Some x \<Rightarrow> x)"

text \<open>\<open>wall\<close> is \<open>chrono::Utc::now()\<close>.\<close>

definition tracker_process_approval ::
  "nat \<Rightarrow> nat \<Rightarrow> approval_validated \<Rightarrow> approvals_tracker \<Rightarrow> readiness \<times> approvals_tracker" where
  "tracker_process_approval wall now approval t =
     (let t = (case map_of (witness t) (av_validator approval) of
                 Some _ \<Rightarrow> t
               | None \<Rightarrow>
                   (let stakes = stakes_of t (av_validator approval)
                    in t\<lparr>witness := AList.update (av_validator approval) (approval, wall) (witness t),
                         approved_stake_this_epoch := approved_stake_this_epoch t + fst stakes,
                         approved_stake_next_epoch := approved_stake_next_epoch t + snd stakes\<rparr>))
      in get_block_production_readiness now t)"

definition withdraw_approval :: "address \<Rightarrow> approvals_tracker \<Rightarrow> approvals_tracker" where
  "withdraw_approval validator t =
     (case map_of (witness t) validator of
        None \<Rightarrow> t
      | Some (approval, _) \<Rightarrow>
          (let stakes = stakes_of t (av_validator approval)
           in t\<lparr>witness := AList.delete validator (witness t),
                approved_stake_this_epoch := approved_stake_this_epoch t - fst stakes,
                approved_stake_next_epoch := approved_stake_next_epoch t - snd stakes\<rparr>))"

definition get_witnesses :: "approvals_tracker \<Rightarrow> (address \<times> nat) list" where
  "get_witnesses t = map (\<lambda>(key, _, arrival_time). (key, arrival_time)) (witness t)"

section \<open>The trackers of one height\<close>

record trackers_at_height =
  approval_trackers :: "(approval_inner \<times> approvals_tracker) list"
  last_approval_per_account :: "(address \<times> approval_inner) list"

definition trackers_new :: trackers_at_height where
  "trackers_new = \<lparr>approval_trackers = [], last_approval_per_account = []\<rparr>"

text \<open>The first step of \<open>process_approval\<close>: the last approval of the account is withdrawn.\<close>

definition withdraw_last :: "address \<Rightarrow> trackers_at_height \<Rightarrow> trackers_at_height" where
  "withdraw_last validator a =
     (case map_of (last_approval_per_account a) validator of
        None \<Rightarrow> a
      | Some last_parent \<Rightarrow>
          (case map_of (approval_trackers a) last_parent of
             None \<Rightarrow> a
           | Some x \<Rightarrow>
               (let x = withdraw_approval validator x
                in if witness x = []
                   then a\<lparr>approval_trackers := AList.delete last_parent (approval_trackers a)\<rparr>
                   else a\<lparr>approval_trackers := AList.update last_parent x (approval_trackers a)\<rparr>)))"

text \<open>The stakes that are not slashed, collected into a \<open>HashMap\<close>.\<close>

definition unslashed_stakes :: "(approval_stake \<times> bool) list \<Rightarrow> (address \<times> balance \<times> balance) list" where
  "unslashed_stakes stakes =
     fold (\<lambda>(x, is_slashed) m.
             if is_slashed then m
             else AList.update (st_validator x) (stake_this_epoch x, stake_next_epoch x) m)
       stakes []"

text \<open>\<open>None\<close>: the assertion that no stake was dropped failed.\<close>

definition process_approval ::
  "nat \<Rightarrow> nat \<Rightarrow> approval_validated \<Rightarrow> (approval_stake \<times> bool) list \<Rightarrow> threshold_mode
     \<Rightarrow> trackers_at_height \<Rightarrow> (readiness \<times> trackers_at_height) option" where
  "process_approval wall now approval stakes mode a =
     (let validator = av_validator approval;
          inner = ac_inner (av_content approval);
          a = withdraw_last validator a;
          m = unslashed_stakes stakes
      in if length m \<noteq> length stakes then None
         else if map_of m validator = None then Some (NotReady, a)
         else
           (let t = (case map_of (approval_trackers a) inner of
                       Some t \<Rightarrow> t | None \<Rightarrow> tracker_new m mode);
                (r, t) = tracker_process_approval wall now approval t
            in Some (r, a\<lparr>last_approval_per_account :=
                              AList.update validator inner (last_approval_per_account a),
                          approval_trackers := AList.update inner t (approval_trackers a)\<rparr>)))"

definition status :: "nat \<Rightarrow> nat \<Rightarrow> trackers_at_height \<Rightarrow> approval_at_height_status" where
  "status wall real a =
     \<lparr>ahs_approvals =
        fold (\<lambda>(k, v) m. AList.update k v m)
          (concat (map (\<lambda>(approval, tracker).
             map (\<lambda>(name, time). (name, (approval, time))) (get_witnesses tracker)) (approval_trackers a)))
          [],
      ahs_ready_at =
        (case List.map_filter (\<lambda>(_, tracker). time_passed_threshold tracker) (approval_trackers a) of
           [] \<Rightarrow> None
         | ts \<Rightarrow> Some (wall - (real - Min (set ts))))\<rparr>"

section \<open>Doomslug\<close>

record doomslug_timer =
  started :: nat
  last_endorsement_sent :: nat
  timer_height :: nat
  endorsement_delay :: nat
  min_delay :: nat
  delay_step :: nat
  max_delay :: nat

record doomslug_tip =
  block_hash :: crypto_hash
  tip_height :: nat

record doomslug =
  approval_tracking :: "(nat \<times> trackers_at_height) list"
  largest_sent_target_height :: nat
  largest_final_height :: nat
  largest_threshold_approvals_height :: nat
  largest_approval_target_height :: nat
  tip :: doomslug_tip
  endorsement_pending :: bool
  timer :: doomslug_timer
  ds_threshold_mode :: threshold_mode
  history :: "approval_history_entry list"

definition get_delay :: "doomslug_timer \<Rightarrow> nat \<Rightarrow> nat" where
  "get_delay t n =
     (let n32 = (if n \<le> 2 ^ 32 - 1 then n else 2 ^ 32 - 1)
      in min (max_delay t) (min_delay t + delay_step t * (n32 - 2)))"

text \<open>\<open>real\<close> is \<open>Instant::now()\<close>, read by the constructor.\<close>

definition doomslug_new ::
  "nat \<Rightarrow> nat \<Rightarrow> nat \<Rightarrow> nat \<Rightarrow> nat \<Rightarrow> nat \<Rightarrow> threshold_mode \<Rightarrow> doomslug" where
  "doomslug_new real largest_sent e_delay mi_delay step_delay ma_delay mode =
     \<lparr>approval_tracking = [], largest_sent_target_height = largest_sent,
      largest_final_height = 0, largest_threshold_approvals_height = 0,
      largest_approval_target_height = 0, tip = \<lparr>block_hash = 0, tip_height = 0\<rparr>,
      endorsement_pending = False,
      timer = \<lparr>started = real, last_endorsement_sent = real, timer_height = 0,
               endorsement_delay = e_delay, min_delay = mi_delay, delay_step = step_delay,
               max_delay = ma_delay\<rparr>,
      ds_threshold_mode = mode, history = []\<rparr>"

text \<open>The \<open>while\<close> loop drops entries until there is room for one more.\<close>

definition update_history :: "approval_history_entry \<Rightarrow> doomslug \<Rightarrow> doomslug" where
  "update_history entry ds =
     (let h = history ds
      in ds\<lparr>history := drop (Suc (length h) - MAX_HISTORY_SIZE) h @ [entry]\<rparr>)"

definition create_approval :: "doomslug \<Rightarrow> nat \<Rightarrow> approval_content option" where
  "create_approval ds target_height =
     Some (approval_content_new (block_hash (tip ds)) (tip_height (tip ds)) target_height)"

definition as_millis :: "nat \<Rightarrow> u64" where
  "as_millis d = word_of_nat (d div 10 ^ 6)"

text \<open>
  The two halves of an iteration of \<open>process_timer\<close>: the endorsement of the tip when it is due,
  and the skip message when the delay has passed. \<open>real\<close> and \<open>wall\<close> are the clocks read for the
  history.
\<close>

definition endorse_step :: "nat \<Rightarrow> nat \<Rightarrow> nat \<Rightarrow> doomslug \<Rightarrow> doomslug \<times> approval_content list" where
  "endorse_step real wall cur_time ds =
     (let t = timer ds; tiph = tip_height (tip ds)
      in if endorsement_pending ds \<and> last_endorsement_sent t + endorsement_delay t \<le> cur_time
         then
           (let (ds, ret) =
              (if largest_sent_target_height ds \<le> tiph
               then
                 (let ds = ds\<lparr>largest_sent_target_height := tiph + 1\<rparr>;
                      ret = (case create_approval ds (tiph + 1) of Some a \<Rightarrow> [a] | None \<Rightarrow> []);
                      ds = update_history
                             \<lparr>he_parent_height = tiph, he_target_height = tiph + 1,
                              he_creation_time = wall,
                              he_timer_started_ago_millis = as_millis (real - last_endorsement_sent t),
                              he_expected_delay_millis = as_millis (endorsement_delay t)\<rparr> ds
                  in (ds, ret))
               else (ds, []))
            in (ds\<lparr>timer := (timer ds)\<lparr>last_endorsement_sent := cur_time\<rparr>,
                   endorsement_pending := False\<rparr>, ret))
         else (ds, []))"

definition skip_step ::
  "nat \<Rightarrow> nat \<Rightarrow> nat \<Rightarrow> nat \<Rightarrow> doomslug \<Rightarrow> (doomslug \<times> approval_content list) option" where
  "skip_step real wall cur_time skip_delay ds =
     (if started (timer ds) + skip_delay \<le> cur_time
      then
        (let tiph = tip_height (tip ds); th = timer_height (timer ds);
             ds = ds\<lparr>largest_sent_target_height := max (th + 1) (largest_sent_target_height ds)\<rparr>;
             ret = (case create_approval ds (th + 1) of Some a \<Rightarrow> [a] | None \<Rightarrow> []);
             ds = update_history
                    \<lparr>he_parent_height = tiph, he_target_height = th + 1, he_creation_time = wall,
                     he_timer_started_ago_millis = as_millis (real - started (timer ds)),
                     he_expected_delay_millis = as_millis skip_delay\<rparr> ds
         in Some (ds\<lparr>timer := (timer ds)\<lparr>started := started (timer ds) + skip_delay,
                                       timer_height := th + 1\<rparr>\<rparr>, ret))
      else None)"

text \<open>At most \<open>n\<close> iterations; \<open>break\<close> is the \<open>None\<close> of the second half.\<close>

fun timer_loop :: "nat \<Rightarrow> nat \<Rightarrow> nat \<Rightarrow> nat \<Rightarrow> doomslug \<Rightarrow> doomslug \<times> approval_content list" where
  "timer_loop 0 real wall cur_time ds = (ds, [])"
| "timer_loop (Suc n) real wall cur_time ds =
     (let skip_delay = get_delay (timer ds) (timer_height (timer ds) - largest_final_height ds);
          (ds, ret) = endorse_step real wall cur_time ds
      in case skip_step real wall cur_time skip_delay ds of
           None \<Rightarrow> (ds, ret)
         | Some (ds, ret2) \<Rightarrow>
             (let (ds, rest) = timer_loop n real wall cur_time ds in (ds, ret @ ret2 @ rest)))"

definition process_timer :: "nat \<Rightarrow> nat \<Rightarrow> nat \<Rightarrow> doomslug \<Rightarrow> doomslug \<times> approval_content list" where
  "process_timer real wall cur_time ds = timer_loop MAX_TIMER_ITERS real wall cur_time ds"

definition can_approved_block_be_produced ::
  "threshold_mode \<Rightarrow> bool option list \<Rightarrow> (balance \<times> balance \<times> bool) list \<Rightarrow> bool" where
  "can_approved_block_be_produced mode approvals stakes \<longleftrightarrow>
     mode = NoApprovals
     \<or> (let threshold1 = sum_list (map (\<lambda>(x, _, _). x) stakes) * 2 div 3;
            threshold2 = sum_list (map (\<lambda>(_, x, _). x) stakes) * 2 div 3;
            live = filter (\<lambda>(_, _, _, is_slashed). \<not> is_slashed) (zip approvals stakes);
            approved_stake1 = sum_list (map (\<lambda>(a, s, _, _). if a \<noteq> None then s else 0) live);
            approved_stake2 = sum_list (map (\<lambda>(a, _, s, _). if a \<noteq> None then s else 0) live)
        in (threshold1 < approved_stake1 \<or> threshold1 = 0)
           \<and> (threshold2 < approved_stake2 \<or> threshold2 = 0))"

definition get_witness ::
  "doomslug \<Rightarrow> crypto_hash \<Rightarrow> nat \<Rightarrow> nat \<Rightarrow> (address \<times> approval_validated \<times> nat) list" where
  "get_witness ds prev_hash parent_height target_height =
     (case map_of (approval_tracking ds) target_height of
        None \<Rightarrow> []
      | Some a \<Rightarrow>
          (case map_of (approval_trackers a) (approval_inner_new prev_hash parent_height target_height) of
             None \<Rightarrow> []
           | Some t \<Rightarrow> witness t))"

definition on_block :: "nat \<Rightarrow> crypto_hash \<Rightarrow> nat \<Rightarrow> nat \<Rightarrow> doomslug \<Rightarrow> doomslug" where
  "on_block now hash height last_final_height ds =
     ds\<lparr>tip := \<lparr>block_hash = hash, tip_height = height\<rparr>,
        largest_final_height := last_final_height,
        timer := (timer ds)\<lparr>timer_height := height + 1, started := now\<rparr>,
        approval_tracking :=
          filter (\<lambda>(h, _). height - MAX_HEIGHTS_BEFORE_TO_STORE_APPROVALS < h
                          \<and> h \<le> height + MAX_HEIGHTS_AHEAD_TO_STORE_APPROVALS) (approval_tracking ds),
        endorsement_pending := True\<rparr>"

definition on_approval_internal ::
  "nat \<Rightarrow> nat \<Rightarrow> approval_validated \<Rightarrow> (approval_stake \<times> bool) list \<Rightarrow> doomslug
     \<Rightarrow> (readiness \<times> doomslug) option" where
  "on_approval_internal wall now approval stakes ds =
     (let th = ac_target_height (av_content approval);
          a = (case map_of (approval_tracking ds) th of Some a \<Rightarrow> a | None \<Rightarrow> trackers_new)
      in do {
        (ret, a) \<leftarrow> process_approval wall now approval stakes (ds_threshold_mode ds) a;
        let ds = ds\<lparr>approval_tracking := AList.update th a (approval_tracking ds)\<rparr>;
        let ds = (if largest_approval_target_height ds < th
                  then ds\<lparr>largest_approval_target_height := th\<rparr> else ds);
        let ds = (if ret \<noteq> NotReady \<and> largest_threshold_approvals_height ds < th
                  then ds\<lparr>largest_threshold_approvals_height := th\<rparr> else ds);
        Some (ret, ds) })"

definition on_approval ::
  "nat \<Rightarrow> nat \<Rightarrow> approval_validated \<Rightarrow> (approval_stake \<times> bool) list \<Rightarrow> doomslug \<Rightarrow> doomslug option" where
  "on_approval wall now approval stakes ds =
     (let th = ac_target_height (av_content approval)
      in if th < tip_height (tip ds) \<or> tip_height (tip ds) + MAX_HEIGHTS_AHEAD_TO_STORE_APPROVALS < th
         then Some ds
         else map_option snd (on_approval_internal wall now approval stakes ds))"

definition approval_status_at_height :: "nat \<Rightarrow> nat \<Rightarrow> doomslug \<Rightarrow> nat \<Rightarrow> approval_at_height_status" where
  "approval_status_at_height wall real ds height =
     (case map_of (approval_tracking ds) height of
        Some a \<Rightarrow> status wall real a
      | None \<Rightarrow> \<lparr>ahs_approvals = [], ahs_ready_at = None\<rparr>)"

text \<open>The readiness check may start the tracker's clock, so it returns the new state.\<close>

definition ready_to_produce_block :: "nat \<Rightarrow> nat \<Rightarrow> bool \<Rightarrow> doomslug \<Rightarrow> bool \<times> doomslug" where
  "ready_to_produce_block now target_height has_enough_chunks ds =
     (let inner = approval_inner_new (block_hash (tip ds)) (tip_height (tip ds)) target_height
      in case map_of (approval_tracking ds) target_height of
           None \<Rightarrow> (False, ds)
         | Some a \<Rightarrow>
             (case map_of (approval_trackers a) inner of
                None \<Rightarrow> (False, ds)
              | Some t \<Rightarrow>
                  (let (r, t) = get_block_production_readiness now t;
                       a = a\<lparr>approval_trackers := AList.update inner t (approval_trackers a)\<rparr>;
                       ds = ds\<lparr>approval_tracking := AList.update target_height a (approval_tracking ds)\<rparr>
                   in (case r of
                         NotReady \<Rightarrow> False
                       | ReadySince when \<Rightarrow>
                           if has_enough_chunks then True
                           else (let delay = get_delay (timer ds)
                                               (timer_height (timer ds) - largest_final_height ds) div 6
                                 in when + delay < now),
                       ds))))"

text \<open>The getters.\<close>

definition get_tip :: "doomslug \<Rightarrow> crypto_hash \<times> nat" where
  "get_tip ds = (block_hash (tip ds), tip_height (tip ds))"

definition get_largest_height_crossing_threshold :: "doomslug \<Rightarrow> nat" where
  "get_largest_height_crossing_threshold ds = largest_threshold_approvals_height ds"

section \<open>The invariant of a tracker\<close>

text \<open>
  The approved stakes are the sums of the stakes of the validators in the witness, whatever
  approvals came and were withdrawn. The sums wrap.
\<close>

definition stake_sum :: "(address \<times> balance \<times> balance) list \<Rightarrow> (balance \<times> balance \<Rightarrow> balance)
    \<Rightarrow> address list \<Rightarrow> balance" where
  "stake_sum m f vs = sum_list (map (\<lambda>v. case map_of m v of None \<Rightarrow> 0 | Some x \<Rightarrow> f x) vs)"

definition tracker_ok :: "(address \<times> balance \<times> balance) list \<Rightarrow> threshold_mode \<Rightarrow> approvals_tracker \<Rightarrow> bool" where
  "tracker_ok m mode t \<longleftrightarrow>
     hm_ok (witness t) \<and> account_id_to_stakes t = m \<and> tr_threshold_mode t = mode
     \<and> total_stake_this_epoch t = sum_list (map (\<lambda>(_, x, _). x) m)
     \<and> total_stake_next_epoch t = sum_list (map (\<lambda>(_, _, x). x) m)
     \<and> approved_stake_this_epoch t = stake_sum m fst (map fst (witness t))
     \<and> approved_stake_next_epoch t = stake_sum m snd (map fst (witness t))
     \<and> (\<forall>(v, a, _) \<in> set (witness t). av_validator a = v)"

lemma tracker_new_ok [inv_intros]: "tracker_ok m mode (tracker_new m mode)"
  by (simp add: tracker_ok_def tracker_new_def stake_sum_def)

lemma readiness_ok [inv_intros]:
  "tracker_ok m mode t \<Longrightarrow> tracker_ok m mode (snd (get_block_production_readiness now t))"
  by (simp add: tracker_ok_def get_block_production_readiness_def split: option.splits)

lemma readiness_keeps [simp]:
  "witness (snd (get_block_production_readiness now t)) = witness t"
  by (simp add: get_block_production_readiness_def split: option.splits)

lemma update_new: "map_of m k = None \<Longrightarrow> AList.update k v m = m @ [(k, v)]"
  by (induction m) (auto split: if_splits)

lemma stake_sum_delete:
  assumes "distinct vs" "v \<in> set vs"
  shows "stake_sum m f (filter (\<lambda>x. x \<noteq> v) vs) = stake_sum m f vs - stake_sum m f [v]"
  using assms
proof (induction vs)
  case (Cons a vs)
  show ?case
  proof (cases "a = v")
    case True
    then have "filter (\<lambda>x. x \<noteq> v) vs = vs" using Cons.prems(1) by (auto simp: filter_id_conv)
    with True show ?thesis by (simp add: stake_sum_def)
  next
    case False
    then show ?thesis using Cons by (simp add: stake_sum_def)
  qed
qed simp

lemma keys_delete: "map fst (AList.delete k m) = filter (\<lambda>x. x \<noteq> k) (map fst m)"
  by (induction m) auto

lemma tracker_process_ok [inv_intros]:
  assumes "tracker_ok m mode t"
  shows "tracker_ok m mode (snd (tracker_process_approval wall now a t))"
proof (cases "map_of (witness t) (av_validator a)")
  case None
  let ?v = "av_validator a"
  let ?t = "t\<lparr>witness := AList.update ?v (a, wall) (witness t),
                approved_stake_this_epoch := approved_stake_this_epoch t + fst (stakes_of t ?v),
                approved_stake_next_epoch := approved_stake_next_epoch t + snd (stakes_of t ?v)\<rparr>"
  have st: "stakes_of t ?v = (case map_of m ?v of None \<Rightarrow> (0, 0) | Some x \<Rightarrow> x)"
    using assms by (simp add: stakes_of_def tracker_ok_def)
  have "stake_sum m f (map fst (witness t) @ [?v])
      = stake_sum m f (map fst (witness t)) + (case map_of m ?v of None \<Rightarrow> 0 | Some x \<Rightarrow> f x)" for f
    by (simp add: stake_sum_def)
  moreover have "hm_ok (AList.update ?v (a, wall) (witness t))"
    using assms by (simp add: tracker_ok_def)
  ultimately have "tracker_ok m mode ?t"
    using assms None by (simp add: tracker_ok_def update_new st split: option.splits)
  then have "tracker_ok m mode (snd (get_block_production_readiness now ?t))"
    by (rule readiness_ok)
  then show ?thesis by (simp add: tracker_process_approval_def None Let_def)
qed (use assms in \<open>simp add: tracker_process_approval_def readiness_ok\<close>)

lemma withdraw_ok [inv_intros]:
  assumes "tracker_ok m mode t"
  shows "tracker_ok m mode (withdraw_approval v t)"
proof (cases "map_of (witness t) v")
  case (Some e)
  obtain a w where e: "e = (a, w)" by (cases e)
  have mem: "(v, a, w) \<in> set (witness t)" using Some by (simp add: e map_of_SomeD)
  have d: "distinct (map fst (witness t))" and av: "av_validator a = v"
    using assms mem by (auto simp: tracker_ok_def hm_ok_def)
  have v: "v \<in> set (map fst (witness t))" using mem by force
  have "stakes_of t v = (case map_of m v of None \<Rightarrow> (0, 0) | Some x \<Rightarrow> x)"
    using assms by (simp add: stakes_of_def tracker_ok_def)
  then have "fst (stakes_of t v) = stake_sum m fst [v]" "snd (stakes_of t v) = stake_sum m snd [v]"
    by (simp_all add: stake_sum_def split: option.splits)
  then show ?thesis
    using assms Some stake_sum_delete[OF d v, of m]
    by (auto simp: withdraw_approval_def e av Let_def tracker_ok_def keys_delete set_hm_delete)
qed (use assms in \<open>simp add: withdraw_approval_def\<close>)

end
