(* ===== verification/Doomslug_Inv.thy ===== *)
theory Doomslug_Inv
  imports Doomslug
begin

text \<open>
  The invariants of Doomslug as a state machine: \<open>reach stakes mode\<close> are the states that any
  sequence of blocks, approvals, timer ticks and readiness checks leads to while the stakes of the
  validators stay the same. In each, an account backs at most one parent at each target height, the
  approved stakes are those of the witnesses, and only heights near the tip are tracked. So two
  different parents never both have more than two thirds of the stake at one height.
\<close>

section \<open>Weights\<close>

definition weight :: "(address \<times> balance \<times> balance) list \<Rightarrow> (balance \<times> balance \<Rightarrow> balance) \<Rightarrow> address list \<Rightarrow> nat" where
  "weight m f vs = sum_list (map (\<lambda>v. case map_of m v of None \<Rightarrow> 0 | Some x \<Rightarrow> unat (f x)) vs)"

definition total_weight :: "(address \<times> balance \<times> balance) list \<Rightarrow> (balance \<times> balance \<Rightarrow> balance) \<Rightarrow> nat" where
  "total_weight m f = sum_list (map (\<lambda>(_, x). unat (f x)) m)"

lemma unat_sum_list:
  fixes ws :: "'a::len word list"
  shows "unat (sum_list ws) = sum_list (map unat ws) mod 2 ^ LENGTH('a)"
  by (induction ws) (simp_all add: unat_word_ariths mod_simps)

lemma weight_le_total:
  assumes "hm_ok m" "distinct vs"
  shows "weight m f vs \<le> total_weight m f"
proof -
  let ?g = "\<lambda>v. case map_of m v of None \<Rightarrow> 0 | Some x \<Rightarrow> unat (f x)"
  have "weight m f vs = sum ?g (set vs)"
    using assms(2) by (simp add: weight_def sum_list_distinct_conv_sum_set)
  also have "\<dots> = sum ?g (set vs \<inter> fst ` set m)"
  proof (rule sum.mono_neutral_right)
    show "\<forall>v \<in> set vs - set vs \<inter> fst ` set m. ?g v = 0"
    proof
      fix v assume "v \<in> set vs - set vs \<inter> fst ` set m"
      then have "map_of m v = None" by (simp add: map_of_eq_None_iff)
      then show "?g v = 0" by simp
    qed
  qed auto
  also have "\<dots> \<le> sum ?g (fst ` set m)" by (rule sum_mono2) auto
  also have "\<dots> = sum_list (map ?g (map fst m))"
    using assms(1) by (subst sum_list_distinct_conv_sum_set) (simp_all add: hm_ok_def)
  also have "map ?g (map fst m) = map (\<lambda>(_, x). unat (f x)) m"
    using assms(1) by (auto simp: hm_ok_def)
  finally show ?thesis by (simp add: total_weight_def)
qed

lemma stake_sum_unat:
  assumes "hm_ok m" "distinct vs" "total_weight m f < 2 ^ 128"
  shows "unat (stake_sum m f vs) = weight m f vs"
proof -
  have "map unat (map (\<lambda>v. case map_of m v of None \<Rightarrow> 0 | Some x \<Rightarrow> f x) vs)
      = map (\<lambda>v. case map_of m v of None \<Rightarrow> 0 | Some x \<Rightarrow> unat (f x)) vs"
    by (auto split: option.splits)
  then have "unat (stake_sum m f vs) = weight m f vs mod 2 ^ LENGTH(128)"
    by (simp only: stake_sum_def unat_sum_list weight_def)
  then show ?thesis using weight_le_total[OF assms(1,2), of f] assms(3) by simp
qed

lemma total_unat:
  "total_weight m f < 2 ^ 128 \<Longrightarrow> unat (sum_list (map (\<lambda>(_, x). f x) m)) = total_weight m f"
  by (simp add: unat_sum_list total_weight_def comp_def case_prod_unfold)

lemma two_thirds:
  fixes t a :: balance
  assumes "2 * unat t < 2 ^ 128"
  shows "t * 2 div 3 < a \<longleftrightarrow> 2 * unat t < 3 * unat a"
proof -
  have "unat (t * 2) = unat t * 2" using assms by (simp add: unat_word_ariths)
  then have "unat (t * 2 div 3) = unat t * 2 div 3" by (simp add: unat_div)
  then show ?thesis by (auto simp: word_less_nat_alt)
qed

text \<open>A tracker that is ready in production mode has more than two thirds of this epoch's stake.\<close>

lemma ready_weight:
  assumes ok: "tracker_ok m TwoThirds t" and m: "hm_ok m" and small: "2 * total_weight m fst < 2 ^ 128"
    and ready: "fst (get_block_production_readiness now t) \<noteq> NotReady"
  shows "2 * total_weight m fst < 3 * weight m fst (map fst (witness t))"
proof -
  have tot: "unat (total_stake_this_epoch t) = total_weight m fst"
    using total_unat[of m fst] small ok by (simp add: tracker_ok_def case_prod_unfold)
  have app: "unat (approved_stake_this_epoch t) = weight m fst (map fst (witness t))"
    using stake_sum_unat[OF m, of "map fst (witness t)" fst] ok small
    by (simp add: tracker_ok_def hm_ok_def)
  have "total_stake_this_epoch t * 2 div 3 < approved_stake_this_epoch t"
    using ready ok by (auto simp: get_block_production_readiness_def tracker_ok_def split: if_splits)
  then show ?thesis
    using two_thirds[of "total_stake_this_epoch t"] small by (simp add: tot app)
qed

section \<open>The invariant of a height\<close>

definition at_ok ::
  "(address \<times> balance \<times> balance) list \<Rightarrow> threshold_mode \<Rightarrow> nat \<Rightarrow> trackers_at_height \<Rightarrow> bool" where
  "at_ok m mode h a \<longleftrightarrow>
     hm_ok (approval_trackers a) \<and> hm_ok (last_approval_per_account a)
     \<and> (\<forall>inner t. map_of (approval_trackers a) inner = Some t \<longrightarrow>
          tracker_ok m mode t
          \<and> (\<forall>v ap w. map_of (witness t) v = Some (ap, w) \<longrightarrow>
               map_of (last_approval_per_account a) v = Some inner
               \<and> ac_inner (av_content ap) = inner \<and> ac_target_height (av_content ap) = h))"

lemma at_okD:
  assumes "at_ok m mode h a" "map_of (approval_trackers a) inner = Some t"
  shows "tracker_ok m mode t"
    and "map_of (witness t) v = Some (ap, w) \<Longrightarrow>
           map_of (last_approval_per_account a) v = Some inner
           \<and> ac_inner (av_content ap) = inner \<and> ac_target_height (av_content ap) = h"
  using assms unfolding at_ok_def by blast+

lemma trackers_new_ok [simp, inv_intros]: "at_ok m mode h trackers_new"
  by (simp add: at_ok_def trackers_new_def)

lemma witness_withdraw: "map_of (witness (withdraw_approval v t)) = (map_of (witness t))(v := None)"
  by (auto simp: withdraw_approval_def Let_def delete_conv' fun_eq_iff split: option.splits)

lemma witness_process:
  "map_of (witness (snd (tracker_process_approval wall now a t)))
   = (case map_of (witness t) (av_validator a) of
        None \<Rightarrow> (map_of (witness t))(av_validator a \<mapsto> (a, wall)) | Some _ \<Rightarrow> map_of (witness t))"
  by (auto simp: tracker_process_approval_def Let_def update_conv' split: option.splits)

lemma withdraw_last_keeps [simp]:
  "last_approval_per_account (withdraw_last v a) = last_approval_per_account a"
  by (simp add: withdraw_last_def Let_def split: option.splits)

text \<open>After the withdrawal no tracker of the height has the account in its witness.\<close>

lemma withdraw_last_ok:
  assumes "at_ok m mode h a"
  shows "at_ok m mode h (withdraw_last v a)"
    and "map_of (approval_trackers (withdraw_last v a)) inner = Some t \<Longrightarrow> map_of (witness t) v = None"
proof -
  have *: "tracker_ok m mode t \<and> map_of (witness t) v = None
      \<and> (\<forall>u ap w. map_of (witness t) u = Some (ap, w) \<longrightarrow>
               map_of (last_approval_per_account a) u = Some inner
               \<and> ac_inner (av_content ap) = inner \<and> ac_target_height (av_content ap) = h)"
    if t: "map_of (approval_trackers (withdraw_last v a)) inner = Some t" for inner t
  proof (cases "map_of (last_approval_per_account a) v = Some inner")
    case True
    then obtain t0 where t0: "map_of (approval_trackers a) inner = Some t0" "t = withdraw_approval v t0"
      using t by (auto simp: withdraw_last_def Let_def delete_conv' update_conv'
          split: option.splits if_splits)
    show ?thesis
      using withdraw_ok[OF at_okD(1)[OF assms t0(1)], of v]
      by (auto simp: t0(2) witness_withdraw dest: at_okD(2)[OF assms t0(1)])
  next
    case False
    then have t0: "map_of (approval_trackers a) inner = Some t"
      using t by (auto simp: withdraw_last_def Let_def delete_conv' update_conv'
          split: option.splits if_splits)
    have "map_of (witness t) v = None"
    proof (cases "map_of (witness t) v")
      case (Some e)
      then show ?thesis using at_okD(2)[OF assms t0, of v "fst e" "snd e"] False by simp
    qed
    then show ?thesis using at_okD[OF assms t0] by blast
  qed
  show "map_of (witness t) v = None"
    if "map_of (approval_trackers (withdraw_last v a)) inner = Some t"
    using *[OF that] by blast
  have "hm_ok (approval_trackers (withdraw_last v a))"
    using assms by (auto simp: withdraw_last_def Let_def at_ok_def split: option.splits)
  moreover have "hm_ok (last_approval_per_account a)" using assms by (simp add: at_ok_def)
  ultimately show "at_ok m mode h (withdraw_last v a)"
    using * unfolding at_ok_def withdraw_last_keeps by blast
qed

lemma process_approval_ok:
  assumes ok: "at_ok (unslashed_stakes stakes) mode (ac_target_height (av_content ap)) a"
    and step: "process_approval wall now ap stakes mode a = Some (r, a')"
  shows "at_ok (unslashed_stakes stakes) mode (ac_target_height (av_content ap)) a'"
proof -
  let ?v = "av_validator ap" and ?inner = "ac_inner (av_content ap)" and ?m = "unslashed_stakes stakes"
  let ?h = "ac_target_height (av_content ap)"
  let ?a = "withdraw_last ?v a"
  note w = withdraw_last_ok[OF ok, of ?v]
  show ?thesis
  proof (cases "map_of ?m ?v = None")
    case True
    with step w(1) show ?thesis by (simp add: process_approval_def Let_def split: if_splits)
  next
    case False
    define t where "t = (case map_of (approval_trackers ?a) ?inner of
                           Some t \<Rightarrow> t | None \<Rightarrow> tracker_new ?m mode)"
    define t' where "t' = snd (tracker_process_approval wall now ap t)"
    have a': "a' = ?a\<lparr>last_approval_per_account := AList.update ?v ?inner (last_approval_per_account ?a),
                      approval_trackers := AList.update ?inner t' (approval_trackers ?a)\<rparr>"
      using step False
      by (auto simp: process_approval_def Let_def t_def t'_def case_prod_unfold split: if_splits)
    have t: "tracker_ok ?m mode t" "map_of (witness t) ?v = None"
      using at_okD(1)[OF w(1)] w(2) tracker_new_ok
      by (auto simp: t_def tracker_new_def split: option.splits)
    have wt: "map_of (witness t') = (map_of (witness t))(?v \<mapsto> (ap, wall))"
      by (simp add: t'_def witness_process t(2))
    have old: "map_of (last_approval_per_account a) u = Some ?inner \<and> ac_inner (av_content x) = ?inner
        \<and> ac_target_height (av_content x) = ?h" if "map_of (witness t) u = Some (x, y)" for u x y
      using that at_okD(2)[OF w(1)] by (auto simp: t_def tracker_new_def split: option.splits)
    have "tracker_ok ?m mode t'" unfolding t'_def using t(1) by (rule tracker_process_ok)
    moreover have "map_of (witness s) ?v = None" if "map_of (approval_trackers ?a) i = Some s" for i s
      using w(2) that .
    ultimately show ?thesis
      using w(1) wt old unfolding at_ok_def a'
      by (auto simp: update_conv' split: if_splits)
  qed
qed

text \<open>The witnesses of two parents at one height are disjoint.\<close>

lemma witnesses_disjoint:
  assumes ok: "at_ok m mode h a" and m: "hm_ok m"
    and t1: "map_of (approval_trackers a) i1 = Some t1" and t2: "map_of (approval_trackers a) i2 = Some t2"
    and ne: "i1 \<noteq> i2"
  shows "weight m f (map fst (witness t1)) + weight m f (map fst (witness t2)) \<le> total_weight m f"
proof -
  let ?w1 = "map fst (witness t1)" and ?w2 = "map fst (witness t2)"
  have k: "tracker_ok m mode t1" "tracker_ok m mode t2"
    using at_okD(1)[OF ok t1] at_okD(1)[OF ok t2] .
  have "v \<notin> set ?w2" if v1: "v \<in> set ?w1" for v
  proof
    assume v2: "v \<in> set ?w2"
    obtain e2 where e2: "map_of (witness t2) v = Some e2"
      using key_lookup[OF v2] by blast
    obtain e1 where e1: "map_of (witness t1) v = Some e1"
      using key_lookup[OF v1] by blast
    show False
      using at_okD(2)[OF ok t1, of v "fst e1" "snd e1"] at_okD(2)[OF ok t2, of v "fst e2" "snd e2"]
        e1 e2 ne by simp
  qed
  then have d: "distinct (?w1 @ ?w2)" using k by (auto simp: tracker_ok_def hm_ok_def)
  have "weight m f ?w1 + weight m f ?w2 = weight m f (?w1 @ ?w2)" by (simp add: weight_def)
  also have "\<dots> \<le> total_weight m f" by (rule weight_le_total[OF m d])
  finally show ?thesis .
qed

section \<open>The state machine\<close>

text \<open>The operations of \<open>Doomslug\<close> that its caller can make, with the stakes of an epoch.\<close>

inductive ds_step :: "(approval_stake \<times> bool) list \<Rightarrow> doomslug \<Rightarrow> doomslug \<Rightarrow> bool"
  for stakes :: "(approval_stake \<times> bool) list" where
  step_block: "ds_step stakes ds (on_block now hash height final ds)"
| step_approval: "on_approval wall now ap stakes ds = Some ds' \<Longrightarrow> ds_step stakes ds ds'"
| step_timer: "process_timer real wall cur ds = (ds', approvals) \<Longrightarrow> ds_step stakes ds ds'"
| step_ready: "ready_to_produce_block now th chunks ds = (r, ds') \<Longrightarrow> ds_step stakes ds ds'"

inductive reach :: "(approval_stake \<times> bool) list \<Rightarrow> threshold_mode \<Rightarrow> doomslug \<Rightarrow> bool"
  for stakes :: "(approval_stake \<times> bool) list" and mode :: threshold_mode where
  reach_new: "reach stakes mode (doomslug_new real sent ed mi st ma mode)"
| reach_step: "reach stakes mode ds \<Longrightarrow> ds_step stakes ds ds' \<Longrightarrow> reach stakes mode ds'"

definition ds_ok :: "(approval_stake \<times> bool) list \<Rightarrow> threshold_mode \<Rightarrow> doomslug \<Rightarrow> bool" where
  "ds_ok stakes mode ds \<longleftrightarrow>
     ds_threshold_mode ds = mode \<and> hm_ok (approval_tracking ds)
     \<and> (\<forall>h a. map_of (approval_tracking ds) h = Some a \<longrightarrow>
          at_ok (unslashed_stakes stakes) mode h a
          \<and> tip_height (tip ds) < h + MAX_HEIGHTS_BEFORE_TO_STORE_APPROVALS
          \<and> h \<le> tip_height (tip ds) + MAX_HEIGHTS_AHEAD_TO_STORE_APPROVALS)"

lemma ds_okD:
  assumes "ds_ok stakes mode ds" "map_of (approval_tracking ds) h = Some a"
  shows "at_ok (unslashed_stakes stakes) mode h a"
    and "tip_height (tip ds) < h + MAX_HEIGHTS_BEFORE_TO_STORE_APPROVALS"
    and "h \<le> tip_height (tip ds) + MAX_HEIGHTS_AHEAD_TO_STORE_APPROVALS"
  using assms unfolding ds_ok_def by blast+

lemma ds_ok_cong:
  "approval_tracking ds' = approval_tracking ds \<Longrightarrow> tip ds' = tip ds
   \<Longrightarrow> ds_threshold_mode ds' = ds_threshold_mode ds \<Longrightarrow> ds_ok stakes mode ds' = ds_ok stakes mode ds"
  by (simp add: ds_ok_def)

lemma doomslug_new_ok: "ds_ok stakes mode (doomslug_new real sent ed mi st ma mode)"
  by (simp add: ds_ok_def doomslug_new_def)

lemma map_of_filter_key: "map_of (filter (\<lambda>(k, _). P k) m) k = (if P k then map_of m k else None)"
  by (induction m) auto

lemma on_block_ok:
  assumes "ds_ok stakes mode ds"
  shows "ds_ok stakes mode (on_block now hash height final ds)"
  using assms by (auto simp: ds_ok_def on_block_def map_of_filter_key MAX_HEIGHTS_BEFORE_TO_STORE_APPROVALS_def
      split: if_splits)

lemma ds_update_ok:
  assumes "ds_ok stakes mode ds" "at_ok (unslashed_stakes stakes) mode h a"
    and "tip_height (tip ds) < h + MAX_HEIGHTS_BEFORE_TO_STORE_APPROVALS"
    and "h \<le> tip_height (tip ds) + MAX_HEIGHTS_AHEAD_TO_STORE_APPROVALS"
  shows "ds_ok stakes mode (ds\<lparr>approval_tracking := AList.update h a (approval_tracking ds)\<rparr>)"
  using assms by (auto simp: ds_ok_def update_conv' split: if_splits)

lemma on_approval_ok:
  assumes ok: "ds_ok stakes mode ds" and step: "on_approval wall now ap stakes ds = Some ds'"
  shows "ds_ok stakes mode ds'"
proof -
  let ?h = "ac_target_height (av_content ap)"
  show ?thesis
  proof (cases "?h < tip_height (tip ds) \<or> tip_height (tip ds) + MAX_HEIGHTS_AHEAD_TO_STORE_APPROVALS < ?h")
    case True
    with step ok show ?thesis by (simp add: on_approval_def)
  next
    case False
    define a where "a = (case map_of (approval_tracking ds) ?h of Some a \<Rightarrow> a | None \<Rightarrow> trackers_new)"
    have a: "at_ok (unslashed_stakes stakes) mode ?h a"
      using ds_okD(1)[OF ok] by (simp add: a_def split: option.splits)
    have mode: "ds_threshold_mode ds = mode" using ok by (simp add: ds_ok_def)
    obtain r a' where a': "process_approval wall now ap stakes mode a = Some (r, a')"
      and eq: "approval_tracking ds' = AList.update ?h a' (approval_tracking ds)" "tip ds' = tip ds"
        "ds_threshold_mode ds' = ds_threshold_mode ds"
      using step False by (auto simp: on_approval_def on_approval_internal_def Let_def mode a_def
          Option.bind_eq_Some_conv split: if_splits)
    have ds': "ds_ok stakes mode ds' = ds_ok stakes mode
                  (ds\<lparr>approval_tracking := AList.update ?h a' (approval_tracking ds)\<rparr>)"
      by (rule ds_ok_cong) (simp_all add: eq)
    show ?thesis
      unfolding ds'
      by (rule ds_update_ok[OF ok process_approval_ok[OF a a']])
        (use False in \<open>simp_all add: MAX_HEIGHTS_BEFORE_TO_STORE_APPROVALS_def\<close>)
  qed
qed

lemma ready_step_ok:
  assumes ok: "ds_ok stakes mode ds" and step: "ready_to_produce_block now h chunks ds = (r, ds')"
  shows "ds_ok stakes mode ds'"
proof -
  let ?inner = "approval_inner_new (block_hash (tip ds)) (tip_height (tip ds)) h"
  show ?thesis
  proof (cases "\<exists>a t. map_of (approval_tracking ds) h = Some a \<and> map_of (approval_trackers a) ?inner = Some t")
    case False
    with step ok show ?thesis by (auto simp: ready_to_produce_block_def Let_def split: option.splits)
  next
    case True
    then obtain a t where a: "map_of (approval_tracking ds) h = Some a"
      "map_of (approval_trackers a) ?inner = Some t" by blast
    define t' where "t' = snd (get_block_production_readiness now t)"
    let ?a = "a\<lparr>approval_trackers := AList.update ?inner t' (approval_trackers a)\<rparr>"
    have ds': "ds' = ds\<lparr>approval_tracking := AList.update h ?a (approval_tracking ds)\<rparr>"
      using step a by (simp add: ready_to_produce_block_def Let_def t'_def case_prod_unfold)
    note at = ds_okD(1)[OF ok a(1)]
    have "tracker_ok (unslashed_stakes stakes) mode t'"
      unfolding t'_def by (rule readiness_ok[OF at_okD(1)[OF at a(2)]])
    moreover have "witness t' = witness t" by (simp add: t'_def)
    ultimately have "at_ok (unslashed_stakes stakes) mode h ?a"
      using at at_okD(2)[OF at a(2)] unfolding at_ok_def by (auto simp: update_conv' split: if_splits)
    then show ?thesis
      unfolding ds' using ds_okD(2,3)[OF ok a(1)] by (rule ds_update_ok[OF ok])
  qed
qed

lemma ready_true_cases:
  assumes "ready_to_produce_block now h chunks ds = (True, ds')"
  obtains a t where "map_of (approval_tracking ds) h = Some a"
    "map_of (approval_trackers a) (approval_inner_new (block_hash (tip ds)) (tip_height (tip ds)) h) = Some t"
    "fst (get_block_production_readiness now t) \<noteq> NotReady"
proof -
  obtain a where a: "map_of (approval_tracking ds) h = Some a"
    using assms by (cases "map_of (approval_tracking ds) h") (simp_all add: ready_to_produce_block_def Let_def)
  let ?inner = "approval_inner_new (block_hash (tip ds)) (tip_height (tip ds)) h"
  obtain t where t: "map_of (approval_trackers a) ?inner = Some t"
    using assms by (cases "map_of (approval_trackers a) ?inner")
      (simp_all add: ready_to_produce_block_def Let_def a)
  have "fst (get_block_production_readiness now t) \<noteq> NotReady"
    using assms by (auto simp: ready_to_produce_block_def Let_def a t case_prod_unfold)
  with a t show thesis by (rule that)
qed

section \<open>The timer\<close>

lemma update_history_keeps [simp]:
  "approval_tracking (update_history e ds) = approval_tracking ds" "tip (update_history e ds) = tip ds"
  "ds_threshold_mode (update_history e ds) = ds_threshold_mode ds" "timer (update_history e ds) = timer ds"
  "largest_final_height (update_history e ds) = largest_final_height ds"
  "largest_sent_target_height (update_history e ds) = largest_sent_target_height ds"
  "endorsement_pending (update_history e ds) = endorsement_pending ds"
  by (simp_all add: update_history_def Let_def)

lemma endorse_step_keeps:
  assumes "endorse_step real wall cur ds = (ds', ret)"
  shows "approval_tracking ds' = approval_tracking ds" "tip ds' = tip ds"
    "ds_threshold_mode ds' = ds_threshold_mode ds" "largest_final_height ds' = largest_final_height ds"
    "started (timer ds') = started (timer ds)" "timer_height (timer ds') = timer_height (timer ds)"
    "get_delay (timer ds') n = get_delay (timer ds) n"
    "endorsement_delay (timer ds') = endorsement_delay (timer ds)"
  using assms by (auto simp: endorse_step_def Let_def create_approval_def get_delay_def split: if_splits)

lemma skip_step_keeps:
  assumes "skip_step real wall cur d ds = Some (ds', ret)"
  shows "approval_tracking ds' = approval_tracking ds" "tip ds' = tip ds"
    "ds_threshold_mode ds' = ds_threshold_mode ds" "largest_final_height ds' = largest_final_height ds"
    "started (timer ds') = started (timer ds) + d" "timer_height (timer ds') = timer_height (timer ds) + 1"
    "get_delay (timer ds') n = get_delay (timer ds) n" "endorsement_pending ds' = endorsement_pending ds"
    "ret = [approval_content_new (block_hash (tip ds)) (tip_height (tip ds)) (timer_height (timer ds) + 1)]"
    "started (timer ds) + d \<le> cur"
  using assms by (auto simp: skip_step_def Let_def create_approval_def get_delay_def split: if_splits)

lemma timer_loop_keeps:
  "timer_loop n real wall cur ds = (ds', ret) \<Longrightarrow>
   approval_tracking ds' = approval_tracking ds \<and> tip ds' = tip ds
   \<and> ds_threshold_mode ds' = ds_threshold_mode ds"
proof (induction n arbitrary: ds ds' ret)
  case (Suc n)
  obtain ds1 r1 where 1: "endorse_step real wall cur ds = (ds1, r1)" by (cases "endorse_step real wall cur ds")
  let ?d = "get_delay (timer ds) (timer_height (timer ds) - largest_final_height ds)"
  show ?case
  proof (cases "skip_step real wall cur ?d ds1")
    case None
    then show ?thesis using Suc.prems endorse_step_keeps[OF 1] by (simp add: 1 Let_def)
  next
    case (Some e)
    obtain ds2 r2 where 2: "e = (ds2, r2)" by (cases e)
    obtain ds3 r3 where 3: "timer_loop n real wall cur ds2 = (ds3, r3)" by (cases "timer_loop n real wall cur ds2")
    have "ds' = ds3" using Suc.prems by (simp add: 1 Some 2 3 Let_def)
    then show ?thesis
      using Suc.IH[OF 3] endorse_step_keeps[OF 1] skip_step_keeps[OF Some[unfolded 2]] by simp
  qed
qed simp

lemma ds_step_ok:
  assumes "ds_step stakes ds ds'" "ds_ok stakes mode ds"
  shows "ds_ok stakes mode ds'"
  using assms
proof cases
  case (step_timer real wall cur approvals)
  then have "ds_ok stakes mode ds' = ds_ok stakes mode ds"
    using timer_loop_keeps[of MAX_TIMER_ITERS real wall cur ds ds' approvals]
    by (intro ds_ok_cong) (simp_all add: process_timer_def)
  with assms(2) show ?thesis by simp
qed (auto intro: on_block_ok on_approval_ok ready_step_ok)

lemma reach_ok: "reach stakes mode ds \<Longrightarrow> ds_ok stakes mode ds"
  by (induction rule: reach.induct) (auto intro: doomslug_new_ok ds_step_ok)

end
