(* ===== verification/Doomslug_Props.thy ===== *)
theory Doomslug_Props
  imports Doomslug_Inv
begin

text \<open>The properties of Doomslug, for the states reachable with one set of stakes.\<close>

section \<open>The loop of the timer\<close>

definition endorsement_due :: "nat \<Rightarrow> doomslug \<Rightarrow> bool" where
  "endorsement_due cur ds \<longleftrightarrow>
     endorsement_pending ds \<and> last_endorsement_sent (timer ds) + endorsement_delay (timer ds) \<le> cur"

lemma endorse_not_due: "\<not> endorsement_due cur ds \<Longrightarrow> endorse_step real wall cur ds = (ds, [])"
  by (auto simp: endorse_step_def endorsement_due_def Let_def)

lemma endorse_then_not_due: "\<not> endorsement_due cur (fst (endorse_step real wall cur ds))"
  by (auto simp: endorse_step_def endorsement_due_def Let_def create_approval_def)

lemma skip_not_due:
  assumes "skip_step real wall cur d ds = Some (ds', ret)"
  shows "endorsement_due cur ds' = endorsement_due cur ds"
  using assms by (auto simp: skip_step_def Let_def endorsement_due_def split: if_splits)

text \<open>The skip messages of \<open>k\<close> iterations, and the instants at which they are due.\<close>

definition skips :: "doomslug \<Rightarrow> nat \<Rightarrow> approval_content list" where
  "skips ds k = map (\<lambda>i. approval_content_new (block_hash (tip ds)) (tip_height (tip ds))
                          (timer_height (timer ds) + i)) [1..<Suc k]"

fun skip_at :: "doomslug \<Rightarrow> nat \<Rightarrow> nat" where
  "skip_at ds 0 = started (timer ds)"
| "skip_at ds (Suc i) =
     skip_at ds i + get_delay (timer ds) (timer_height (timer ds) + i - largest_final_height ds)"

text \<open>The number of skips due at \<open>cur\<close>, of at most \<open>n\<close>.\<close>

definition due_skips :: "nat \<Rightarrow> nat \<Rightarrow> doomslug \<Rightarrow> nat \<Rightarrow> bool" where
  "due_skips n cur ds k \<longleftrightarrow> k \<le> n \<and> (\<forall>i < k. skip_at ds (Suc i) \<le> cur) \<and> (k < n \<longrightarrow> cur < skip_at ds (Suc k))"

lemma due_skips_unique: "due_skips n cur ds k \<Longrightarrow> due_skips n cur ds j \<Longrightarrow> k = j"
  unfolding due_skips_def by (metis leD le_less_trans nat_neq_iff order_less_le_trans)

lemma skips_shift:
  assumes "tip ds' = tip ds" "timer_height (timer ds') = Suc (timer_height (timer ds))"
  shows "skips ds (Suc k) = approval_content_new (block_hash (tip ds)) (tip_height (tip ds))
           (timer_height (timer ds) + 1) # skips ds' k"
proof -
  have "[1..<Suc (Suc k)] = 1 # map Suc [1..<Suc k]"
    by (metis One_nat_def Suc_less_eq map_Suc_upt upt_conv_Cons zero_less_Suc)
  then show ?thesis using assms by (simp add: skips_def comp_def)
qed

lemma skip_at_shift:
  assumes "started (timer ds') = skip_at ds 1" "timer_height (timer ds') = Suc (timer_height (timer ds))"
    and "largest_final_height ds' = largest_final_height ds" "\<And>n. get_delay (timer ds') n = get_delay (timer ds) n"
  shows "skip_at ds' i = skip_at ds (Suc i)"
  using assms by (induction i) simp_all

lemma skip_at_cong:
  assumes "timer_height (timer ds') = timer_height (timer ds)" "started (timer ds') = started (timer ds)"
    and "largest_final_height ds' = largest_final_height ds" "\<And>n. get_delay (timer ds') n = get_delay (timer ds) n"
  shows "skip_at ds' i = skip_at ds i"
  using assms by (induction i) simp_all

lemma due_skips_shift:
  assumes "\<And>i. skip_at ds' i = skip_at ds (Suc i)" "skip_at ds 1 \<le> cur" "due_skips n cur ds' k"
  shows "due_skips (Suc n) cur ds (Suc k)"
proof -
  note due = assms(3)[unfolded due_skips_def assms(1)]
  have "skip_at ds (Suc i) \<le> cur" if "i < Suc k" for i
    using that assms(2) due by (cases i) (simp_all del: skip_at.simps)
  then show ?thesis using due by (simp add: due_skips_def del: skip_at.simps)
qed

lemma timer_loop_spec:
  assumes "\<not> endorsement_due cur ds" "timer_loop n real wall cur ds = (ds', ret)"
  shows "\<exists>k. due_skips n cur ds k \<and> ret = skips ds k \<and> timer_height (timer ds') = timer_height (timer ds) + k
           \<and> started (timer ds') = skip_at ds k"
  using assms
proof (induction n arbitrary: ds ret)
  case 0
  then show ?case by (intro exI[of _ 0]) (simp add: skips_def due_skips_def)
next
  case (Suc n)
  let ?d = "get_delay (timer ds) (timer_height (timer ds) - largest_final_height ds)"
  have e: "endorse_step real wall cur ds = (ds, [])" by (rule endorse_not_due[OF Suc.prems(1)])
  show ?case
  proof (cases "skip_step real wall cur ?d ds")
    case None
    then have "ds' = ds" "ret = []" "cur < skip_at ds 1"
      using Suc.prems(2) by (simp_all add: e Let_def skip_step_def split: if_splits)
    then show ?thesis by (intro exI[of _ 0]) (simp add: skips_def due_skips_def)
  next
    case (Some r)
    then obtain ds1 r1 where 1: "skip_step real wall cur ?d ds = Some (ds1, r1)" by (cases r) simp
    obtain rest where 2: "timer_loop n real wall cur ds1 = (ds', rest)" "ret = r1 @ rest"
      using Suc.prems(2) by (auto simp: e 1 Let_def split: prod.splits)
    note sk = skip_step_keeps[OF 1]
    have shift: "skip_at ds1 i = skip_at ds (Suc i)" for i
      by (rule skip_at_shift) (simp_all add: sk)
    have "\<not> endorsement_due cur ds1" using skip_not_due[OF 1] Suc.prems(1) by simp
    from Suc.IH[OF this 2(1)] obtain k where k: "due_skips n cur ds1 k" "rest = skips ds1 k"
      "timer_height (timer ds') = timer_height (timer ds1) + k" "started (timer ds') = skip_at ds1 k" by blast
    have "due_skips (Suc n) cur ds (Suc k)"
      using sk(10) by (intro due_skips_shift[OF shift _ k(1)]) simp
    moreover have "ret = skips ds (Suc k)"
      using skips_shift[OF sk(2), of k] sk(6) k(2) 2(2) sk(9) by simp
    moreover have "timer_height (timer ds') = timer_height (timer ds) + Suc k" using k(3) sk(6) by simp
    moreover have "started (timer ds') = skip_at ds (Suc k)" by (simp only: k(4) shift)
    ultimately show ?thesis by blast
  qed
qed

lemma process_timer_spec:
  assumes "process_timer real wall cur ds = (ds', ret)"
  shows "\<exists>k. due_skips MAX_TIMER_ITERS cur ds k \<and> ret = snd (endorse_step real wall cur ds) @ skips ds k
           \<and> timer_height (timer ds') = timer_height (timer ds) + k \<and> started (timer ds') = skip_at ds k"
proof -
  obtain ds1 r1 where 1: "endorse_step real wall cur ds = (ds1, r1)"
    by (cases "endorse_step real wall cur ds")
  note en = endorse_step_keeps[OF 1]
  have nd: "\<not> endorsement_due cur ds1" using endorse_then_not_due[of cur real wall ds] by (simp add: 1)
  obtain n where n: "MAX_TIMER_ITERS = Suc n" by (simp add: MAX_TIMER_ITERS_def)
  have same: "skips ds1 k = skips ds k" for k by (simp add: skips_def en)
  have at: "skip_at ds1 k = skip_at ds k" for k by (rule skip_at_cong) (simp_all add: en)
  define q where "q = timer_loop (Suc n) real wall cur ds1"
  have "timer_loop (Suc n) real wall cur ds = (fst q, r1 @ snd q)"
    by (simp add: q_def 1 endorse_not_due[OF nd] en Let_def split: option.splits prod.splits)
  then have fq: "fst q = ds'" "ret = r1 @ snd q"
    using assms unfolding process_timer_def n by (simp_all del: timer_loop.simps)
  then have q: "timer_loop (Suc n) real wall cur ds1 = (ds', snd q)"
    unfolding q_def[symmetric] by (simp add: prod_eq_iff)
  from timer_loop_spec[OF nd q] show ?thesis
    unfolding fq(2) n same en(6) 1 snd_conv due_skips_def at by blast
qed

text \<open>What the first half sends.\<close>

lemma endorse_sends:
  "snd (endorse_step real wall cur ds) =
     (if endorsement_pending ds \<and> last_endorsement_sent (timer ds) + endorsement_delay (timer ds) \<le> cur
         \<and> largest_sent_target_height ds \<le> tip_height (tip ds)
      then [new_endorsement (block_hash (tip ds)) (tip_height (tip ds) + 1)] else [])"
  by (simp add: endorse_step_def Let_def create_approval_def approval_content_new_def
      approval_inner_new_def new_endorsement_def)

section \<open>Witnesses and trackers\<close>

lemma get_witness_cases:
  obtains (none) "get_witness ds ph pheight th = []"
  | (some) a t where "map_of (approval_tracking ds) th = Some a"
      "map_of (approval_trackers a) (approval_inner_new ph pheight th) = Some t"
      "get_witness ds ph pheight th = witness t"
proof (cases "map_of (approval_tracking ds) th")
  case None
  then show thesis using none by (simp add: get_witness_def)
next
  case (Some a)
  then show thesis
    using none some[OF Some]
    by (cases "map_of (approval_trackers a) (approval_inner_new ph pheight th)")
      (simp_all add: get_witness_def)
qed

lemma weight_Nil [simp]: "weight m f [] = 0"
  by (simp add: weight_def)

lemma hm_ok_unslashed [simp]: "hm_ok (unslashed_stakes stakes)"
proof -
  have "hm_ok (fold (\<lambda>(x, is_slashed) m. if is_slashed then m
      else AList.update (st_validator x) (stake_this_epoch x, stake_next_epoch x) m) stakes m)"
    if "hm_ok m" for m
    using that
  proof (induction stakes arbitrary: m)
    case (Cons s stakes)
    then show ?case by (cases s) simp
  qed simp
  then show ?thesis unfolding unslashed_stakes_def using hm_ok_Nil by blast
qed

text \<open>The number of stakes that survive, and when the assertion of \<open>process_approval\<close> holds.\<close>

lemma keys_unslashed: "fst ` set (unslashed_stakes stakes) = st_validator ` fst ` {s \<in> set stakes. \<not> snd s}"
proof -
  have "fst ` set (fold (\<lambda>(x, is_slashed) m. if is_slashed then m
      else AList.update (st_validator x) (stake_this_epoch x, stake_next_epoch x) m) stakes m)
      = fst ` set m \<union> st_validator ` fst ` {s \<in> set stakes. \<not> snd s}" for m
  proof (induction stakes arbitrary: m)
    case (Cons s stakes)
    obtain x b where s: "s = (x, b)" by (cases s)
    have "{y \<in> set (s # stakes). \<not> snd y} = (if b then {} else {(x, b)}) \<union> {y \<in> set stakes. \<not> snd y}"
      by (auto simp: s)
    then show ?case using Cons by (cases b) (simp_all add: s dom_update)
  qed simp
  from this[of "[]"] show ?thesis by (simp add: unslashed_stakes_def)
qed

lemma length_unslashed:
  "length (unslashed_stakes stakes) = card (st_validator ` fst ` {s \<in> set stakes. \<not> snd s})"
proof -
  have "length (unslashed_stakes stakes) = card (set (map fst (unslashed_stakes stakes)))"
    by (metis distinct_card hm_ok_def hm_ok_unslashed length_map)
  then show ?thesis using keys_unslashed[of stakes] by simp
qed

lemma unslashed_complete:
  "length (unslashed_stakes stakes) = length stakes
   \<longleftrightarrow> (\<forall>s \<in> set stakes. \<not> snd s) \<and> distinct (map (st_validator \<circ> fst) stakes)"
proof -
  let ?f = "st_validator \<circ> fst" and ?live = "filter (\<lambda>s. \<not> snd s) stakes"
  have "length (unslashed_stakes stakes) = card (set (map ?f ?live))"
    by (simp add: length_unslashed image_comp)
  moreover have "card (set (map ?f ?live)) \<le> length ?live" by (metis card_length length_map)
  moreover have "length ?live \<le> length stakes" by simp
  moreover have "length ?live = length stakes \<longleftrightarrow> (\<forall>s \<in> set stakes. \<not> snd s)"
    by (metis filter_True length_filter_less nat_less_le)
  moreover have "card (set (map ?f ?live)) = length ?live \<longleftrightarrow> distinct (map ?f ?live)"
    by (metis card_distinct distinct_card length_map)
  moreover have "?live = stakes" if "\<forall>s \<in> set stakes. \<not> snd s" using that by (simp add: filter_id_conv)
  ultimately show ?thesis by (metis le_antisym)
qed

section \<open>Properties\<close>

text \<open>Two validators of equal stake and a third one, and the states used as examples.\<close>

definition stake :: "address \<Rightarrow> balance \<Rightarrow> approval_stake \<times> bool" where
  "stake v b = (\<lparr>st_validator = v, stake_this_epoch = b, stake_next_epoch = b\<rparr>, False)"

definition endorse :: "address \<Rightarrow> crypto_hash \<Rightarrow> nat \<Rightarrow> approval_validated" where
  "endorse v h th = \<lparr>av_content = new_endorsement h th, av_signature = [], av_validator = v\<rparr>"

definition one_validator :: "(approval_stake \<times> bool) list" where
  "one_validator = [stake 1 10]"

definition voted :: doomslug where
  "voted = the (on_approval 0 5 (endorse 1 0 1) one_validator (doomslug_new 0 0 1 2 1 10 TwoThirds))"

lemma voted_reach: "reach one_validator TwoThirds voted"
proof -
  have "on_approval 0 5 (endorse 1 0 1) one_validator (doomslug_new 0 0 1 2 1 10 TwoThirds) = Some voted"
    unfolding voted_def by code_simp
  from reach_step[OF reach_new step_approval[OF this]] show ?thesis .
qed

text \<open>
  C14: a block is only produced on a quorum. In production mode, when \<open>ready_to_produce_block\<close> says
  yes, the witness for the tip as parent holds approvals of different validators, each for this
  parent and this target height, with more than two thirds of the stake of the epoch.
\<close>

theorem ready_has_quorum:
  assumes "reach stakes TwoThirds ds" "2 * total_weight (unslashed_stakes stakes) fst < 2 ^ 128"
    and "ready_to_produce_block now th chunks ds = (True, ds')"
  defines "w \<equiv> get_witness ds (block_hash (tip ds)) (tip_height (tip ds)) th"
  shows "distinct (map fst w)
         \<and> (\<forall>(v, ap, _) \<in> set w. av_validator ap = v
              \<and> av_content ap = approval_content_new (block_hash (tip ds)) (tip_height (tip ds)) th)
         \<and> 2 * total_weight (unslashed_stakes stakes) fst
             < 3 * weight (unslashed_stakes stakes) fst (map fst w)"
proof -
  let ?inner = "approval_inner_new (block_hash (tip ds)) (tip_height (tip ds)) th"
  have ok: "ds_ok stakes TwoThirds ds" by (rule reach_ok[OF assms(1)])
  obtain a t where a: "map_of (approval_tracking ds) th = Some a"
    "map_of (approval_trackers a) ?inner = Some t"
    and r: "fst (get_block_production_readiness now t) \<noteq> NotReady"
    by (rule ready_true_cases[OF assms(3)])
  note at = ds_okD(1)[OF ok a(1)]
  have w: "w = witness t" by (simp add: w_def get_witness_def a)
  have t: "tracker_ok (unslashed_stakes stakes) TwoThirds t" by (rule at_okD(1)[OF at a(2)])
  have "av_validator ap = v
      \<and> av_content ap = approval_content_new (block_hash (tip ds)) (tip_height (tip ds)) th"
    if "(v, ap, x) \<in> set w" for v ap x
  proof -
    have "map_of (witness t) v = Some (ap, x)"
      using that t by (simp add: w tracker_ok_def hm_ok_map_of)
    from at_okD(2)[OF at a(2) this] show ?thesis
      using that t by (auto simp: w tracker_ok_def approval_content_new_def)
  qed
  then show ?thesis
    using ready_weight[OF t hm_ok_unslashed assms(2) r] t by (auto simp: w tracker_ok_def hm_ok_def)
qed

theorem ready_has_quorum_witness:
  "2 * total_weight (unslashed_stakes one_validator) fst
     < 3 * weight (unslashed_stakes one_validator) fst (map fst (get_witness voted 0 0 1))"
proof -
  have r: "fst (ready_to_produce_block 6 1 True voted)" by code_simp
  have "unslashed_stakes one_validator = [(1, 10, 10)]" by code_simp
  then have small: "2 * total_weight (unslashed_stakes one_validator) fst < 2 ^ 128"
    by (simp add: total_weight_def)
  obtain ds' where "ready_to_produce_block 6 1 True voted = (True, ds')"
    using r by (cases "ready_to_produce_block 6 1 True voted") (simp only: fst_conv eqTrueI)
  note ready_has_quorum[OF voted_reach small this]
  moreover have "block_hash (tip voted) = 0" "tip_height (tip voted) = 0" by code_simp+
  ultimately show ?thesis by simp
qed

lemma quorum_inner:
  assumes "reach stakes mode ds"
    and "2 * total_weight (unslashed_stakes stakes) fst
           < 3 * weight (unslashed_stakes stakes) fst (map fst (get_witness ds ph1 h1 th))"
    and "2 * total_weight (unslashed_stakes stakes) fst
           < 3 * weight (unslashed_stakes stakes) fst (map fst (get_witness ds ph2 h2 th))"
  shows "approval_inner_new ph1 h1 th = approval_inner_new ph2 h2 th"
proof (rule ccontr)
  assume ne: "approval_inner_new ph1 h1 th \<noteq> approval_inner_new ph2 h2 th"
  have ok: "ds_ok stakes mode ds" by (rule reach_ok[OF assms(1)])
  obtain a t1 where 1: "map_of (approval_tracking ds) th = Some a"
    "map_of (approval_trackers a) (approval_inner_new ph1 h1 th) = Some t1"
    "get_witness ds ph1 h1 th = witness t1"
    using assms(2) by (cases rule: get_witness_cases[of ds ph1 h1 th]) auto
  obtain t2 where 2: "map_of (approval_trackers a) (approval_inner_new ph2 h2 th) = Some t2"
    "get_witness ds ph2 h2 th = witness t2"
    using assms(3) 1(1) by (cases rule: get_witness_cases[of ds ph2 h2 th]) auto
  have "weight (unslashed_stakes stakes) fst (map fst (witness t1))
      + weight (unslashed_stakes stakes) fst (map fst (witness t2))
      \<le> total_weight (unslashed_stakes stakes) fst"
    by (rule witnesses_disjoint[OF ds_okD(1)[OF ok 1(1)] hm_ok_unslashed 1(2) 2(1) ne])
  then show False using assms(2,3) by (simp add: 1(3) 2(2))
qed

text \<open>
  C15: safety across parents. In every reachable state, whatever was approved, changed and withdrawn, two
  parents that both have the approval of more than two thirds of the stake at a target height agree:
  if one of them is the block just below, the other one is, too, and has the same hash; else both have
  the same height. More cannot hold of the latter: a skip names no hash, so every parent of that height
  has the same approvals.
\<close>

theorem quorum_unique:
  assumes "reach stakes mode ds"
    and "2 * total_weight (unslashed_stakes stakes) fst
           < 3 * weight (unslashed_stakes stakes) fst (map fst (get_witness ds ph1 h1 th))"
    and "2 * total_weight (unslashed_stakes stakes) fst
           < 3 * weight (unslashed_stakes stakes) fst (map fst (get_witness ds ph2 h2 th))"
  shows "h1 = h2 \<and> (if th = h1 + 1 then ph1 = ph2 else \<forall>ph. get_witness ds ph h1 th = get_witness ds ph1 h1 th)"
proof -
  have "approval_inner_new ph1 h1 th = approval_inner_new ph2 h2 th" by (rule quorum_inner[OF assms])
  moreover have "get_witness ds ph h1 th = get_witness ds ph1 h1 th" if "th \<noteq> h1 + 1" for ph
  proof -
    have "approval_inner_new ph h1 th = approval_inner_new ph1 h1 th" using that by (simp add: approval_inner_new_def)
    then show ?thesis by (simp only: get_witness_def)
  qed
  ultimately show ?thesis
    by (cases "th = h1 + 1"; cases "th = h2 + 1") (simp_all add: approval_inner_new_def)
qed

definition skipped :: doomslug where
  "skipped = the (on_approval 0 5 \<lparr>av_content = \<lparr>ac_inner = Skip 0, ac_target_height = 2\<rparr>, av_signature = [],
                                   av_validator = 1\<rparr> one_validator (doomslug_new 0 0 1 2 1 10 TwoThirds))"

lemma skipped_reach: "reach one_validator TwoThirds skipped"
proof -
  have "on_approval 0 5 \<lparr>av_content = \<lparr>ac_inner = Skip 0, ac_target_height = 2\<rparr>, av_signature = [],
      av_validator = 1\<rparr> one_validator (doomslug_new 0 0 1 2 1 10 TwoThirds) = Some skipped"
    unfolding skipped_def by code_simp
  from reach_step[OF reach_new step_approval[OF this]] show ?thesis .
qed

theorem quorum_unique_witness:
  "get_witness skipped 7 0 2 \<noteq> [] \<and> get_witness skipped 8 0 2 = get_witness skipped 7 0 2"
proof -
  have u: "unslashed_stakes one_validator = [(1, 10, 10)]" by code_simp
  have w: "map fst (get_witness skipped 7 0 2) = [1]" "map fst (get_witness skipped 8 0 2) = [1]" by code_simp+
  have q: "2 * total_weight (unslashed_stakes one_validator) fst
      < 3 * weight (unslashed_stakes one_validator) fst (map fst (get_witness skipped 7 0 2))"
    "2 * total_weight (unslashed_stakes one_validator) fst
      < 3 * weight (unslashed_stakes one_validator) fst (map fst (get_witness skipped 8 0 2))"
    unfolding u w by (simp_all add: total_weight_def weight_def)
  show ?thesis using quorum_unique[OF skipped_reach q] w by auto
qed

text \<open>
  C36: memory stays bounded. In every reachable state all the heights with tracked approvals lie
  between the tip less 20 and the tip plus 10,000, so there are at most 10,020 of them.
\<close>

theorem tracked_heights_bounded:
  assumes "reach stakes mode ds"
  shows "(\<forall>h \<in> set (map fst (approval_tracking ds)).
            tip_height (tip ds) < h + 20 \<and> h \<le> tip_height (tip ds) + 10000)
         \<and> length (approval_tracking ds) \<le> 10020"
proof -
  have ok: "ds_ok stakes mode ds" by (rule reach_ok[OF assms])
  have win: "tip_height (tip ds) < h + 20 \<and> h \<le> tip_height (tip ds) + 10000"
    if h: "h \<in> set (map fst (approval_tracking ds))" for h
    using key_lookup[OF h] ds_okD(2,3)[OF ok]
    by (auto simp: MAX_HEIGHTS_AHEAD_TO_STORE_APPROVALS_def MAX_HEIGHTS_BEFORE_TO_STORE_APPROVALS_def)
  have "set (map fst (approval_tracking ds)) \<subseteq> {tip_height (tip ds) - 19..tip_height (tip ds) + 10000}"
    using win by fastforce
  then have "card (set (map fst (approval_tracking ds))) \<le> card {tip_height (tip ds) - 19..tip_height (tip ds) + 10000}"
    by (rule card_mono[rotated]) simp
  also have "\<dots> \<le> 10020" by simp
  finally have "card (set (map fst (approval_tracking ds))) \<le> 10020" .
  moreover have "card (set (map fst (approval_tracking ds))) = length (approval_tracking ds)"
    using ok by (metis distinct_card ds_ok_def hm_ok_def length_map)
  ultimately show ?thesis using win by simp
qed

theorem tracked_heights_bounded_witness:
  "length (approval_tracking voted) \<le> 10020"
  using tracked_heights_bounded[OF voted_reach] by blast

text \<open>
  C37: what \<open>process_timer\<close> sends, exactly. First the endorsement of the tip, if one is pending, the
  delay since the last one has passed and nothing was sent for a greater height; then one skip message
  for each of the next \<open>k\<close> heights of the timer, where \<open>k\<close> is the number of consecutive skips that are
  due by now, each a delay after the one before it, or 20 if more are due. The timer then stands at the
  instant and the height of the last of them.
\<close>

theorem process_timer_bounded:
  assumes "process_timer real wall cur ds = (ds', ret)"
  shows "\<exists>k \<le> 20. (\<forall>i < k. skip_at ds (Suc i) \<le> cur) \<and> (k < 20 \<longrightarrow> cur < skip_at ds (Suc k))
    \<and> ret = (if endorsement_pending ds \<and> last_endorsement_sent (timer ds) + endorsement_delay (timer ds) \<le> cur
                \<and> largest_sent_target_height ds \<le> tip_height (tip ds)
             then [new_endorsement (block_hash (tip ds)) (tip_height (tip ds) + 1)] else [])
         @ map (\<lambda>i. approval_content_new (block_hash (tip ds)) (tip_height (tip ds)) (timer_height (timer ds) + i))
             [1..<Suc k]
    \<and> timer_height (timer ds') = timer_height (timer ds) + k \<and> started (timer ds') = skip_at ds k"
  using process_timer_spec[OF assms] unfolding MAX_TIMER_ITERS_def due_skips_def endorse_sends skips_def by blast

definition waiting :: doomslug where
  "waiting = on_block 0 7 3 2 (doomslug_new 0 0 1 4 1 10 TwoThirds)"

theorem process_timer_bounded_witness:
  "map ac_target_height (snd (process_timer 0 0 9 waiting)) = [4, 5, 6]"
proof -
  obtain ds' ret where r: "process_timer 0 0 9 waiting = (ds', ret)" by (cases "process_timer 0 0 9 waiting")
  have at: "skip_at waiting (Suc 0) = 4" "skip_at waiting (Suc (Suc 0)) = 9" "skip_at waiting (Suc (Suc (Suc 0))) = 15"
    by (simp_all add: waiting_def on_block_def doomslug_new_def get_delay_def)
  have ds: "endorsement_pending waiting \<and> last_endorsement_sent (timer waiting) + endorsement_delay (timer waiting) \<le> 9
      \<and> largest_sent_target_height waiting \<le> tip_height (tip waiting)" "timer_height (timer waiting) = 4"
    "tip_height (tip waiting) = 3" by code_simp+
  obtain k where k: "\<forall>i < k. skip_at waiting (Suc i) \<le> 9" "k < 20 \<longrightarrow> 9 < skip_at waiting (Suc k)"
    "ret = [new_endorsement (block_hash (tip waiting)) (3 + 1)]
       @ map (\<lambda>i. approval_content_new (block_hash (tip waiting)) 3 (4 + i)) [1..<Suc k]"
    using process_timer_bounded[OF r] unfolding if_P[OF ds(1)] unfolding ds(2,3) by (elim exE conjE) (rule that)
  have "\<not> 2 < k"
  proof
    assume "2 < k"
    then have "skip_at waiting (Suc (Suc (Suc 0))) \<le> 9" using k(1) by (simp only: numeral_2_eq_2)
    with at(3) show False by (simp del: skip_at.simps)
  qed
  moreover have "k \<noteq> 0" using k(2) at(1) by (intro notI) (simp del: skip_at.simps)
  moreover have "k \<noteq> 1" using k(2) at(2) by (intro notI) (simp del: skip_at.simps)
  ultimately have "k = 2" by linarith
  then show ?thesis using k(3) r by (simp add: new_endorsement_def approval_content_new_def upt_rec)
qed

text \<open>
  C38: an approval for a height outside the window changes nothing; one inside makes the node panic
  exactly when some validator is slashed or listed twice, because of the assertion on the number of
  stakes.
\<close>

theorem on_approval_panics_iff:
  "on_approval wall now ap stakes ds = None \<longleftrightarrow>
     tip_height (tip ds) \<le> ac_target_height (av_content ap)
     \<and> ac_target_height (av_content ap) \<le> tip_height (tip ds) + 10000
     \<and> \<not> (list_all (\<lambda>s. \<not> snd s) stakes \<and> distinct (map (st_validator \<circ> fst) stakes))"
proof -
  have "on_approval_internal wall now ap stakes ds = None
      \<longleftrightarrow> length (unslashed_stakes stakes) \<noteq> length stakes"
    by (simp add: on_approval_internal_def process_approval_def Let_def case_prod_unfold
        Option.bind_eq_None_conv)
  then show ?thesis
    using unslashed_complete[of stakes]
    by (auto simp: on_approval_def Let_def MAX_HEIGHTS_AHEAD_TO_STORE_APPROVALS_def not_less list_all_iff)
qed

end
