(* ===== verification/Mempool.thy ===== *)
theory Mempool
  imports Payy_Prelude "HOL-Library.Multiset"
begin

text \<open>
  \<open>pkg/node/src/mempool.rs\<close>: the pool of transactions that wait for a block. The state behind the
  mutex is a record; each operation holds the lock for its whole body (\<open>commit\<close> drops it before
  \<open>free\<close>, and nothing that runs in between could be told apart from running before or after). A \<open>HashSet\<close> of keys is a distinct list in
  its iteration order. The receiving half of \<open>add_wait\<close>'s channel is the list of the results sent,
  each with the sender it went to.
\<close>

record ('v, 'c, 's) mempool_txn =
  mt_txn :: 'v
  mt_sender :: "'s option"
  mt_changes :: "'c list"

record ('k, 'v, 'l, 'c, 's) mempool_state =
  mp_txns :: "('k \<times> ('v, 'c, 's) mempool_txn) list"
  mp_pool :: "'k list"
  mp_leased :: "('l \<times> 'k list) list"

definition mempool_default :: "('k, 'v, 'l, 'c, 's) mempool_state" where
  "mempool_default = \<lparr>mp_txns = [], mp_pool = [], mp_leased = []\<rparr>"

definition mempool_add_inner ::
  "'k \<Rightarrow> 'v \<Rightarrow> 'c list \<Rightarrow> 's option \<Rightarrow> ('k, 'v, 'l, 'c, 's) mempool_state
     \<Rightarrow> ('k, 'v, 'l, 'c, 's) mempool_state" where
  "mempool_add_inner key txn changes sender m =
     (if map_of (mp_txns m) key \<noteq> None then m
      else m\<lparr>mp_txns := AList.update key \<lparr>mt_txn = txn, mt_sender = sender, mt_changes = changes\<rparr> (mp_txns m),
             mp_pool := mp_pool m @ [key]\<rparr>)"

definition mempool_add where
  "mempool_add key txn changes m = mempool_add_inner key txn changes None m"

text \<open>\<open>add_wait\<close> up to its \<open>await\<close>; \<open>s\<close> is the sending half of its channel.\<close>

definition mempool_add_wait where
  "mempool_add_wait key txn changes s m = mempool_add_inner key txn changes (Some s) m"

text \<open>\<open>push_front\<close> of each key of the lease, in the order of the set.\<close>

definition mempool_free ::
  "'l \<Rightarrow> ('k, 'v, 'l, 'c, 's) mempool_state \<Rightarrow> ('k, 'v, 'l, 'c, 's) mempool_state" where
  "mempool_free lease m =
     (let keys = (case map_of (mp_leased m) lease of None \<Rightarrow> [] | Some ks \<Rightarrow> ks)
      in m\<lparr>mp_leased := AList.delete lease (mp_leased m),
           mp_pool := fold (\<lambda>k pool. k # pool) keys (mp_pool m)\<rparr>)"

text \<open>One round of the loop of \<open>commit\<close>, with the result sent if there is a sender.\<close>

definition commit_key ::
  "'l \<Rightarrow> 'k \<Rightarrow> 'r \<Rightarrow> ('k, 'v, 'l, 'c, 's) mempool_state
     \<Rightarrow> ('k, 'v, 'l, 'c, 's) mempool_state \<times> ('s \<times> 'r) list" where
  "commit_key lease key result m =
     (let sent = (case map_of (mp_txns m) key of
                    None \<Rightarrow> []
                  | Some mem_txn \<Rightarrow> (case mt_sender mem_txn of None \<Rightarrow> [] | Some s \<Rightarrow> [(s, result)]));
          leased = (case map_of (mp_leased m) lease of
                      None \<Rightarrow> mp_leased m
                    | Some ks \<Rightarrow> AList.update lease (removeAll key ks) (mp_leased m))
      in (m\<lparr>mp_txns := AList.delete key (mp_txns m), mp_leased := leased,
            mp_pool := remove1 key (mp_pool m)\<rparr>, sent))"

fun commit_loop ::
  "'l \<Rightarrow> ('k \<times> 'r) list \<Rightarrow> ('k, 'v, 'l, 'c, 's) mempool_state
     \<Rightarrow> ('k, 'v, 'l, 'c, 's) mempool_state \<times> ('s \<times> 'r) list" where
  "commit_loop lease [] m = (m, [])"
| "commit_loop lease ((key, result) # rest) m =
     (let (m, sent) = commit_key lease key result m; (m, more) = commit_loop lease rest m
      in (m, sent @ more))"

definition mempool_commit ::
  "'l \<Rightarrow> ('k \<times> 'r) list \<Rightarrow> ('k, 'v, 'l, 'c, 's) mempool_state
     \<Rightarrow> ('k, 'v, 'l, 'c, 's) mempool_state \<times> ('s \<times> 'r) list" where
  "mempool_commit lease keys_with_results m =
     (let (m, sent) = commit_loop lease keys_with_results m in (mempool_free lease m, sent))"

text \<open>Inserting a key into the set of a lease, which is created when it is missing.\<close>

definition lease_insert :: "'l \<Rightarrow> 'k \<Rightarrow> ('l \<times> 'k list) list \<Rightarrow> ('l \<times> 'k list) list" where
  "lease_insert lease key leased =
     (let ks = (case map_of leased lease of None \<Rightarrow> [] | Some ks \<Rightarrow> ks)
      in AList.update lease (if key \<in> set ks then ks else ks @ [key]) leased)"

fun lease_txns ::
  "'l \<Rightarrow> 'k list \<Rightarrow> ('k, 'v, 'l, 'c, 's) mempool_state \<Rightarrow> ('k, 'v, 'l, 'c, 's) mempool_state" where
  "lease_txns lease [] m = m"
| "lease_txns lease (key # keys) m =
     lease_txns lease keys
       (m\<lparr>mp_pool := remove1 key (mp_pool m), mp_leased := lease_insert lease key (mp_leased m)\<rparr>)"

text \<open>
  The \<open>while\<close> loop of \<open>lease_batch\<close> over the front of the pool: what is left of the pool, the leases,
  the transactions taken and the keys to return. \<open>None\<close> is the panic of \<open>expect\<close>.
\<close>

fun lease_loop ::
  "('k \<times> ('v, 'c, 's) mempool_txn) list \<Rightarrow> 'l \<Rightarrow> nat \<Rightarrow> 'k list \<Rightarrow> ('l \<times> 'k list) list
     \<Rightarrow> ('k \<times> 'v) list \<Rightarrow> 'k list \<Rightarrow> 'c list
     \<Rightarrow> ('k list \<times> ('l \<times> 'k list) list \<times> ('k \<times> 'v) list \<times> 'k list) option" where
  "lease_loop mtxns lease max_count [] leased txns discard conflict_check =
     Some ([], leased, txns, discard)"
| "lease_loop mtxns lease max_count (key # pool) leased txns discard conflict_check =
     (case map_of mtxns key of
        None \<Rightarrow> None
      | Some t \<Rightarrow>
          if \<exists>c \<in> set (mt_changes t). c \<in> set conflict_check
          then lease_loop mtxns lease max_count pool leased txns (discard @ [key]) conflict_check
          else
            (let leased = lease_insert lease key leased;
                 txns = txns @ [(key, mt_txn t)]
             in if max_count \<le> length txns then Some (pool, leased, txns, discard)
                else lease_loop mtxns lease max_count pool leased txns discard
                       (conflict_check @ mt_changes t)))"

definition lease_batch ::
  "'l \<Rightarrow> nat \<Rightarrow> ('k, 'v, 'l, 'c, 's) mempool_state
     \<Rightarrow> (('k \<times> 'v) list \<times> ('k, 'v, 'l, 'c, 's) mempool_state) option" where
  "lease_batch lease max_count m = do {
     (pool, leased, txns, discard) \<leftarrow>
       lease_loop (mp_txns m) lease max_count (mp_pool m) (mp_leased m) [] [] [];
     Some (txns, m\<lparr>mp_pool := pool @ discard, mp_leased := leased\<rparr>) }"

section \<open>The invariant\<close>

text \<open>
  Every transaction of the mempool is either in the pool, once, or leased, once; nothing else is.
\<close>

abbreviation leased_keys :: "('k, 'v, 'l, 'c, 's) mempool_state \<Rightarrow> 'k list" where
  "leased_keys m \<equiv> concat (map snd (mp_leased m))"

definition mempool_ok :: "('k, 'v, 'l, 'c, 's) mempool_state \<Rightarrow> bool" where
  "mempool_ok m \<longleftrightarrow>
     hm_ok (mp_txns m) \<and> hm_ok (mp_leased m)
     \<and> mset (mp_pool m) + mset (leased_keys m) = mset (map fst (mp_txns m))"

lemma mempool_default_ok [simp, inv_intros]: "mempool_ok mempool_default"
  by (simp add: mempool_ok_def mempool_default_def)

lemma mempool_add_ok [inv_intros]:
  "mempool_ok m \<Longrightarrow> mempool_ok (mempool_add_inner key txn changes sender m)"
  by (auto simp: mempool_ok_def mempool_add_inner_def update_absent hm_ok_def map_of_eq_None_iff)

text \<open>The keys of one lease, and what changing one entry of the leases does.\<close>

definition lease_of :: "'l \<Rightarrow> ('l \<times> 'k list) list \<Rightarrow> 'k list" where
  "lease_of l leased = (case map_of leased l of None \<Rightarrow> [] | Some ks \<Rightarrow> ks)"

definition other_leases :: "'l \<Rightarrow> ('l \<times> 'k list) list \<Rightarrow> 'k list" where
  "other_leases l leased = concat (map snd (AList.delete l leased))"

lemma mset_leases:
  "hm_ok leased \<Longrightarrow> mset (concat (map snd leased)) = mset (lease_of l leased) + mset (other_leases l leased)"
proof (induction leased)
  case (Cons e leased)
  obtain l' ks where e: "e = (l', ks)" by (cases e)
  have ok: "hm_ok leased" using Cons.prems by (simp add: hm_ok_def e)
  show ?case
  proof (cases "l' = l")
    case True
    have "l \<notin> fst ` set leased" using Cons.prems by (simp add: e True hm_ok_def)
    then show ?thesis by (simp add: e True lease_of_def other_leases_def)
  next
    case False
    then show ?thesis using Cons.IH[OF ok] by (simp add: e lease_of_def other_leases_def)
  qed
qed (simp add: lease_of_def other_leases_def)

lemma lease_of_update [simp]: "lease_of l (AList.update l ks leased) = ks"
  by (simp add: lease_of_def update_conv')

lemma lease_of_delete [simp]: "lease_of l (AList.delete l leased) = []"
  by (simp add: lease_of_def delete_conv')

lemma other_leases_update [simp]: "other_leases l (AList.update l ks leased) = other_leases l leased"
  by (simp add: other_leases_def delete_update_same)

lemma other_leases_delete [simp]: "other_leases l (AList.delete l leased) = other_leases l leased"
  by (simp add: other_leases_def delete_idem)

lemma mset_update_lease:
  "hm_ok leased \<Longrightarrow> mset (concat (map snd (AList.update l ks leased))) = mset ks + mset (other_leases l leased)"
  using mset_leases[of "AList.update l ks leased" l] by simp

lemma mset_delete_lease:
  "mset (concat (map snd (AList.delete l leased))) = mset (other_leases l leased)"
  by (simp add: other_leases_def)

lemma mempool_okD:
  assumes "mempool_ok m"
  shows "hm_ok (mp_txns m)" "hm_ok (mp_leased m)"
    and "mset (mp_pool m) + mset (lease_of l (mp_leased m)) + mset (other_leases l (mp_leased m))
         = mset (map fst (mp_txns m))"
  using assms mset_leases[of "mp_leased m" l] by (auto simp: mempool_ok_def ac_simps)

lemma mempool_ok_count: "mempool_ok m \<Longrightarrow> count (mset (map fst (mp_txns m))) k \<le> 1"
  using mempool_okD(1)[of m] by (simp add: hm_ok_def distinct_count_atmost_1)

lemma mempool_ok_distinct:
  assumes "mempool_ok m"
  shows "distinct (mp_pool m)" and "distinct (mp_pool m @ leased_keys m)"
proof -
  have "mset (mp_pool m @ leased_keys m) = mset (map fst (mp_txns m))"
    using assms by (simp add: mempool_ok_def)
  then show "distinct (mp_pool m @ leased_keys m)"
    using mempool_okD(1)[OF assms] by (metis hm_ok_def mset_eq_imp_distinct_iff)
  then show "distinct (mp_pool m)" by simp
qed

lemma mempool_free_pool: "mp_pool (mempool_free l m) = rev (lease_of l (mp_leased m)) @ mp_pool m"
proof -
  have fold: "fold (\<lambda>k pool. k # pool) ks pool = rev ks @ pool" for ks and pool :: "'a list"
    by (induction ks arbitrary: pool) auto
  show ?thesis by (simp add: mempool_free_def fold lease_of_def Let_def)
qed

lemma mempool_free_ok [inv_intros]:
  assumes "mempool_ok m"
  shows "mempool_ok (mempool_free l m)"
    and "mp_pool (mempool_free l m) = rev (lease_of l (mp_leased m)) @ mp_pool m"
proof -
  show pool: "mp_pool (mempool_free l m) = rev (lease_of l (mp_leased m)) @ mp_pool m"
    by (rule mempool_free_pool)
  have "mp_leased (mempool_free l m) = AList.delete l (mp_leased m)"
    "mp_txns (mempool_free l m) = mp_txns m"
    by (simp_all add: mempool_free_def Let_def)
  then show "mempool_ok (mempool_free l m)"
    using mempool_okD(1,2)[OF assms] mempool_okD(3)[OF assms, of l] by (simp add: mempool_ok_def pool mset_delete_lease ac_simps)
qed

text \<open>Committing a key keeps the invariant when no other lease holds it.\<close>

lemma commit_key_ok:
  assumes ok: "mempool_ok m" and free: "key \<notin> set (other_leases l (mp_leased m))"
    and step: "commit_key l key r m = (m', sent)"
  shows "mempool_ok m'" and "other_leases l (mp_leased m') = other_leases l (mp_leased m)"
    and "lease_of l (mp_leased m') = removeAll key (lease_of l (mp_leased m))"
    and "mp_pool m' = remove1 key (mp_pool m)" and "mp_txns m' = AList.delete key (mp_txns m)"
proof -
  have m': "m' = m\<lparr>mp_txns := AList.delete key (mp_txns m),
      mp_leased := (case map_of (mp_leased m) l of None \<Rightarrow> mp_leased m
                    | Some ks \<Rightarrow> AList.update l (removeAll key ks) (mp_leased m)),
      mp_pool := remove1 key (mp_pool m)\<rparr>"
    using step by (simp add: commit_key_def Let_def)
  show others: "other_leases l (mp_leased m') = other_leases l (mp_leased m)"
    by (simp add: m' split: option.splits)
  show lease: "lease_of l (mp_leased m') = removeAll key (lease_of l (mp_leased m))"
    by (simp add: m' lease_of_def update_conv' split: option.splits)
  show pool: "mp_pool m' = remove1 key (mp_pool m)" and txns: "mp_txns m' = AList.delete key (mp_txns m)"
    by (simp_all add: m')
  have hm: "hm_ok (mp_txns m')" "hm_ok (mp_leased m')"
    using mempool_okD(1,2)[OF ok] by (simp_all add: m' split: option.splits)
  have "mset (mp_pool m') + mset (lease_of l (mp_leased m')) + mset (other_leases l (mp_leased m'))
      = mset (map fst (mp_txns m'))"
  proof (rule multiset_eqI)
    fix x
    have sum: "count (mset (mp_pool m)) x + count (mset (lease_of l (mp_leased m))) x
        + count (mset (other_leases l (mp_leased m))) x = count (mset (map fst (mp_txns m))) x"
      using arg_cong[OF mempool_okD(3)[OF ok, of l], of "\<lambda>M. count M x"] by simp
    show "count (mset (mp_pool m') + mset (lease_of l (mp_leased m'))
        + mset (other_leases l (mp_leased m'))) x = count (mset (map fst (mp_txns m'))) x"
      using sum mempool_ok_count[OF ok, of x] free
      by (cases "x = key") (simp_all add: pool lease others txns delete_keys removeAll_filter_not_eq
          mset_filter count_eq_zero_iff)
  qed
  then show "mempool_ok m'"
    using hm mset_leases[OF hm(2), of l] by (simp add: mempool_ok_def ac_simps)
qed

lemma commit_loop_ok:
  assumes "mempool_ok m" "set (map fst krs) \<inter> set (other_leases l (mp_leased m)) = {}"
    and "commit_loop l krs m = (m', sent)"
  shows "mempool_ok m' \<and> other_leases l (mp_leased m') = other_leases l (mp_leased m)
    \<and> lease_of l (mp_leased m') = filter (\<lambda>k. k \<notin> set (map fst krs)) (lease_of l (mp_leased m))
    \<and> mp_pool m' = filter (\<lambda>k. k \<notin> set (map fst krs)) (mp_pool m)
    \<and> mp_txns m' = filter (\<lambda>t. fst t \<notin> set (map fst krs)) (mp_txns m)"
  using assms
proof (induction krs arbitrary: m sent)
  case (Cons kr krs)
  obtain k r where kr: "kr = (k, r)" by (cases kr)
  obtain m1 s1 where 1: "commit_key l k r m = (m1, s1)" by (cases "commit_key l k r m")
  obtain s2 where 2: "commit_loop l krs m1 = (m', s2)"
    using Cons.prems(3) by (auto simp: kr 1 Let_def split: prod.splits)
  have k: "k \<notin> set (other_leases l (mp_leased m))"
    and ks: "set (map fst krs) \<inter> set (other_leases l (mp_leased m)) = {}"
    using Cons.prems(2) by (auto simp: kr)
  note c = commit_key_ok[OF Cons.prems(1) k 1]
  have p: "remove1 k (mp_pool m) = filter (\<lambda>x. x \<noteq> k) (mp_pool m)"
    using mempool_ok_distinct(1)[OF Cons.prems(1)] by (simp add: distinct_remove1_removeAll removeAll_filter_not_eq eq_commute)
  have ih: "mempool_ok m' \<and> other_leases l (mp_leased m') = other_leases l (mp_leased m1)
    \<and> lease_of l (mp_leased m') = filter (\<lambda>k. k \<notin> set (map fst krs)) (lease_of l (mp_leased m1))
    \<and> mp_pool m' = filter (\<lambda>k. k \<notin> set (map fst krs)) (mp_pool m1)
    \<and> mp_txns m' = filter (\<lambda>t. fst t \<notin> set (map fst krs)) (mp_txns m1)"
    by (rule Cons.IH[OF c(1) _ 2]) (use ks c(2) in simp)
  then show ?case
    unfolding c p by (simp add: kr removeAll_filter_not_eq AList.delete_eq eq_commute[of k] conj_commute case_prod_unfold)
qed simp

text \<open>The whole commit: what is left and who was told.\<close>

lemma mempool_commit_ok:
  assumes "mempool_ok m" "set (map fst krs) \<inter> set (other_leases l (mp_leased m)) = {}"
    and "mempool_commit l krs m = (m', sent)"
  shows "mempool_ok m'"
    and "mp_txns m' = filter (\<lambda>t. fst t \<notin> set (map fst krs)) (mp_txns m)"
    and "mp_pool m' = filter (\<lambda>k. k \<notin> set (map fst krs)) (rev (lease_of l (mp_leased m)) @ mp_pool m)"
    and "lease_of l (mp_leased m') = []" and "other_leases l (mp_leased m') = other_leases l (mp_leased m)"
proof -
  obtain m1 where 1: "commit_loop l krs m = (m1, sent)" and m': "m' = mempool_free l m1"
    using assms(3) by (auto simp: mempool_commit_def Let_def split: prod.splits)
  note c = commit_loop_ok[OF assms(1,2) 1]
  then show "mempool_ok m'" unfolding m' by (intro mempool_free_ok) blast
  have "mempool_ok m1" using c by blast
  from mempool_free_ok(2)[OF this, of l] c
  show "mp_pool m' = filter (\<lambda>k. k \<notin> set (map fst krs)) (rev (lease_of l (mp_leased m)) @ mp_pool m)"
    by (simp add: m' rev_filter)
  show "mp_txns m' = filter (\<lambda>t. fst t \<notin> set (map fst krs)) (mp_txns m)"
    "lease_of l (mp_leased m') = []" "other_leases l (mp_leased m') = other_leases l (mp_leased m)"
    using c by (simp_all add: m' mempool_free_def Let_def)
qed

text \<open>The results that are sent: one for the first mention of each key that has a waiting sender.\<close>

fun sent_to :: "('k \<times> ('v, 'c, 's) mempool_txn) list \<Rightarrow> ('k \<times> 'r) list \<Rightarrow> ('s \<times> 'r) list" where
  "sent_to txns [] = []"
| "sent_to txns ((k, r) # krs) =
     (case Option.bind (map_of txns k) mt_sender of Some s \<Rightarrow> [(s, r)] | None \<Rightarrow> [])
     @ sent_to (AList.delete k txns) krs"

lemma commit_loop_sent: "snd (commit_loop l krs m) = sent_to (mp_txns m) krs"
proof (induction krs arbitrary: m)
  case (Cons kr krs)
  obtain k r where kr: "kr = (k, r)" by (cases kr)
  obtain m1 s1 where 1: "commit_key l k r m = (m1, s1)" by (cases "commit_key l k r m")
  have "mp_txns m1 = AList.delete k (mp_txns m)"
    and "s1 = (case Option.bind (map_of (mp_txns m) k) mt_sender of Some s \<Rightarrow> [(s, r)] | None \<Rightarrow> [])"
    using 1 by (auto simp: commit_key_def Let_def split: option.splits)
  then show ?case using Cons.IH[of m1] by (simp add: kr 1 case_prod_unfold Let_def)
qed simp

section \<open>Leasing a batch\<close>

text \<open>What the loop does on the pool: the taken prefix split into leased and discarded keys.\<close>

definition changes_of :: "('k \<times> ('v, 'c, 's) mempool_txn) list \<Rightarrow> 'k \<Rightarrow> 'c list" where
  "changes_of mtxns k = (case map_of mtxns k of None \<Rightarrow> [] | Some t \<Rightarrow> mt_changes t)"

text \<open>Different transactions of the list touch different things.\<close>

fun conflict_free :: "('k \<Rightarrow> 'c list) \<Rightarrow> 'k list \<Rightarrow> bool" where
  "conflict_free ch [] = True"
| "conflict_free ch (k # ks) \<longleftrightarrow> set (ch k) \<inter> (\<Union>x \<in> set ks. set (ch x)) = {} \<and> conflict_free ch ks"

lemma conflict_free_append:
  "conflict_free ch (xs @ ys) \<longleftrightarrow> conflict_free ch xs \<and> conflict_free ch ys
     \<and> (\<Union>x \<in> set xs. set (ch x)) \<inter> (\<Union>x \<in> set ys. set (ch x)) = {}"
  by (induction xs) auto

lemma lease_insert_ok:
  assumes "hm_ok leased" "key \<notin> set (lease_of l leased)"
  shows "hm_ok (lease_insert l key leased)"
    and "mset (concat (map snd (lease_insert l key leased))) = add_mset key (mset (concat (map snd leased)))"
    and "lease_of l (lease_insert l key leased) = lease_of l leased @ [key]"
    and "other_leases l (lease_insert l key leased) = other_leases l leased"
proof -
  have eq: "lease_insert l key leased = AList.update l (lease_of l leased @ [key]) leased"
    using assms(2) by (simp add: lease_insert_def Let_def flip: lease_of_def)
  show "hm_ok (lease_insert l key leased)" using assms(1) by (simp add: eq)
  show "mset (concat (map snd (lease_insert l key leased))) = add_mset key (mset (concat (map snd leased)))"
    using mset_leases[OF assms(1), of l] by (simp add: eq mset_update_lease[OF assms(1)])
  show "lease_of l (lease_insert l key leased) = lease_of l leased @ [key]"
    "other_leases l (lease_insert l key leased) = other_leases l leased"
    by (simp_all add: eq)
qed

lemma lease_loop_spec:
  assumes "set pool \<subseteq> fst ` set mtxns" "hm_ok leased" "distinct (pool @ lease_of l leased)"
    and "conflict_free (changes_of mtxns) (map fst txns)"
    and "set conflict = (\<Union>k \<in> fst ` set txns. set (changes_of mtxns k))"
    and "length txns < max 1 max_count"
  shows "\<exists>rest leased' new disc. lease_loop mtxns l max_count pool leased txns discard conflict
            = Some (rest, leased', txns @ new, discard @ disc)
          \<and> mset (map fst new) + mset disc + mset rest = mset pool
          \<and> hm_ok leased' \<and> other_leases l leased' = other_leases l leased
          \<and> lease_of l leased' = lease_of l leased @ map fst new
          \<and> conflict_free (changes_of mtxns) (map fst (txns @ new))
          \<and> (\<forall>(k, v) \<in> set new. map_option mt_txn (map_of mtxns k) = Some v)
          \<and> (\<forall>k \<in> set disc. \<exists>k' \<in> fst ` set (txns @ new).
               set (changes_of mtxns k) \<inter> set (changes_of mtxns k') \<noteq> {})
          \<and> length (txns @ new) \<le> max 1 max_count
          \<and> (rest = [] \<or> length (txns @ new) = max 1 max_count)"
  using assms
proof (induction pool arbitrary: leased txns discard conflict)
  case Nil
  then show ?case by (intro exI[of _ "[]"] exI[of _ leased]) simp
next
  case (Cons key pool)
  obtain t where t: "map_of mtxns key = Some t"
    using Cons.prems(1) key_lookup[of key mtxns] by auto
  have ch: "changes_of mtxns key = mt_changes t" by (simp add: changes_of_def t)
  show ?case
  proof (cases "\<exists>c \<in> set (mt_changes t). c \<in> set conflict")
    case True
    obtain rest leased' new disc where ih:
      "lease_loop mtxns l max_count pool leased txns (discard @ [key]) conflict
         = Some (rest, leased', txns @ new, (discard @ [key]) @ disc)"
      "mset (map fst new) + mset disc + mset rest = mset pool"
      "hm_ok leased'" "other_leases l leased' = other_leases l leased"
      "lease_of l leased' = lease_of l leased @ map fst new"
      "conflict_free (changes_of mtxns) (map fst (txns @ new))"
      "\<forall>(k, v) \<in> set new. map_option mt_txn (map_of mtxns k) = Some v"
      "\<forall>k \<in> set disc. \<exists>k' \<in> fst ` set (txns @ new). set (changes_of mtxns k) \<inter> set (changes_of mtxns k') \<noteq> {}"
      "length (txns @ new) \<le> max 1 max_count" "rest = [] \<or> length (txns @ new) = max 1 max_count"
      using Cons.IH[of leased txns conflict "discard @ [key]"] Cons.prems by auto
    have "\<exists>k' \<in> fst ` set (txns @ new). set (changes_of mtxns key) \<inter> set (changes_of mtxns k') \<noteq> {}"
      using True Cons.prems(5) by (auto simp: ch)
    then show ?thesis
      using ih True t by (intro exI[of _ rest] exI[of _ leased'] exI[of _ new] exI[of _ "key # disc"]) simp
  next
    case False
    let ?leased = "lease_insert l key leased" and ?txns = "txns @ [(key, mt_txn t)]"
    have fresh: "key \<notin> set (lease_of l leased)" using Cons.prems(3) by simp
    note li = lease_insert_ok[OF Cons.prems(2) fresh]
    have cf: "conflict_free (changes_of mtxns) (map fst ?txns)"
      using Cons.prems(4,5) False by (auto simp: conflict_free_append ch)
    show ?thesis
    proof (cases "max_count \<le> length ?txns")
      case True
      then have "length ?txns = max 1 max_count" using Cons.prems(6) by auto
      then show ?thesis
        using True False t cf li
        by (intro exI[of _ pool] exI[of _ ?leased] exI[of _ "[(key, mt_txn t)]"] exI[of _ "[]"]) (simp add: Let_def)
    next
      case more: False
      have "set (conflict @ mt_changes t) = (\<Union>k \<in> fst ` set ?txns. set (changes_of mtxns k))"
        using Cons.prems(5) by (auto simp: ch)
      moreover have "distinct (pool @ lease_of l ?leased)" using Cons.prems(3) by (auto simp: li(3))
      ultimately obtain rest leased' new disc where ih:
        "lease_loop mtxns l max_count pool ?leased ?txns discard (conflict @ mt_changes t)
           = Some (rest, leased', ?txns @ new, discard @ disc)"
        "mset (map fst new) + mset disc + mset rest = mset pool"
        "hm_ok leased'" "other_leases l leased' = other_leases l ?leased"
        "lease_of l leased' = lease_of l ?leased @ map fst new"
        "conflict_free (changes_of mtxns) (map fst (?txns @ new))"
        "\<forall>(k, v) \<in> set new. map_option mt_txn (map_of mtxns k) = Some v"
        "\<forall>k \<in> set disc. \<exists>k' \<in> fst ` set (?txns @ new). set (changes_of mtxns k) \<inter> set (changes_of mtxns k') \<noteq> {}"
        "length (?txns @ new) \<le> max 1 max_count" "rest = [] \<or> length (?txns @ new) = max 1 max_count"
        using Cons.IH[of ?leased ?txns "conflict @ mt_changes t" discard] Cons.prems(1) li(1) cf more by auto
      then show ?thesis
        using more False t li(3,4)
        by (intro exI[of _ rest] exI[of _ leased'] exI[of _ "(key, mt_txn t) # new"] exI[of _ disc]) (simp add: Let_def)
    qed
  qed
qed

lemma lease_batch_ok:
  assumes ok: "mempool_ok m"
  shows "\<exists>txns m' rest disc. lease_batch l max_count m = Some (txns, m') \<and> mempool_ok m'
          \<and> mp_txns m' = mp_txns m \<and> mp_pool m' = rest @ disc
          \<and> lease_of l (mp_leased m') = lease_of l (mp_leased m) @ map fst txns
          \<and> other_leases l (mp_leased m') = other_leases l (mp_leased m)
          \<and> mset (map fst txns) + mset (mp_pool m') = mset (mp_pool m)
          \<and> conflict_free (changes_of (mp_txns m)) (map fst txns)
          \<and> (\<forall>(k, v) \<in> set txns. map_option mt_txn (map_of (mp_txns m) k) = Some v)
          \<and> (\<forall>k \<in> set disc. \<exists>k' \<in> fst ` set txns.
               set (changes_of (mp_txns m) k) \<inter> set (changes_of (mp_txns m) k') \<noteq> {})
          \<and> length txns \<le> max 1 max_count \<and> (rest = [] \<or> length txns = max 1 max_count)"
proof -
  have "set_mset (mset (mp_pool m)) \<subseteq> set_mset (mset (map fst (mp_txns m)))"
    using ok by (metis mempool_ok_def mset_subset_eq_add_left set_mset_mono)
  then have sub: "set (mp_pool m) \<subseteq> fst ` set (mp_txns m)" by simp
  have "set (lease_of l (mp_leased m)) \<subseteq> set (leased_keys m)"
    using mset_leases[OF mempool_okD(2)[OF ok], of l]
    by (metis mset_subset_eq_add_left set_mset_mono set_mset_mset)
  moreover have "distinct (lease_of l (mp_leased m))"
  proof -
    have "mset (leased_keys m) = mset (lease_of l (mp_leased m) @ other_leases l (mp_leased m))"
      using mset_leases[OF mempool_okD(2)[OF ok], of l] by simp
    then have "distinct (leased_keys m) = distinct (lease_of l (mp_leased m) @ other_leases l (mp_leased m))"
      by (rule mset_eq_imp_distinct_iff)
    then show ?thesis using mempool_ok_distinct(2)[OF ok] by simp
  qed
  ultimately have dist: "distinct (mp_pool m @ lease_of l (mp_leased m))"
    using mempool_ok_distinct(2)[OF ok] by auto
  have none: "conflict_free (changes_of (mp_txns m)) (map fst ([] :: ('a \<times> 'b) list))"
    "set [] = (\<Union>k \<in> fst ` set ([] :: ('a \<times> 'b) list). set (changes_of (mp_txns m) k))"
    "length ([] :: ('a \<times> 'b) list) < max 1 max_count"
    by simp_all
  note loop = lease_loop_spec[OF sub mempool_okD(2)[OF ok] dist none, of "[]"]
  obtain rest leased' new disc where L:
    "lease_loop (mp_txns m) l max_count (mp_pool m) (mp_leased m) [] [] [] = Some (rest, leased', new, disc)"
    "mset (map fst new) + mset disc + mset rest = mset (mp_pool m)"
    "hm_ok leased'" "other_leases l leased' = other_leases l (mp_leased m)"
    "lease_of l leased' = lease_of l (mp_leased m) @ map fst new"
    "conflict_free (changes_of (mp_txns m)) (map fst new)"
    "\<forall>(k, v) \<in> set new. map_option mt_txn (map_of (mp_txns m) k) = Some v"
    "\<forall>k \<in> set disc. \<exists>k' \<in> fst ` set new. set (changes_of (mp_txns m) k) \<inter> set (changes_of (mp_txns m) k') \<noteq> {}"
    "length new \<le> max 1 max_count" "rest = [] \<or> length new = max 1 max_count"
    using loop[unfolded append_Nil] by blast
  let ?m = "m\<lparr>mp_pool := rest @ disc, mp_leased := leased'\<rparr>"
  have "mset (mp_pool ?m) + mset (leased_keys ?m) = mset (mp_pool m) + mset (leased_keys m)"
    using L(2) mset_leases[OF L(3), of l] mset_leases[OF mempool_okD(2)[OF ok], of l]
    by (simp add: L(4,5) flip: L(2))
  then have "mempool_ok ?m" using ok L(3) by (simp add: mempool_ok_def)
  moreover have "lease_batch l max_count m = Some (new, ?m)" by (simp add: lease_batch_def L(1))
  ultimately show ?thesis using L by (intro exI[of _ new] exI[of _ ?m] exI[of _ rest] exI[of _ disc]) (simp add: ac_simps)
qed

text \<open>
  Which keys a batch takes: from the front of the pool on, each one that touches nothing the taken ones
  touch, until there are enough.
\<close>

fun greedy :: "('k \<Rightarrow> 'c list) \<Rightarrow> nat \<Rightarrow> 'c set \<Rightarrow> 'k list \<Rightarrow> 'k list" where
  "greedy ch 0 used pool = []"
| "greedy ch (Suc n) used [] = []"
| "greedy ch (Suc n) used (k # pool) =
     (if set (ch k) \<inter> used \<noteq> {} then greedy ch (Suc n) used pool
      else k # greedy ch n (used \<union> set (ch k)) pool)"

lemma greedy_subset: "set (greedy ch n used pool) \<subseteq> set pool"
  by (induction ch n used pool rule: greedy.induct) auto

lemma lease_loop_greedy:
  assumes "lease_loop mtxns l max_count pool leased txns discard conflict = Some (rest, leased', txns', discard')"
    and "distinct pool" "length txns < max 1 max_count"
  shows "\<exists>front. pool = front @ rest
    \<and> map fst txns' = map fst txns @ greedy (changes_of mtxns) (max 1 max_count - length txns) (set conflict) pool
    \<and> set (greedy (changes_of mtxns) (max 1 max_count - length txns) (set conflict) pool) \<subseteq> set front
    \<and> discard' = discard @ filter (\<lambda>k. k \<notin> set (greedy (changes_of mtxns) (max 1 max_count - length txns) (set conflict) pool)) front"
  using assms
proof (induction pool arbitrary: leased txns discard conflict)
  case Nil
  then show ?case by (cases "max 1 max_count - length txns") simp_all
next
  case (Cons key pool)
  obtain t where t: "map_of mtxns key = Some t" using Cons.prems(1) by (cases "map_of mtxns key") simp_all
  have ch: "changes_of mtxns key = mt_changes t" by (simp add: changes_of_def t)
  obtain n where n: "max 1 max_count - length txns = Suc n" using Cons.prems(3) by (metis Suc_diff_Suc)
  have fresh: "key \<notin> set (greedy (changes_of mtxns) j used pool)" for j used
    using greedy_subset[of "changes_of mtxns" j used pool] Cons.prems(2) by auto
  show ?case
  proof (cases "\<exists>c \<in> set (mt_changes t). c \<in> set conflict")
    case True
    then have "set (changes_of mtxns key) \<inter> set conflict \<noteq> {}" by (auto simp: ch)
    moreover have "lease_loop mtxns l max_count pool leased txns (discard @ [key]) conflict = Some (rest, leased', txns', discard')"
      using Cons.prems(1) True t by simp
    from Cons.IH[OF this _ Cons.prems(3)] Cons.prems(2) obtain front where "pool = front @ rest"
      "map fst txns' = map fst txns @ greedy (changes_of mtxns) (Suc n) (set conflict) pool"
      "set (greedy (changes_of mtxns) (Suc n) (set conflict) pool) \<subseteq> set front"
      "discard' = (discard @ [key]) @ filter (\<lambda>k. k \<notin> set (greedy (changes_of mtxns) (Suc n) (set conflict) pool)) front"
      unfolding n by auto
    ultimately show ?thesis using fresh unfolding n by (intro exI[of _ "key # front"]) auto
  next
    case False
    then have none: "\<not> set (changes_of mtxns key) \<inter> set conflict \<noteq> {}" by (auto simp: ch)
    let ?txns = "txns @ [(key, mt_txn t)]"
    show ?thesis
    proof (cases "max_count \<le> length ?txns")
      case True
      then have "n = 0" using n by simp
      moreover have "rest = pool" "txns' = ?txns" "discard' = discard"
        using Cons.prems(1) True False t by (simp_all add: Let_def)
      ultimately show ?thesis using none unfolding n by (intro exI[of _ "[key]"]) simp
    next
      case more: False
      then have less: "length ?txns < max 1 max_count" and m: "max 1 max_count - length ?txns = n" using n by simp_all
      have used: "set (conflict @ mt_changes t) = set conflict \<union> set (changes_of mtxns key)" by (simp add: ch)
      have "lease_loop mtxns l max_count pool (lease_insert l key leased) ?txns discard (conflict @ mt_changes t)
          = Some (rest, leased', txns', discard')"
        using Cons.prems(1) more False t by (simp add: Let_def)
      from Cons.IH[OF this _ less] Cons.prems(2) obtain front where f: "pool = front @ rest"
        "map fst txns' = map fst ?txns @ greedy (changes_of mtxns) n (set conflict \<union> set (changes_of mtxns key)) pool"
        "set (greedy (changes_of mtxns) n (set conflict \<union> set (changes_of mtxns key)) pool) \<subseteq> set front"
        "discard' = discard @ filter (\<lambda>k. k \<notin> set (greedy (changes_of mtxns) n (set conflict \<union> set (changes_of mtxns key)) pool)) front"
        unfolding m used by auto
      have "key \<notin> set front" using f(1) Cons.prems(2) by auto
      then have "filter (\<lambda>k. k \<notin> set (greedy (changes_of mtxns) n (set conflict \<union> set (changes_of mtxns key)) pool)) front
          = filter (\<lambda>k. k \<notin> set (key # greedy (changes_of mtxns) n (set conflict \<union> set (changes_of mtxns key)) pool)) (key # front)"
        by (auto intro!: filter_cong)
      then show ?thesis using f none unfolding n by (intro exI[of _ "key # front"]) auto
    qed
  qed
qed

lemma lease_batch_greedy:
  assumes "mempool_ok m" "lease_batch l max_count m = Some (txns, m')"
  shows "\<exists>front rest. mp_pool m = front @ rest
    \<and> map fst txns = greedy (changes_of (mp_txns m)) (max 1 max_count) {} (mp_pool m) \<and> set (map fst txns) \<subseteq> set front
    \<and> mp_pool m' = rest @ filter (\<lambda>k. k \<notin> set (map fst txns)) front"
proof -
  obtain rest leased' discard where r: "lease_loop (mp_txns m) l max_count (mp_pool m) (mp_leased m) [] [] []
      = Some (rest, leased', txns, discard)" "m' = m\<lparr>mp_pool := rest @ discard, mp_leased := leased'\<rparr>"
    using assms(2) by (auto simp: lease_batch_def Option.bind_eq_Some_conv)
  have "length ([] :: ('a \<times> 'b) list) < max 1 max_count" by simp
  from lease_loop_greedy[OF r(1) mempool_ok_distinct(1)[OF assms(1)] this] obtain front where f:
    "mp_pool m = front @ rest" "map fst txns = greedy (changes_of (mp_txns m)) (max 1 max_count) {} (mp_pool m)"
    "set (greedy (changes_of (mp_txns m)) (max 1 max_count) {} (mp_pool m)) \<subseteq> set front"
    "discard = filter (\<lambda>k. k \<notin> set (greedy (changes_of (mp_txns m)) (max 1 max_count) {} (mp_pool m))) front"
    by auto
  have "set (map fst txns) \<subseteq> set front" using f(3) unfolding f(2) .
  moreover have "mp_pool m' = rest @ filter (\<lambda>k. k \<notin> set (map fst txns)) front" unfolding f(2) by (simp add: r(2) f(4))
  ultimately show ?thesis using f(1,2) by blast
qed

section \<open>The state machine of a block producer\<close>

text \<open>
  What a validator does with its mempool: transactions arrive, it leases a batch for a height or keys it
  names, and it commits keys under a lease that no other lease holds. Keys that are named have to be in
  the pool or the same lease. A hash set may change its order of iteration at any time. The results that
  are sent do not influence the state.
\<close>

lemma lease_txns_ok:
  assumes "mempool_ok m" "set keys \<subseteq> set (mp_pool m) \<union> set (lease_of l (mp_leased m))"
  shows "mempool_ok (lease_txns l keys m)"
  using assms
proof (induction keys arbitrary: m)
  case (Cons key keys)
  let ?m = "m\<lparr>mp_pool := remove1 key (mp_pool m), mp_leased := lease_insert l key (mp_leased m)\<rparr>"
  note hm = mempool_okD(1,2)[OF Cons.prems(1)]
  have dist: "distinct (mp_pool m @ leased_keys m)" by (rule mempool_ok_distinct(2)[OF Cons.prems(1)])
  have leased: "mset (leased_keys m) = mset (lease_of l (mp_leased m)) + mset (other_leases l (mp_leased m))"
    by (rule mset_leases[OF hm(2)])
  then have sub: "set (lease_of l (mp_leased m)) \<subseteq> set (leased_keys m)"
    by (metis mset_subset_eq_add_left set_mset_mono set_mset_mset)
  have ok: "mempool_ok ?m \<and> set (mp_pool m) \<union> set (lease_of l (mp_leased m))
      \<subseteq> set (mp_pool ?m) \<union> set (lease_of l (mp_leased ?m))"
  proof (cases "key \<in> set (lease_of l (mp_leased m))")
    case True
    then have same: "lease_insert l key (mp_leased m) = AList.update l (lease_of l (mp_leased m)) (mp_leased m)"
      by (simp add: lease_insert_def Let_def flip: lease_of_def)
    have "key \<notin> set (mp_pool m)" using True sub dist by auto
    then have pool: "remove1 key (mp_pool m) = mp_pool m" by (rule remove1_idem)
    have "mset (concat (map snd (lease_insert l key (mp_leased m)))) = mset (leased_keys m)"
      unfolding same mset_update_lease[OF hm(2)] leased ..
    then show ?thesis using Cons.prems(1) hm by (simp add: mempool_ok_def pool) (simp add: same)
  next
    case False
    then have key: "key \<in> set (mp_pool m)" using Cons.prems(2) by auto
    note li = lease_insert_ok[OF hm(2) False]
    have "mset (remove1 key (mp_pool m)) + add_mset key (mset (leased_keys m)) = mset (mp_pool m) + mset (leased_keys m)"
      using key by simp
    moreover have "mset (mp_pool m) + mset (leased_keys m) = mset (map fst (mp_txns m))"
      using Cons.prems(1) by (simp add: mempool_ok_def)
    ultimately have "mset (remove1 key (mp_pool m)) + add_mset key (mset (leased_keys m)) = mset (map fst (mp_txns m))"
      by (rule trans)
    then have "mempool_ok ?m" using Cons.prems(1) li(1,2) unfolding mempool_ok_def by simp
    moreover have "distinct (mp_pool m)" using dist by simp
    ultimately show ?thesis using li(3) by (auto simp: set_remove1_eq)
  qed
  with Cons.prems(2) have "set keys \<subseteq> set (mp_pool ?m) \<union> set (lease_of l (mp_leased ?m))" by auto
  with Cons.IH[of ?m] ok show ?case by simp
qed simp

text \<open>The same leases with their keys in another order.\<close>

definition same_leases :: "('l \<times> 'k list) list \<Rightarrow> ('l \<times> 'k list) list \<Rightarrow> bool" where
  "same_leases ls ls' \<longleftrightarrow> list_all2 (\<lambda>a b. fst a = fst b \<and> mset (snd a) = mset (snd b)) ls ls'"

lemma same_leases_ok:
  assumes "mempool_ok m" "same_leases ls (mp_leased m)"
  shows "mempool_ok (m\<lparr>mp_leased := ls\<rparr>)"
proof -
  have "map fst ls = map fst ls' \<and> mset (concat (map snd ls)) = mset (concat (map snd ls'))"
    if "same_leases ls ls'" for ls ls' :: "('l \<times> 'k list) list"
    using that unfolding same_leases_def by (induction rule: list_all2_induct) simp_all
  from this[OF assms(2)] assms(1) show ?thesis by (simp add: mempool_ok_def hm_ok_def)
qed

inductive mempool_reach :: "('k, 'v, 'l, 'c, 's) mempool_state \<Rightarrow> bool" where
  mp_start: "mempool_reach mempool_default"
| mp_add: "mempool_reach m \<Longrightarrow> mempool_reach (mempool_add_inner key txn changes sender m)"
| mp_lease: "mempool_reach m \<Longrightarrow> lease_batch l max_count m = Some (txns, m') \<Longrightarrow> mempool_reach m'"
| mp_lease_txns: "mempool_reach m \<Longrightarrow> set keys \<subseteq> set (mp_pool m) \<union> set (lease_of l (mp_leased m))
    \<Longrightarrow> mempool_reach (lease_txns l keys m)"
| mp_order: "mempool_reach m \<Longrightarrow> same_leases ls (mp_leased m) \<Longrightarrow> mempool_reach (m\<lparr>mp_leased := ls\<rparr>)"
| mp_commit: "mempool_reach m \<Longrightarrow> set keys \<inter> set (other_leases l (mp_leased m)) = {}
    \<Longrightarrow> mempool_commit l (map (\<lambda>k. (k, ())) keys) m = (m', sent) \<Longrightarrow> mempool_reach m'"

lemma mempool_reach_ok: "mempool_reach m \<Longrightarrow> mempool_ok m"
proof (induction rule: mempool_reach.induct)
  case (mp_lease m l max_count txns m')
  then show ?case using lease_batch_ok[of m l max_count] by auto
next
  case (mp_commit m keys l m' sent)
  then show ?case using mempool_commit_ok(1)[of m "map (\<lambda>k. (k, ())) keys" l m' sent] by (simp add: comp_def)
qed (auto intro: mempool_add_ok lease_txns_ok same_leases_ok)

section \<open>Properties\<close>

text \<open>
  C29: in every reachable mempool each transaction waits in the pool or is leased, exactly once, and
  \<open>lease_batch\<close> does not panic: it takes transactions from the front of the pool on, each one that
  touches nothing an already taken one touches, until it has as many as asked for (or one, when asked
  for none) or is through. What it passed over goes behind what it did not look at, both in their order;
  the taken transactions touch different things, and one that could have been added is left in the pool
  only if the batch is full.
\<close>

theorem lease_batch_spec:
  assumes "mempool_reach m"
  shows "mset (mp_pool m) + mset (leased_keys m) = mset (map fst (mp_txns m))
    \<and> (\<exists>txns m' front rest. lease_batch l max_count m = Some (txns, m')
          \<and> map fst txns = greedy (changes_of (mp_txns m)) (max 1 max_count) {} (mp_pool m)
          \<and> mp_pool m = front @ rest \<and> set (map fst txns) \<subseteq> set front
          \<and> mp_pool m' = rest @ filter (\<lambda>k. k \<notin> set (map fst txns)) front
          \<and> lease_of l (mp_leased m') = lease_of l (mp_leased m) @ map fst txns
          \<and> mset (map fst txns) + mset (mp_pool m') = mset (mp_pool m)
          \<and> conflict_free (changes_of (mp_txns m)) (map fst txns)
          \<and> length txns \<le> max 1 max_count
          \<and> (\<forall>(k, v) \<in> set txns. map_option mt_txn (map_of (mp_txns m) k) = Some v)
          \<and> (length txns = max 1 max_count
             \<or> (\<forall>k \<in> set (mp_pool m'). \<exists>k' \<in> fst ` set txns.
                  set (changes_of (mp_txns m) k) \<inter> set (changes_of (mp_txns m) k') \<noteq> {})))"
proof -
  have ok: "mempool_ok m" by (rule mempool_reach_ok[OF assms])
  obtain txns m' where b: "lease_batch l max_count m = Some (txns, m')
      \<and> lease_of l (mp_leased m') = lease_of l (mp_leased m) @ map fst txns
      \<and> mset (map fst txns) + mset (mp_pool m') = mset (mp_pool m)
      \<and> conflict_free (changes_of (mp_txns m)) (map fst txns) \<and> length txns \<le> max 1 max_count
      \<and> (\<forall>(k, v) \<in> set txns. map_option mt_txn (map_of (mp_txns m) k) = Some v)
      \<and> (length txns = max 1 max_count
         \<or> (\<forall>k \<in> set (mp_pool m'). \<exists>k' \<in> fst ` set txns.
              set (changes_of (mp_txns m) k) \<inter> set (changes_of (mp_txns m) k') \<noteq> {}))"
    using lease_batch_ok[OF ok, of l max_count] by fastforce
  then have "lease_batch l max_count m = Some (txns, m')" by blast
  from lease_batch_greedy[OF ok this] b ok show ?thesis unfolding mempool_ok_def by blast
qed

definition two_txns :: "(nat, nat, nat, nat, nat) mempool_state" where
  "two_txns = mempool_add_inner 2 20 [5, 6] None (mempool_add_inner 1 10 [4, 5] (Some 7) mempool_default)"

lemma two_txns_reach: "mempool_reach two_txns"
  unfolding two_txns_def by (intro mp_add mp_start)

theorem lease_batch_spec_witness:
  "\<exists>m'. lease_batch (3 :: nat) 8 two_txns = Some ([(1, 10)], m') \<and> mp_pool m' = [2]"
proof -
  have "map_option fst (lease_batch (3 :: nat) 8 two_txns) = Some [(1, 10)]" by code_simp
  then obtain m' where m': "lease_batch (3 :: nat) 8 two_txns = Some ([(1, 10)], m')" by auto
  have "mp_pool two_txns = [1, 2]" by code_simp
  then have "mset (mp_pool m') = {#2#}"
    using lease_batch_spec[OF two_txns_reach, of 3 8] m' by auto
  with m' show ?thesis by simp
qed

text \<open>
  C30: a commit removes exactly the committed transactions, and frees the rest of the lease: the
  uncommitted keys of the lease are back in the pool, ahead of those that were waiting. Each sender
  that waits for a committed key is told the result of that key, once.
\<close>

theorem commit_releases_lease:
  assumes "mempool_reach m" "set (map fst krs) \<inter> set (other_leases l (mp_leased m)) = {}"
    and "mempool_commit l krs m = (m', sent)"
  shows "mp_txns m' = filter (\<lambda>t. fst t \<notin> set (map fst krs)) (mp_txns m)
         \<and> mp_pool m' = filter (\<lambda>k. k \<notin> set (map fst krs)) (rev (lease_of l (mp_leased m)) @ mp_pool m)
         \<and> lease_of l (mp_leased m') = [] \<and> sent = sent_to (mp_txns m) krs
         \<and> mset (mp_pool m') + mset (leased_keys m') = mset (map fst (mp_txns m'))"
proof -
  have "sent = sent_to (mp_txns m) krs"
    using assms(3) commit_loop_sent[of l krs m] by (auto simp: mempool_commit_def Let_def split: prod.splits)
  then show ?thesis
    using mempool_commit_ok[OF mempool_reach_ok[OF assms(1)] assms(2,3)] by (simp add: mempool_ok_def)
qed

theorem commit_releases_lease_witness:
  "snd (mempool_commit 3 [(1, True)] two_txns) = [(7, True)]"
proof -
  have other: "set (map fst [(1, True)]) \<inter> set (other_leases 3 (mp_leased two_txns)) = {}"
    by (simp add: two_txns_def mempool_add_inner_def mempool_default_def other_leases_def)
  obtain m' sent where c: "mempool_commit 3 [(1, True)] two_txns = (m', sent)"
    by (cases "mempool_commit 3 [(1, True)] two_txns")
  have "sent_to (mp_txns two_txns) [(1, True)] = [(7, True)]" by code_simp
  then show ?thesis using commit_releases_lease[OF two_txns_reach other c] c by simp
qed

text \<open>
  Leasing a key that the mempool does not know (a block of another node) and freeing the lease
  puts the key into the pool without a transaction, and the next \<open>lease_batch\<close> panics.
\<close>

theorem lease_unknown_key_panics:
  "lease_batch l max_count (mempool_free l (lease_txns l (key # keys)
      (mempool_default :: ('k, 't, 'c, 'l, 's) mempool_state))) = None"
proof -
  have empty: "lease_loop [] l max_count (k # ks) leased txns disc conf = None" for k ks leased txns disc conf
    by simp
  have lease: "mp_txns (lease_txns l keys m) = mp_txns m
      \<and> set (lease_of l (mp_leased m)) \<subseteq> set (lease_of l (mp_leased (lease_txns l keys m)))" for keys and m :: "('k, 't, 'c, 'l, 's) mempool_state"
    by (induction l keys m rule: lease_txns.induct)
      (auto simp: lease_insert_def lease_of_def update_conv' Let_def split: option.splits)
  let ?m = "lease_txns l (key # keys) (mempool_default :: ('k, 't, 'c, 'l, 's) mempool_state)"
  have "key \<in> set (lease_of l (mp_leased ?m))"
    using lease[of keys "mempool_default\<lparr>mp_leased := lease_insert l key []\<rparr>"]
    by (auto simp: mempool_default_def lease_insert_def lease_of_def)
  then have "key \<in> set (mp_pool (mempool_free l ?m))"
    by (simp add: mempool_free_pool del: lease_txns.simps)
  then obtain k ks where "mp_pool (mempool_free l ?m) = k # ks"
    by (cases "mp_pool (mempool_free l ?m)") (simp_all del: lease_txns.simps)
  moreover have "mp_txns (mempool_free l ?m) = []"
    using lease[of "key # keys" mempool_default] by (simp add: mempool_free_def Let_def mempool_default_def del: lease_txns.simps)
  ultimately show ?thesis by (simp add: lease_batch_def del: lease_txns.simps)
qed

end
