(* ===== verification/Kv_Store.thy ===== *)
theory Kv_Store
  imports Zk_Element "HOL-Library.List_Lexorder"
begin

text \<open>
  The key-value database under \<open>pkg/block-store\<close> and \<open>pkg/smirk/src/storage\<close>. RocksDB is not part
  of the repository: its operations are the fields of a record every definition takes as an argument,
  and what the code relies on is the predicate \<open>kv_ok\<close>: with \<open>contents\<close> the entries of a healthy
  database in ascending byte order of the keys, a read gives the stored value, a write batch is
  applied as a whole and in order, and a bounded iterator yields the entries from the lower bound up
  to, and without, the upper one, in either direction.

  The second part is the byte order of big-endian integers, which is why the keys of the block store
  are big-endian.
\<close>

section \<open>The database\<close>

type_synonym bytes = "u8 list"

datatype write_op = Put bytes bytes | Delete bytes

record ('db, 'e) kv_ops =
  kv_get :: "'db \<Rightarrow> bytes \<Rightarrow> 'e + bytes option"
  kv_put :: "'db \<Rightarrow> bytes \<Rightarrow> bytes \<Rightarrow> 'e + 'db"
  kv_write :: "'db \<Rightarrow> write_op list \<Rightarrow> 'e + 'db"
  kv_scan :: "'db \<Rightarrow> bool \<Rightarrow> bytes \<Rightarrow> bytes \<Rightarrow> ('e + bytes \<times> bytes) list"
  kv_iterator :: "'db \<Rightarrow> ('e + bytes \<times> bytes) list"

type_synonym kv_contents = "(bytes \<times> bytes) list"

fun apply_op :: "write_op \<Rightarrow> kv_contents \<Rightarrow> kv_contents" where
  "apply_op (Put k v) m = bt_insert k v m"
| "apply_op (Delete k) m = bt_remove k m"

definition apply_ops :: "write_op list \<Rightarrow> kv_contents \<Rightarrow> kv_contents" where
  "apply_ops ops m = fold apply_op ops m"

text \<open>An iterator from the start, or from the end and backwards.\<close>

definition directed :: "bool \<Rightarrow> 'a list \<Rightarrow> 'a list" where
  "directed forward xs = (if forward then xs else rev xs)"

definition in_bounds :: "bytes \<Rightarrow> bytes \<Rightarrow> bytes \<Rightarrow> bool" where
  "in_bounds lo hi k \<longleftrightarrow> lo \<le> k \<and> k < hi"

definition kv_ok :: "('db, 'e) kv_ops \<Rightarrow> ('db \<Rightarrow> kv_contents) \<Rightarrow> bool" where
  "kv_ok K contents \<longleftrightarrow>
     (\<forall>db. bt_ok (contents db))
     \<and> (\<forall>db k. kv_get K db k = Inr (map_of (contents db) k))
     \<and> (\<forall>db k v. \<exists>db'. kv_put K db k v = Inr db' \<and> contents db' = bt_insert k v (contents db))
     \<and> (\<forall>db ops. \<exists>db'. kv_write K db ops = Inr db' \<and> contents db' = apply_ops ops (contents db))
     \<and> (\<forall>db forward lo hi. kv_scan K db forward lo hi =
          map Inr (directed forward (filter (\<lambda>e. in_bounds lo hi (fst e)) (contents db))))
     \<and> (\<forall>db. kv_iterator K db = map Inr (contents db))"

lemma kv_okD:
  assumes "kv_ok K contents"
  shows "bt_ok (contents db)" and "kv_get K db k = Inr (map_of (contents db) k)"
    and "\<exists>db'. kv_put K db k v = Inr db' \<and> contents db' = bt_insert k v (contents db)"
    and "\<exists>db'. kv_write K db ops = Inr db' \<and> contents db' = apply_ops ops (contents db)"
    and "kv_scan K db forward lo hi =
           map Inr (directed forward (filter (\<lambda>e. in_bounds lo hi (fst e)) (contents db)))"
    and "kv_iterator K db = map Inr (contents db)"
  using assms unfolding kv_ok_def by blast+

lemma apply_ops_simps [simp]:
  "apply_ops [] m = m"
  "apply_ops (Put k v # ops) m = apply_ops ops (bt_insert k v m)"
  "apply_ops (Delete k # ops) m = apply_ops ops (bt_remove k m)"
  "apply_ops (ops @ ops') m = apply_ops ops' (apply_ops ops m)"
  by (simp_all add: apply_ops_def)

lemma apply_ops_ok [inv_intros]: "bt_ok m \<Longrightarrow> bt_ok (apply_ops ops m)"
proof (induction ops arbitrary: m)
  case (Cons op ops)
  then show ?case by (cases op) simp_all
qed simp

text \<open>
  A database that keeps its entries in memory, in byte order, and starts empty: the hypothesis can
  hold.
\<close>

definition store_contents :: "kv_contents \<Rightarrow> kv_contents" where
  "store_contents db = (if bt_ok db then db else [])"

definition memory_kv :: "(kv_contents, unit) kv_ops" where
  "memory_kv = \<lparr>kv_get = \<lambda>db k. Inr (map_of (store_contents db) k),
                kv_put = \<lambda>db k v. Inr (bt_insert k v (store_contents db)),
                kv_write = \<lambda>db ops. Inr (apply_ops ops (store_contents db)),
                kv_scan = \<lambda>db forward lo hi.
                  map Inr (directed forward (filter (\<lambda>e. in_bounds lo hi (fst e)) (store_contents db))),
                kv_iterator = \<lambda>db. map Inr (store_contents db)\<rparr>"

lemma store_contents_ok [simp]: "bt_ok (store_contents db)"
  by (simp add: store_contents_def)

lemma store_contents_id [simp]: "bt_ok db \<Longrightarrow> store_contents db = db"
  by (simp add: store_contents_def)

lemma memory_kv_ok [simp]: "kv_ok memory_kv store_contents"
  unfolding kv_ok_def by (simp add: memory_kv_def bt_ok_insert apply_ops_ok)

section \<open>Big-endian integers as keys\<close>

fun be_val :: "bytes \<Rightarrow> nat" where
  "be_val [] = 0"
| "be_val (b # bs) = unat b * 256 ^ length bs + be_val bs"

lemma be_val_bound: "be_val bs < 256 ^ length bs"
proof (induction bs)
  case (Cons b bs)
  have "unat b \<le> 255" using unsigned_less[of b, where ?'a = nat] by simp
  then have "unat b * 256 ^ length bs \<le> 255 * 256 ^ length bs" by (rule mult_right_mono) simp
  then have "unat b * 256 ^ length bs + be_val bs < 255 * 256 ^ length bs + 256 ^ length bs"
    using Cons by (rule add_le_less_mono)
  then show ?case by simp
qed simp

lemma less_bytes_iff:
  "length xs = length ys \<Longrightarrow> xs < ys \<longleftrightarrow> be_val xs < be_val ys"
proof (induction xs ys rule: list_induct2)
  case (Cons x xs y ys)
  let ?p = "256 ^ length xs :: nat"
  note b = be_val_bound[of xs] be_val_bound[of ys]
  have step: "unat u * ?p + p < unat v * ?p + q" if "unat u < unat v" "p < ?p" for u v :: u8 and p q
  proof -
    have "(unat u + 1) * ?p \<le> unat v * ?p" by (rule mult_right_mono) (use that in simp_all)
    with that show ?thesis by simp
  qed
  consider "x < y" | "y < x" | "x = y" by (rule linorder_cases)
  then show ?case
  proof cases
    case 1
    then show ?thesis using step[of x y "be_val xs" "be_val ys"] b Cons.hyps by (simp add: word_less_nat_alt)
  next
    case 2
    then show ?thesis using step[of y x "be_val ys" "be_val xs"] b Cons.hyps
      by (auto simp: word_less_nat_alt)
  next
    case 3
    then show ?thesis using Cons by simp
  qed
qed simp

lemma length_be_bytes_gen [simp]: "length (be_bytes k w) = k"
  by (simp add: be_bytes_def le_bytes_def)

lemma be_bytes_Suc: "be_bytes (Suc k) w = ucast (drop_bit (8 * k) w) # be_bytes k w"
  by (simp add: be_bytes_def le_bytes_def)

lemma be_val_be_bytes: "be_val (be_bytes k w) = unat w mod 256 ^ k"
proof (induction k)
  case (Suc k)
  have "unat (ucast (drop_bit (8 * k) w) :: u8) = unat w div 256 ^ k mod 256"
    by (simp add: unsigned_ucast_eq unsigned_drop_bit_eq take_bit_eq_mod power_mult
        flip: take_bit_eq_mod drop_bit_eq_div) (simp add: take_bit_eq_mod drop_bit_eq_div power_mult)
  then have "be_val (be_bytes (Suc k) w) = unat w div 256 ^ k mod 256 * 256 ^ k + unat w mod 256 ^ k"
    by (simp add: be_bytes_Suc Suc)
  also have "\<dots> = unat w mod 256 ^ Suc k"
    using mod_mult2_eq[of "unat w" "256 ^ k" 256] by (simp add: mult.commute)
  finally show ?case .
qed (simp add: be_bytes_def le_bytes_def)

lemma be_bytes_less_iff:
  fixes a b :: "'n::len word"
  assumes "LENGTH('n) \<le> 8 * k"
  shows "be_bytes k a < be_bytes k b \<longleftrightarrow> a < b"
proof -
  have "unat w < 256 ^ k" for w :: "'n word"
  proof -
    have "(2::nat) ^ LENGTH('n) \<le> 2 ^ (8 * k)" using assms by (rule power_increasing) simp
    then have "2 ^ LENGTH('n) \<le> (256::nat) ^ k" by (simp add: power_mult)
    with unsigned_less show ?thesis by (rule less_le_trans)
  qed
  then show ?thesis
    by (simp add: less_bytes_iff be_val_be_bytes word_less_nat_alt)
qed

definition from_be :: "bytes \<Rightarrow> 'n::len word" where
  "from_be bs = le_word (rev bs)"

lemma from_be_bytes_gen:
  fixes w :: "'n::len word"
  assumes "LENGTH('n) \<le> 8 * k"
  shows "from_be (be_bytes k w) = w"
proof (rule bit_word_eqI)
  fix n assume n: "n < LENGTH('n)"
  then have "n div 8 < k" using assms by auto
  moreover have "8 * (n div 8) + n mod 8 = n" by simp
  ultimately show "bit (from_be (be_bytes k w) :: 'n word) n = bit w n"
    using n by (simp add: from_be_def be_bytes_def le_bytes_def bit_le_word bit_simps)
qed

lemma be_bytes_inject:
  fixes a b :: "'n::len word"
  assumes "LENGTH('n) \<le> 8 * k"
  shows "be_bytes k a = be_bytes k b \<longleftrightarrow> a = b"
  using from_be_bytes_gen[OF assms] by metis

text \<open>Appending a zero byte gives the immediate successor of a key.\<close>

lemma less_append_zero: "xs < ys @ [0] \<longleftrightarrow> xs \<le> ys" for xs ys :: bytes
proof (induction xs arbitrary: ys)
  case (Cons x xs)
  then show ?case by (cases ys) (auto simp: word_not_simps)
next
  case Nil
  show ?case by (cases ys) simp_all
qed

end
