(* ===== verification/Pagination.thy ===== *)
theory Pagination
  imports Payy_Prelude
begin

text \<open>
  \<open>pkg/primitives/src/pagination.rs\<close>: the cursors of a paginated list and the iterator adapter that
  finds the cursor of a page. The JSON and base64 encodings of an opaque cursor are library code and
  arguments here. \<open>bound\<close> is \<open>std::ops::Bound\<close>.
\<close>

datatype 'p bound = Included 'p | Excluded 'p | Unbounded

section \<open>Opaque values\<close>

datatype 'a opaque = Opaque 'a

fun opaque_inner :: "'a opaque \<Rightarrow> 'a" where
  "opaque_inner (Opaque x) = x"

text \<open>\<open>to_json\<close>, \<open>of_json\<close>, \<open>encode\<close> and \<open>decode\<close> are \<open>serde_json\<close> and \<open>BASE64_STANDARD\<close>.\<close>

definition opaque_serialize :: "('a \<Rightarrow> 'e + u8 list) \<Rightarrow> (u8 list \<Rightarrow> string) \<Rightarrow> 'a opaque \<Rightarrow> 'e + string" where
  "opaque_serialize to_json encode x = map_sum id encode (to_json (opaque_inner x))"

definition opaque_deserialize ::
  "(u8 list \<Rightarrow> 'e + 'a) \<Rightarrow> (string \<Rightarrow> 'e + u8 list) \<Rightarrow> string \<Rightarrow> 'e + 'a opaque" where
  "opaque_deserialize of_json decode s =
     (case decode s of Inl e \<Rightarrow> Inl e | Inr bs \<Rightarrow> map_sum id Opaque (of_json bs))"

section \<open>Cursors\<close>

datatype 'p cursor_choice_after = After 'p | AfterInclusive 'p

datatype 'p cursor_choice_before = Before 'p | BeforeInclusive 'p

datatype 'p cursor_choice =
    ChoiceAfter "'p cursor_choice_after"
  | ChoiceBefore "'p cursor_choice_before"

record 'p cursor =
  cur_after :: "'p cursor_choice_after option"
  cur_before :: "'p cursor_choice_before option"

record 'p opaque_cursor =
  oc_after :: "'p cursor_choice_after opaque option"
  oc_before :: "'p cursor_choice_before opaque option"

definition into_opaque :: "'p cursor \<Rightarrow> 'p opaque_cursor" where
  "into_opaque c = \<lparr>oc_after = map_option Opaque (cur_after c),
                    oc_before = map_option Opaque (cur_before c)\<rparr>"

fun after_inner :: "'p cursor_choice_after \<Rightarrow> 'p" where
  "after_inner (After pos) = pos"
| "after_inner (AfterInclusive pos) = pos"

fun after_inclusive :: "'p cursor_choice_after \<Rightarrow> 'p cursor_choice_after" where
  "after_inclusive (After pos) = AfterInclusive pos"
| "after_inclusive (AfterInclusive pos) = AfterInclusive pos"

fun after_to_bound :: "'p cursor_choice_after \<Rightarrow> 'p bound" where
  "after_to_bound (After pos) = Excluded pos"
| "after_to_bound (AfterInclusive pos) = Included pos"

fun after_map_pos :: "('p \<Rightarrow> 'q) \<Rightarrow> 'p cursor_choice_after \<Rightarrow> 'q cursor_choice_after" where
  "after_map_pos f (After pos) = After (f pos)"
| "after_map_pos f (AfterInclusive pos) = AfterInclusive (f pos)"

fun before_inner :: "'p cursor_choice_before \<Rightarrow> 'p" where
  "before_inner (Before pos) = pos"
| "before_inner (BeforeInclusive pos) = pos"

fun before_inclusive :: "'p cursor_choice_before \<Rightarrow> 'p cursor_choice_before" where
  "before_inclusive (Before pos) = BeforeInclusive pos"
| "before_inclusive (BeforeInclusive pos) = BeforeInclusive pos"

fun before_to_bound :: "'p cursor_choice_before \<Rightarrow> 'p bound" where
  "before_to_bound (Before pos) = Excluded pos"
| "before_to_bound (BeforeInclusive pos) = Included pos"

fun before_map_pos :: "('p \<Rightarrow> 'q) \<Rightarrow> 'p cursor_choice_before \<Rightarrow> 'q cursor_choice_before" where
  "before_map_pos f (Before pos) = Before (f pos)"
| "before_map_pos f (BeforeInclusive pos) = BeforeInclusive (f pos)"

fun choice_inner :: "'p cursor_choice \<Rightarrow> 'p" where
  "choice_inner (ChoiceAfter after) = after_inner after"
| "choice_inner (ChoiceBefore before) = before_inner before"

fun choice_map_pos :: "('p \<Rightarrow> 'q) \<Rightarrow> 'p cursor_choice \<Rightarrow> 'q cursor_choice" where
  "choice_map_pos f (ChoiceAfter after) = ChoiceAfter (after_map_pos f after)"
| "choice_map_pos f (ChoiceBefore before) = ChoiceBefore (before_map_pos f before)"

fun choice_inclusive :: "'p cursor_choice \<Rightarrow> 'p cursor_choice" where
  "choice_inclusive (ChoiceAfter after) = ChoiceAfter (after_inclusive after)"
| "choice_inclusive (ChoiceBefore before) = ChoiceBefore (before_inclusive before)"

section \<open>The paginator\<close>

text \<open>\<open>pg_iter\<close> holds the items the wrapped iterator has yet to yield.\<close>

record ('i, 'p) paginator =
  pg_iter :: "'i list"
  pg_before :: "'p cursor_choice_before option"
  pg_after :: "'p cursor_choice_after option"

definition paginator_new :: "'i list \<Rightarrow> ('i, 'p) paginator" where
  "paginator_new iter = \<lparr>pg_iter = iter, pg_before = None, pg_after = None\<rparr>"

definition paginator_next ::
  "('i \<Rightarrow> 'p option) \<Rightarrow> ('i, 'p) paginator \<Rightarrow> 'i option \<times> ('i, 'p) paginator" where
  "paginator_next item_to_pos p =
     (case pg_iter p of
        [] \<Rightarrow> (None, p)
      | item # iter \<Rightarrow>
          (Some item,
           (case item_to_pos item of
              None \<Rightarrow> p\<lparr>pg_iter := iter\<rparr>
            | Some pos \<Rightarrow>
                p\<lparr>pg_iter := iter,
                  pg_before := (if pg_before p = None then Some (Before pos) else pg_before p),
                  pg_after := Some (After pos)\<rparr>)))"

text \<open>\<open>Iterator::collect\<close> calls \<open>next\<close> until it returns \<open>None\<close>.\<close>

function drain :: "('i \<Rightarrow> 'p option) \<Rightarrow> ('i, 'p) paginator \<Rightarrow> 'i list \<times> ('i, 'p) paginator" where
  "drain item_to_pos p =
     (case paginator_next item_to_pos p of
        (None, p') \<Rightarrow> ([], p')
      | (Some item, p') \<Rightarrow> (let (items, q) = drain item_to_pos p' in (item # items, q)))"
  by auto
termination
  by (relation "measure (\<lambda>(f, p). length (pg_iter p))")
    (auto simp: paginator_next_def split: list.splits option.splits prod.splits)

declare drain.simps [simp del]

definition paginator_collect ::
  "('i \<Rightarrow> 'p option) \<Rightarrow> ('i, 'p) paginator \<Rightarrow> 'p cursor \<times> 'i list" where
  "paginator_collect item_to_pos p =
     (let (items, q) = drain item_to_pos p
      in (\<lparr>cur_after = pg_after q, cur_before = pg_before q\<rparr>, items))"

record ('l, 'p) paginated_list =
  pl_cursor :: "'p cursor"
  pl_list :: 'l

text \<open>\<open>From<PaginatedList<Result<L, E>, Pos>> for Result<PaginatedList<L, Pos>, E>\<close>.\<close>

definition result_of_paginated :: "('e + 'l, 'p) paginated_list \<Rightarrow> 'e + ('l, 'p) paginated_list" where
  "result_of_paginated p =
     (case pl_list p of
        Inl e \<Rightarrow> Inl e
      | Inr list \<Rightarrow> Inr \<lparr>pl_cursor = pl_cursor p, pl_list = list\<rparr>)"

section \<open>The cursor of a page\<close>

definition positions :: "('i \<Rightarrow> 'p option) \<Rightarrow> 'i list \<Rightarrow> 'p list" where
  "positions item_to_pos items = List.map_filter item_to_pos items"

lemma positions_simps [simp]:
  "positions f [] = []"
  "positions f (x # xs) = (case f x of None \<Rightarrow> positions f xs | Some p \<Rightarrow> p # positions f xs)"
  by (simp_all add: positions_def List.map_filter_simps split: option.split)

lemma drain_spec:
  "drain f \<lparr>pg_iter = items, pg_before = b, pg_after = a\<rparr> = (items,
     \<lparr>pg_iter = [],
      pg_before = (if b = None \<and> positions f items \<noteq> [] then Some (Before (hd (positions f items))) else b),
      pg_after = (if positions f items \<noteq> [] then Some (After (last (positions f items))) else a)\<rparr>)"
proof (induction items arbitrary: a b)
  case Nil
  show ?case by (subst drain.simps) (simp add: paginator_next_def)
next
  case (Cons item items)
  show ?case
    by (cases b; subst drain.simps; simp add: paginator_next_def Cons split: option.split)
qed

lemma paginator_collect_eq:
  "paginator_collect f (paginator_new items) =
     (\<lparr>cur_after = (if positions f items = [] then None else Some (After (last (positions f items)))),
       cur_before = (if positions f items = [] then None else Some (Before (hd (positions f items))))\<rparr>,
      items)"
  by (simp add: paginator_collect_def drain_spec paginator_new_def)

end
