(* ===== verification/Block_Store.thy ===== *)
theory Block_Store
  imports Kv_Store Pagination
begin

text \<open>
  \<open>pkg/block-store\<close>: the store of blocks in the key-value database, with its indexes by block hash
  and transaction hash, the index of non-empty blocks, listing, pagination and migration. The trait
  \<open>Block\<close> with its wire format is the record \<open>block_impl\<close>; the traits \<open>StoreKey\<close> and \<open>ListableKey\<close>
  are the record \<open>key_impl\<close>, with one value for each of the two listable keys.
\<close>

section \<open>Errors and traits (lib.rs)\<close>

datatype 'e store_error =
    InvalidKey
  | InvalidVersion u32
  | RocksDB 'e
  | WireMessage 'e
  | Io 'e

record ('b, 't, 'e) block_impl =
  blk_height :: "'b \<Rightarrow> u64"
  blk_hash :: "'b \<Rightarrow> crypto_hash"
  blk_txns :: "'b \<Rightarrow> 't list"
  txn_hash :: "'t \<Rightarrow> crypto_hash"
  blk_to_bytes :: "'b \<Rightarrow> 'e + bytes"
  blk_from_bytes :: "bytes \<Rightarrow> 'e + 'b"
  txn_to_bytes :: "'t \<Rightarrow> 'e + bytes"
  txn_from_bytes :: "bytes \<Rightarrow> 'e + 't"

text \<open>The conversions of the two library errors, as \<open>?\<close> inserts them.\<close>

definition of_rocksdb :: "'e + 'a \<Rightarrow> ('e store_error + 'a) option" where
  "of_rocksdb r = Some (map_sum RocksDB id r)"

definition of_wire :: "'e + 'a \<Rightarrow> ('e store_error + 'a) option" where
  "of_wire r = Some (map_sum WireMessage id r)"

section \<open>Keys (keys.rs)\<close>

datatype key_block = KeyBlock u64

datatype key_non_empty_block = KeyNonEmptyBlock u64

datatype key =
    Block key_block
  | MaxHeight
  | BlockHashToHeight crypto_hash
  | PendingBlock
  | TxnByHash crypto_hash
  | StoreVersion
  | NonEmptyBlock key_non_empty_block

fun kind :: "key \<Rightarrow> u8" where
  "kind (Block _) = 0"
| "kind MaxHeight = 1"
| "kind (BlockHashToHeight _) = 2"
| "kind PendingBlock = 3"
| "kind (TxnByHash _) = 4"
| "kind StoreVersion = 5"
| "kind (NonEmptyBlock _) = 6"

fun key_block_serialize_to :: "key_block \<Rightarrow> bytes \<Rightarrow> bytes" where
  "key_block_serialize_to (KeyBlock h) out = out @ be_bytes 8 h"

fun key_non_empty_block_serialize_to :: "key_non_empty_block \<Rightarrow> bytes \<Rightarrow> bytes" where
  "key_non_empty_block_serialize_to (KeyNonEmptyBlock h) out = out @ be_bytes 8 h"

definition key_serialize :: "key \<Rightarrow> bytes" where
  "key_serialize k =
     (let out = [kind k]
      in case k of
           Block block_number \<Rightarrow> key_block_serialize_to block_number out
         | MaxHeight \<Rightarrow> out
         | BlockHashToHeight block_hash \<Rightarrow> out @ be_bytes 32 block_hash
         | PendingBlock \<Rightarrow> out
         | TxnByHash hash \<Rightarrow> out @ be_bytes 32 hash
         | StoreVersion \<Rightarrow> out
         | NonEmptyBlock block_number \<Rightarrow> key_non_empty_block_serialize_to block_number out)"

definition serialize_immediate_successor :: "key \<Rightarrow> bytes" where
  "serialize_immediate_successor k = key_serialize k @ [0]"

text \<open>Slicing \<open>bytes[0..8]\<close> of a shorter slice panics.\<close>

definition key_block_deserialize :: "bytes \<Rightarrow> ('e store_error + key_block) option" where
  "key_block_deserialize bs =
     (if length bs < 8 then None else Some (Inr (KeyBlock (from_be (take 8 bs)))))"

definition key_non_empty_block_deserialize ::
  "bytes \<Rightarrow> ('e store_error + key_non_empty_block) option" where
  "key_non_empty_block_deserialize bs =
     (if length bs < 8 then None else Some (Inr (KeyNonEmptyBlock (from_be (take 8 bs)))))"

fun key_deserialize :: "bytes \<Rightarrow> ('e store_error + key) option" where
  "key_deserialize [] = Some (Inl InvalidKey)"
| "key_deserialize (k # bs) =
     (if k = 0 then try_bind (key_block_deserialize bs) (\<lambda>b. Some (Inr (Block b)))
      else if k = 1 then Some (Inr MaxHeight)
      else if k = 2 then
        (if length bs < 32 then None else Some (Inr (BlockHashToHeight (from_be (take 32 bs)))))
      else if k = 3 then Some (Inr PendingBlock)
      else if k = 4 then
        (if length bs < 32 then None else Some (Inr (TxnByHash (from_be (take 32 bs)))))
      else if k = 5 then Some (Inr StoreVersion)
      else if k = 6 then
        try_bind (key_non_empty_block_deserialize bs) (\<lambda>b. Some (Inr (NonEmptyBlock b)))
      else Some (Inl InvalidKey))"

datatype block_list_order = LowestToHighest | HighestToLowest

fun is_indexed_order :: "block_list_order \<Rightarrow> bool" where
  "is_indexed_order LowestToHighest = True"
| "is_indexed_order HighestToLowest = False"

fun order_reverse :: "block_list_order \<Rightarrow> block_list_order" where
  "order_reverse LowestToHighest = HighestToLowest"
| "order_reverse HighestToLowest = LowestToHighest"

text \<open>The trait methods of a listable key: \<open>to_key\<close>, \<open>from_key\<close>, \<open>min_value\<close> and \<open>max_value\<close>.\<close>

record 'k key_impl =
  ki_to_key :: "'k \<Rightarrow> key"
  ki_from_key :: "key \<Rightarrow> 'k option"
  ki_min_value :: 'k
  ki_max_value :: 'k

definition key_block_impl :: "key_block key_impl" where
  "key_block_impl = \<lparr>ki_to_key = Block,
                     ki_from_key = (\<lambda>k. case k of Block kb \<Rightarrow> Some kb | _ \<Rightarrow> None),
                     ki_min_value = KeyBlock 0, ki_max_value = KeyBlock (- 1)\<rparr>"

definition key_non_empty_block_impl :: "key_non_empty_block key_impl" where
  "key_non_empty_block_impl = \<lparr>ki_to_key = NonEmptyBlock,
                     ki_from_key = (\<lambda>k. case k of NonEmptyBlock kb \<Rightarrow> Some kb | _ \<Rightarrow> None),
                     ki_min_value = KeyNonEmptyBlock 0, ki_max_value = KeyNonEmptyBlock (- 1)\<rparr>"

text \<open>\<open>KeyNonEmptyBlock::from_block\<close>.\<close>

definition non_empty_from_block :: "('b, 't, 'e) block_impl \<Rightarrow> 'b \<Rightarrow> key_non_empty_block option" where
  "non_empty_from_block B b =
     (if blk_txns B b = [] then None else Some (KeyNonEmptyBlock (blk_height B b)))"

section \<open>Lists (keys.rs, list.rs)\<close>

record list_query =
  lq_start_key :: key
  lq_end_key :: key
  lq_lower_exclusive :: bool
  lq_upper_inclusive :: bool
  lq_start_to_end :: bool

definition bound_key :: "'k key_impl \<Rightarrow> 'k \<Rightarrow> 'k bound \<Rightarrow> key" where
  "bound_key I unbounded b =
     (case b of
        Included x \<Rightarrow> ki_to_key I x
      | Excluded x \<Rightarrow> ki_to_key I x
      | Unbounded \<Rightarrow> ki_to_key I unbounded)"

definition key_list ::
  "'k key_impl \<Rightarrow> 'k bound \<times> 'k bound \<Rightarrow> block_list_order \<Rightarrow> list_query" where
  "key_list I rng order =
     \<lparr>lq_start_key = bound_key I (ki_min_value I) (fst rng),
      lq_end_key = bound_key I (ki_max_value I) (snd rng),
      lq_lower_exclusive = (case fst rng of Included _ \<Rightarrow> False | Excluded _ \<Rightarrow> True | Unbounded \<Rightarrow> False),
      lq_upper_inclusive = (case snd rng of Included _ \<Rightarrow> True | Excluded _ \<Rightarrow> False | Unbounded \<Rightarrow> True),
      lq_start_to_end = is_indexed_order order\<rparr>"

definition list_reverse :: "list_query \<Rightarrow> list_query" where
  "list_reverse q = q\<lparr>lq_start_to_end := \<not> lq_start_to_end q\<rparr>"

text \<open>One item of the iterator; \<open>dec\<close> deserialises the stored value.\<close>

definition list_item ::
  "(bytes \<Rightarrow> 'e + 'v) \<Rightarrow> 'e + bytes \<times> bytes \<Rightarrow> ('e store_error + key \<times> 'v) option" where
  "list_item dec r =
     try_bind (of_rocksdb r) (\<lambda>(k, v).
     try_bind (key_deserialize k) (\<lambda>key.
     try_bind (of_wire (dec v)) (\<lambda>value. Some (Inr (key, value)))))"

definition lower_bound :: "list_query \<Rightarrow> bytes" where
  "lower_bound q =
     (if lq_lower_exclusive q then serialize_immediate_successor (lq_start_key q)
      else key_serialize (lq_start_key q))"

definition upper_bound :: "list_query \<Rightarrow> bytes" where
  "upper_bound q =
     (if lq_upper_inclusive q then serialize_immediate_successor (lq_end_key q)
      else key_serialize (lq_end_key q))"

definition into_iterator ::
  "('db, 'e) kv_ops \<Rightarrow> (bytes \<Rightarrow> 'e + 'v) \<Rightarrow> 'db \<Rightarrow> list_query
     \<Rightarrow> ('e store_error + key \<times> 'v) option list" where
  "into_iterator K dec db q =
     map (list_item dec) (kv_scan K db (lq_start_to_end q) (lower_bound q) (upper_bound q))"

definition cursor_bounds :: "'k cursor_choice option \<Rightarrow> 'k bound \<times> 'k bound" where
  "cursor_bounds cursor =
     (case cursor of
        None \<Rightarrow> (Unbounded, Unbounded)
      | Some (ChoiceBefore before) \<Rightarrow> (Unbounded, before_to_bound before)
      | Some (ChoiceAfter after) \<Rightarrow> (after_to_bound after, Unbounded))"

definition key_list_paginated ::
  "'k key_impl \<Rightarrow> ('db, 'e) kv_ops \<Rightarrow> (bytes \<Rightarrow> 'e + 'v) \<Rightarrow> 'db \<Rightarrow> 'k cursor_choice option
     \<Rightarrow> block_list_order \<Rightarrow> nat \<Rightarrow> ('e store_error + (key \<times> 'v) list) option" where
  "key_list_paginated I K dec db cursor order limit =
     (let (s, e) = cursor_bounds cursor;
          (s, e) = (if is_indexed_order order then (s, e) else (e, s));
          (reverse_results, order) = (case cursor of
               None \<Rightarrow> (False, order)
             | Some (ChoiceAfter _) \<Rightarrow> (False, order)
             | Some (ChoiceBefore _) \<Rightarrow> (True, order_reverse order))
      in try_bind (collect_results (take limit (into_iterator K dec db (key_list I (s, e) order))))
           (\<lambda>results. Some (Inr (if reverse_results then rev results else results))))"

text \<open>The closures of \<open>list\<close> and \<open>list_non_empty\<close>, which give the key its own type back.\<close>

definition as_block :: "key \<times> 'b \<Rightarrow> ('e store_error + key_block \<times> 'b) option" where
  "as_block e = (case fst e of Block n \<Rightarrow> Some (Inr (n, snd e)) | _ \<Rightarrow> Some (Inl InvalidKey))"

definition as_non_empty :: "key \<times> 'b \<Rightarrow> ('e store_error + key_non_empty_block \<times> 'b) option" where
  "as_non_empty e = (case fst e of NonEmptyBlock n \<Rightarrow> Some (Inr (n, snd e)) | _ \<Rightarrow> Some (Inl InvalidKey))"

definition store_list where
  "store_list K B db rng order =
     map (\<lambda>r. try_bind r as_block)
       (into_iterator K (blk_from_bytes B) db
          (key_list key_block_impl (map_prod (map_bound KeyBlock) (map_bound KeyBlock) rng) order))"

definition store_list_paginated where
  "store_list_paginated K B db cursor order limit =
     try_bind (key_list_paginated key_block_impl K (blk_from_bytes B) db
                 (map_option (choice_map_pos KeyBlock) cursor) order limit)
       (\<lambda>items. Some (Inr (map as_block items)))"

definition store_list_non_empty where
  "store_list_non_empty K B db rng order =
     map (\<lambda>r. try_bind r as_non_empty)
       (into_iterator K (blk_from_bytes B) db
          (key_list key_non_empty_block_impl
             (map_prod (map_bound KeyNonEmptyBlock) (map_bound KeyNonEmptyBlock) rng) order))"

definition store_list_non_empty_paginated where
  "store_list_non_empty_paginated K B db cursor order limit =
     try_bind (key_list_paginated key_non_empty_block_impl K (blk_from_bytes B) db
                 (map_option (choice_map_pos KeyNonEmptyBlock) cursor) order limit)
       (\<lambda>items. Some (Inr (map as_non_empty items)))"

definition list_txns ::
  "('db, 'e) kv_ops \<Rightarrow> ('b, 't, 'e) block_impl \<Rightarrow> 'db \<Rightarrow> ('e store_error + 't) option list" where
  "list_txns K B db =
     map (\<lambda>r. try_bind (of_rocksdb r) (\<lambda>(_, value). of_wire (txn_from_bytes B value)))
       (kv_scan K db True (key_serialize (TxnByHash 0)) (serialize_immediate_successor (TxnByHash (- 1))))"

section \<open>The store (lib.rs)\<close>

text \<open>\<open>try_into().unwrap()\<close> of a stored integer panics when its length is not that of the integer.\<close>

definition read_int :: "nat \<Rightarrow> bytes \<Rightarrow> 'n::len word option" where
  "read_int k bs = (if length bs = k then Some (from_be bs) else None)"

definition get_max_height ::
  "('db, 'e) kv_ops \<Rightarrow> 'db \<Rightarrow> ('e store_error + u64 option) option" where
  "get_max_height K db =
     try_bind (of_rocksdb (kv_get K db (key_serialize MaxHeight))) (\<lambda>v. case v of
       None \<Rightarrow> Some (Inr None)
     | Some max_block \<Rightarrow> map_option (\<lambda>h. Inr (Some h)) (read_int 8 max_block))"

fun txn_entries ::
  "('b, 't, 'e) block_impl \<Rightarrow> 't list \<Rightarrow> ('e store_error + (key \<times> bytes) list) option" where
  "txn_entries B txns =
     collect_results (map (\<lambda>tx. try_bind (of_wire (txn_to_bytes B tx))
                                  (\<lambda>bs. Some (Inr (TxnByHash (txn_hash B tx), bs)))) txns)"

definition put_all :: "(key \<times> bytes) list \<Rightarrow> write_op list" where
  "put_all es = map (\<lambda>(k, v). Put (key_serialize k) v) es"

text \<open>
  \<open>BlockStore::set\<close>: the batch of all its puts, in order, written at once. The result is the database
  after the call, or the error, which leaves the database as it was.
\<close>

definition store_set ::
  "('db, 'e) kv_ops \<Rightarrow> ('b, 't, 'e) block_impl \<Rightarrow> 'db \<Rightarrow> 'b \<Rightarrow> ('e store_error + 'db) option" where
  "store_set K B db block =
     (let height = blk_height B block
      in try_bind (of_wire (blk_to_bytes B block)) (\<lambda>bytes.
         try_bind (get_max_height K db) (\<lambda>max_height.
         try_bind (txn_entries B (blk_txns B block)) (\<lambda>txns.
           of_rocksdb (kv_write K db
             ([Put (key_serialize (Block (KeyBlock height))) bytes]
              @ (if (case max_height of None \<Rightarrow> True | Some m \<Rightarrow> height > m)
                 then [Put (key_serialize MaxHeight) (be_bytes 8 height)] else [])
              @ [Put (key_serialize (BlockHashToHeight (blk_hash B block))) (be_bytes 8 height)]
              @ put_all txns
              @ (case non_empty_from_block B block of
                   None \<Rightarrow> []
                 | Some key \<Rightarrow> [Put (key_serialize (NonEmptyBlock key)) bytes])))))))"

definition store_get ::
  "('db, 'e) kv_ops \<Rightarrow> ('b, 't, 'e) block_impl \<Rightarrow> 'db \<Rightarrow> u64 \<Rightarrow> ('e store_error + 'b option) option" where
  "store_get K B db block_number =
     try_bind (of_rocksdb (kv_get K db (key_serialize (Block (KeyBlock block_number))))) (\<lambda>v. case v of
       None \<Rightarrow> Some (Inr None)
     | Some bytes \<Rightarrow> try_bind (of_wire (blk_from_bytes B bytes)) (\<lambda>b. Some (Inr (Some b))))"

definition get_block_height_by_hash ::
  "('db, 'e) kv_ops \<Rightarrow> 'db \<Rightarrow> crypto_hash \<Rightarrow> ('e store_error + u64 option) option" where
  "get_block_height_by_hash K db block_hash =
     try_bind (of_rocksdb (kv_get K db (key_serialize (BlockHashToHeight block_hash)))) (\<lambda>v. case v of
       None \<Rightarrow> Some (Inr None)
     | Some block_height \<Rightarrow> map_option (\<lambda>h. Inr (Some h)) (read_int 8 block_height))"

definition get_pending_block ::
  "('db, 'e) kv_ops \<Rightarrow> ('b, 't, 'e) block_impl \<Rightarrow> 'db \<Rightarrow> ('e store_error + 'b option) option" where
  "get_pending_block K B db =
     try_bind (of_rocksdb (kv_get K db (key_serialize PendingBlock))) (\<lambda>v. case v of
       None \<Rightarrow> Some (Inr None)
     | Some bytes \<Rightarrow> try_bind (of_wire (blk_from_bytes B bytes)) (\<lambda>b. Some (Inr (Some b))))"

definition get_txn_by_hash ::
  "('db, 'e) kv_ops \<Rightarrow> ('b, 't, 'e) block_impl \<Rightarrow> 'db \<Rightarrow> crypto_hash
     \<Rightarrow> ('e store_error + 't option) option" where
  "get_txn_by_hash K B db hash =
     try_bind (of_rocksdb (kv_get K db (key_serialize (TxnByHash hash)))) (\<lambda>v. case v of
       None \<Rightarrow> Some (Inr None)
     | Some bytes \<Rightarrow> try_bind (of_wire (txn_from_bytes B bytes)) (\<lambda>t. Some (Inr (Some t))))"

definition store_version :: "('db, 'e) kv_ops \<Rightarrow> 'db \<Rightarrow> ('e store_error + u32) option" where
  "store_version K db =
     try_bind (of_rocksdb (kv_get K db (key_serialize StoreVersion))) (\<lambda>v. case v of
       None \<Rightarrow> Some (Inr 0)
     | Some version \<Rightarrow> map_option Inr (read_int 4 version))"

definition set_store_version :: "('db, 'e) kv_ops \<Rightarrow> 'db \<Rightarrow> u32 \<Rightarrow> ('e store_error + 'db) option" where
  "set_store_version K db version = of_rocksdb (kv_put K db (key_serialize StoreVersion) (be_bytes 4 version))"

definition LATEST_VERSION :: u32 where "LATEST_VERSION = 1"

text \<open>
  \<open>create_or_load\<close>: \<open>exists\<close> tells whether the directory exists and has an entry (the error is that of
  reading it), \<open>open_db\<close> is \<open>DB::open\<close> with its flag \<open>create_if_missing\<close>.
\<close>

definition create_or_load ::
  "('db, 'e) kv_ops \<Rightarrow> 'e + bool \<Rightarrow> (bool \<Rightarrow> 'e + 'db) \<Rightarrow> ('e store_error + 'db) option" where
  "create_or_load K exists open_db =
     try_bind (Some (map_sum Io id exists)) (\<lambda>present.
       if present then of_rocksdb (open_db False)
       else try_bind (of_rocksdb (open_db True)) (\<lambda>db. set_store_version K db LATEST_VERSION))"

section \<open>Migration (migration.rs)\<close>

fun migrate_blocks ::
  "('db, 'e) kv_ops \<Rightarrow> ('b, 't, 'e) block_impl \<Rightarrow> 'db
     \<Rightarrow> ('e store_error + key_block \<times> 'b) option list \<Rightarrow> ('e store_error + 'db) option" where
  "migrate_blocks K B db [] = Some (Inr db)"
| "migrate_blocks K B db (r # rs) =
     try_bind r (\<lambda>(_, block).
     try_bind (txn_entries B (blk_txns B block)) (\<lambda>txns.
     try_bind (case non_empty_from_block B block of
                 None \<Rightarrow> Some (Inr [])
               | Some key \<Rightarrow> try_bind (of_wire (blk_to_bytes B block))
                   (\<lambda>bytes. Some (Inr [Put (key_serialize (NonEmptyBlock key)) bytes]))) (\<lambda>non_empty.
     try_bind (of_rocksdb (kv_write K db (put_all txns @ non_empty))) (\<lambda>db.
       migrate_blocks K B db rs))))"

definition migrate_to_v1 ::
  "('db, 'e) kv_ops \<Rightarrow> ('b, 't, 'e) block_impl \<Rightarrow> 'db \<Rightarrow> ('e store_error + 'db) option" where
  "migrate_to_v1 K B db =
     try_bind (migrate_blocks K B db (store_list K B db (Unbounded, Unbounded) LowestToHighest))
       (\<lambda>db. set_store_version K db 1)"

text \<open>The loop of \<open>migrate\<close>: \<open>None\<close> outside is the loop running out of fuel.\<close>

fun migrate :: "nat \<Rightarrow> ('db, 'e) kv_ops \<Rightarrow> ('b, 't, 'e) block_impl \<Rightarrow> 'db
     \<Rightarrow> ('e store_error + 'db) option option" where
  "migrate 0 K B db = None"
| "migrate (Suc fuel) K B db =
     (case store_version K db of
        None \<Rightarrow> Some None
      | Some (Inl e) \<Rightarrow> Some (Some (Inl e))
      | Some (Inr version) \<Rightarrow>
          (if version = 0 then
             (case migrate_to_v1 K B db of
                None \<Rightarrow> Some None
              | Some (Inl e) \<Rightarrow> Some (Some (Inl e))
              | Some (Inr db) \<Rightarrow> migrate fuel K B db)
           else if version = 1 then Some (Some (Inr db))
           else Some (Some (Inl (InvalidVersion version)))))"

end
