(* ===== verification/Block_Store_Inv.thy ===== *)
theory Block_Store_Inv
  imports Block_Store
begin

text \<open>
  What the block store keeps: the contents of the database as a function of the history of blocks
  given to \<open>set\<close> (\<open>store_rep\<close>), and what its lists yield, proved once for both listable keys in the
  locale \<open>listable_key\<close>.
\<close>

section \<open>Keys and their bytes\<close>

lemma key_exhaust:
  obtains h where "k = Block (KeyBlock h)" | "k = MaxHeight" | x where "k = BlockHashToHeight x"
    | "k = PendingBlock" | x where "k = TxnByHash x" | "k = StoreVersion"
    | h where "k = NonEmptyBlock (KeyNonEmptyBlock h)"
proof (cases k)
  case (Block kb)
  with that(1) show ?thesis by (cases kb) simp
next
  case (NonEmptyBlock kb)
  with that(7) show ?thesis by (cases kb) simp
qed (use that in blast)+

lemma key_roundtrip [simp]: "key_deserialize (key_serialize k) = Some (Inr k)"
  by (cases k rule: key_exhaust)
    (simp_all add: key_serialize_def key_block_deserialize_def key_non_empty_block_deserialize_def
      from_be_bytes_gen)

lemma key_serialize_inject [simp]: "key_serialize k = key_serialize k' \<longleftrightarrow> k = k'"
  using key_roundtrip[of k] key_roundtrip[of k'] by (metis option.inject sum.inject(2))

lemma key_serialize_Cons: "key_serialize k = kind k # tl (key_serialize k)"
  by (cases k rule: key_exhaust) (simp_all add: key_serialize_def)

section \<open>The contents after a history of blocks\<close>

text \<open>The wire format gives every block and every transaction back.\<close>

definition wire_ok :: "('b, 't, 'e) block_impl \<Rightarrow> bool" where
  "wire_ok B \<longleftrightarrow> (\<forall>b. \<exists>bs. blk_to_bytes B b = Inr bs \<and> blk_from_bytes B bs = Inr b)
               \<and> (\<forall>t. \<exists>bs. txn_to_bytes B t = Inr bs \<and> txn_from_bytes B bs = Inr t)"

definition enc :: "('b, 't, 'e) block_impl \<Rightarrow> 'b \<Rightarrow> bytes" where
  "enc B b = projr (blk_to_bytes B b)"

definition tenc :: "('b, 't, 'e) block_impl \<Rightarrow> 't \<Rightarrow> bytes" where
  "tenc B t = projr (txn_to_bytes B t)"

lemma wire_okD:
  assumes "wire_ok B"
  shows "blk_to_bytes B b = Inr (enc B b)" "blk_from_bytes B (enc B b) = Inr b"
    and "txn_to_bytes B t = Inr (tenc B t)" "txn_from_bytes B (tenc B t) = Inr t"
proof -
  obtain bs where "blk_to_bytes B b = Inr bs" "blk_from_bytes B bs = Inr b"
    using assms by (auto simp: wire_ok_def)
  then show "blk_to_bytes B b = Inr (enc B b)" "blk_from_bytes B (enc B b) = Inr b"
    by (simp_all add: enc_def)
  obtain bs where "txn_to_bytes B t = Inr bs" "txn_from_bytes B bs = Inr t"
    using assms by (auto simp: wire_ok_def)
  then show "txn_to_bytes B t = Inr (tenc B t)" "txn_from_bytes B (tenc B t) = Inr t"
    by (simp_all add: tenc_def)
qed

text \<open>A history lists the blocks given to \<open>set\<close>, the newest first.\<close>

definition block_at :: "('b, 't, 'e) block_impl \<Rightarrow> 'b list \<Rightarrow> u64 \<Rightarrow> 'b option" where
  "block_at B hist h = find (\<lambda>b. blk_height B b = h) hist"

definition non_empty_at :: "('b, 't, 'e) block_impl \<Rightarrow> 'b list \<Rightarrow> u64 \<Rightarrow> 'b option" where
  "non_empty_at B hist h = find (\<lambda>b. blk_height B b = h \<and> blk_txns B b \<noteq> []) hist"

definition with_hash :: "('b, 't, 'e) block_impl \<Rightarrow> 'b list \<Rightarrow> crypto_hash \<Rightarrow> 'b option" where
  "with_hash B hist x = find (\<lambda>b. blk_hash B b = x) hist"

definition txn_with_hash :: "('b, 't, 'e) block_impl \<Rightarrow> 'b list \<Rightarrow> crypto_hash \<Rightarrow> 't option" where
  "txn_with_hash B hist x = find (\<lambda>t. txn_hash B t = x) (concat (map (\<lambda>b. rev (blk_txns B b)) hist))"

definition max_height_of :: "('b, 't, 'e) block_impl \<Rightarrow> 'b list \<Rightarrow> u64 option" where
  "max_height_of B hist = (if hist = [] then None else Some (Max (blk_height B ` set hist)))"

fun expected :: "('b, 't, 'e) block_impl \<Rightarrow> bytes option \<Rightarrow> 'b list \<Rightarrow> key \<Rightarrow> bytes option" where
  "expected B ver hist (Block (KeyBlock h)) = map_option (enc B) (block_at B hist h)"
| "expected B ver hist MaxHeight = map_option (be_bytes 8) (max_height_of B hist)"
| "expected B ver hist (BlockHashToHeight x) = map_option (\<lambda>b. be_bytes 8 (blk_height B b)) (with_hash B hist x)"
| "expected B ver hist PendingBlock = None"
| "expected B ver hist (TxnByHash x) = map_option (tenc B) (txn_with_hash B hist x)"
| "expected B ver hist StoreVersion = ver"
| "expected B ver hist (NonEmptyBlock (KeyNonEmptyBlock h)) = map_option (enc B) (non_empty_at B hist h)"

definition all_keys :: "kv_contents \<Rightarrow> bool" where
  "all_keys m \<longleftrightarrow> (\<forall>e \<in> set m. \<exists>k. fst e = key_serialize k)"

definition store_rep ::
  "('b, 't, 'e) block_impl \<Rightarrow> bytes option \<Rightarrow> 'b list \<Rightarrow> kv_contents \<Rightarrow> bool" where
  "store_rep B ver hist m \<longleftrightarrow>
     (\<forall>k. map_of m (key_serialize k) = expected B ver hist k) \<and> all_keys m"

lemma put_all_append [simp]: "put_all (es @ fs) = put_all es @ put_all fs"
  by (simp add: put_all_def)

lemma put_all_simps [simp]:
  "put_all [] = []"
  "put_all ((k, v) # es) = Put (key_serialize k) v # put_all es"
  by (simp_all add: put_all_def)

lemma put_all_lookup:
  "map_of (apply_ops (put_all es) m) (key_serialize k)
     = (case map_of (rev es) k of None \<Rightarrow> map_of m (key_serialize k) | Some v \<Rightarrow> Some v)"
proof (induction es arbitrary: m)
  case (Cons e es)
  then show ?case by (cases e) (auto simp: map_add_def split: option.split)
qed simp

lemma all_keys_put_all: "all_keys m \<Longrightarrow> all_keys (apply_ops (put_all es) m)"
proof (induction es arbitrary: m)
  case (Cons e es)
  obtain k v where e: "e = (k, v)" by (cases e)
  have "all_keys (bt_insert (key_serialize k) v m)"
    using Cons.prems keys_bt_insert[of "key_serialize k" v m]
    unfolding all_keys_def by (metis (no_types, opaque_lifting) imageE image_eqI insert_iff)
  then show ?case using Cons.IH by (simp add: e)
qed simp

lemma txn_entries_ok:
  "wire_ok B \<Longrightarrow> txn_entries B txns = Some (Inr (map (\<lambda>t. (TxnByHash (txn_hash B t), tenc B t)) txns))"
  by (induction txns) (simp_all add: of_wire_def wire_okD)

lemma map_of_txns:
  "map_of (rev (map (\<lambda>t. (TxnByHash (f t), g t)) txns)) (TxnByHash x)
     = map_option g (find (\<lambda>t. f t = x) (rev txns))"
  by (induction txns rule: rev_induct) simp_all

lemma map_of_txns_other:
  "kind k \<noteq> 4 \<Longrightarrow> map_of (rev (map (\<lambda>t. (TxnByHash (f t), g t)) txns)) k = None"
  by (auto simp: map_of_eq_None_iff)

lemma find_append: "find P (xs @ ys) = (case find P xs of None \<Rightarrow> find P ys | Some x \<Rightarrow> Some x)"
  by (induction xs) auto

lemma max_height_Cons:
  "max_height_of B (b # hist)
     = Some (case max_height_of B hist of None \<Rightarrow> blk_height B b | Some m \<Rightarrow> max (blk_height B b) m)"
  by (simp add: max_height_of_def)

lemma get_max_height_rep:
  assumes "kv_ok K contents" "store_rep B ver hist (contents db)"
  shows "get_max_height K db = Some (Inr (max_height_of B hist))"
proof -
  have "map_of (contents db) (key_serialize MaxHeight) = map_option (be_bytes 8) (max_height_of B hist)"
    using assms(2) by (simp add: store_rep_def)
  then show ?thesis
    by (auto simp: get_max_height_def of_rocksdb_def kv_okD(2)[OF assms(1)] read_int_def from_be_bytes_gen
        split: option.split)
qed

text \<open>The entries that \<open>set\<close> writes.\<close>

definition set_entries :: "('b, 't, 'e) block_impl \<Rightarrow> 'b list \<Rightarrow> 'b \<Rightarrow> (key \<times> bytes) list" where
  "set_entries B hist block =
     (Block (KeyBlock (blk_height B block)), enc B block)
     # (if (case max_height_of B hist of None \<Rightarrow> True | Some m \<Rightarrow> blk_height B block > m)
        then [(MaxHeight, be_bytes 8 (blk_height B block))] else [])
     @ (BlockHashToHeight (blk_hash B block), be_bytes 8 (blk_height B block))
     # map (\<lambda>t. (TxnByHash (txn_hash B t), tenc B t)) (blk_txns B block)
     @ (if blk_txns B block = [] then []
        else [(NonEmptyBlock (KeyNonEmptyBlock (blk_height B block)), enc B block)])"

lemma store_set_eq:
  assumes "kv_ok K contents" "wire_ok B" "store_rep B ver hist (contents db)"
  shows "store_set K B db block = of_rocksdb (kv_write K db (put_all (set_entries B hist block)))"
  using get_max_height_rep[OF assms(1,3)]
  by (simp add: store_set_def Let_def of_wire_def wire_okD[OF assms(2)] txn_entries_ok[OF assms(2)]
      set_entries_def non_empty_from_block_def del: txn_entries.simps)

lemma set_entries_expected:
  assumes "store_rep B ver hist m"
  shows "map_of (apply_ops (put_all (set_entries B hist block)) m) (key_serialize k)
           = expected B ver (block # hist) k"
proof -
  have old: "map_of m (key_serialize k) = expected B ver hist k"
    using assms by (simp add: store_rep_def)
  show ?thesis
    unfolding put_all_lookup old
    by (cases k rule: key_exhaust)
      (auto simp: set_entries_def map_add_def map_of_txns_other block_at_def non_empty_at_def
        with_hash_def txn_with_hash_def map_of_txns max_height_Cons find_append max_def
        split: option.split)
qed

lemma store_set_rep:
  assumes "kv_ok K contents" "wire_ok B" "store_rep B ver hist (contents db)"
  shows "\<exists>db'. store_set K B db block = Some (Inr db') \<and> store_rep B ver (block # hist) (contents db')"
proof -
  obtain db' where db': "kv_write K db (put_all (set_entries B hist block)) = Inr db'"
    "contents db' = apply_ops (put_all (set_entries B hist block)) (contents db)"
    using kv_okD(4)[OF assms(1)] by blast
  then have "store_rep B ver (block # hist) (contents db')"
    using assms(3) by (simp add: store_rep_def set_entries_expected all_keys_put_all)
  then show ?thesis
    using db'(1) by (simp add: store_set_eq[OF assms] of_rocksdb_def)
qed

section \<open>Ranges of keys\<close>

text \<open>The entries of one kind of key, by height, in the order of the database.\<close>

definition indexed :: "u8 \<Rightarrow> kv_contents \<Rightarrow> (u64 \<times> bytes) list" where
  "indexed p m = map (\<lambda>e. (from_be (tl (fst e)), snd e)) (filter (\<lambda>e. fst e \<noteq> [] \<and> hd (fst e) = p) m)"

definition in_range :: "u64 bound \<times> u64 bound \<Rightarrow> u64 \<Rightarrow> bool" where
  "in_range rng h \<longleftrightarrow>
     (case fst rng of Included x \<Rightarrow> x \<le> h | Excluded x \<Rightarrow> x < h | Unbounded \<Rightarrow> True)
     \<and> (case snd rng of Included x \<Rightarrow> h \<le> x | Excluded x \<Rightarrow> h < x | Unbounded \<Rightarrow> True)"

lemma be8_less [simp]: "be_bytes 8 a < be_bytes 8 (b :: u64) \<longleftrightarrow> a < b"
  by (rule be_bytes_less_iff) simp

lemma be8_inject [simp]: "be_bytes 8 a = be_bytes 8 (b :: u64) \<longleftrightarrow> a = b"
  by (rule be_bytes_inject) simp

lemma be8_le [simp]: "be_bytes 8 a \<le> be_bytes 8 (b :: u64) \<longleftrightarrow> a \<le> b"
  by (simp flip: not_less)

lemma from_be8 [simp]: "from_be (be_bytes 8 (a :: u64)) = a"
  by (rule from_be_bytes_gen) simp

lemma zero_ext_le: "xs @ [0] \<le> ys \<longleftrightarrow> xs < ys" for xs ys :: bytes
proof -
  have "xs @ [0] \<le> ys \<longleftrightarrow> \<not> ys < xs @ [0]" by (simp add: not_less)
  then show ?thesis by (simp add: less_append_zero not_le)
qed

text \<open>What the pages of a list should be: \<open>follows\<close> is the requested order of the heights.\<close>

fun follows :: "block_list_order \<Rightarrow> u64 \<Rightarrow> u64 \<Rightarrow> bool" where
  "follows LowestToHighest a b \<longleftrightarrow> a < b"
| "follows HighestToLowest a b \<longleftrightarrow> b < a"

fun beyond :: "block_list_order \<Rightarrow> u64 cursor_choice option \<Rightarrow> u64 \<Rightarrow> bool" where
  "beyond order None h \<longleftrightarrow> True"
| "beyond order (Some (ChoiceAfter (After pos))) h \<longleftrightarrow> follows order pos h"
| "beyond order (Some (ChoiceAfter (AfterInclusive pos))) h \<longleftrightarrow> \<not> follows order h pos"
| "beyond order (Some (ChoiceBefore (Before pos))) h \<longleftrightarrow> follows order h pos"
| "beyond order (Some (ChoiceBefore (BeforeInclusive pos))) h \<longleftrightarrow> \<not> follows order pos h"

definition page :: "block_list_order \<Rightarrow> u64 cursor_choice option \<Rightarrow> nat \<Rightarrow> u64 list \<Rightarrow> u64 list" where
  "page order cursor limit hs =
     (let xs = filter (beyond order cursor) (directed (is_indexed_order order) hs)
      in case cursor of Some (ChoiceBefore _) \<Rightarrow> rev (take limit (rev xs)) | _ \<Rightarrow> take limit xs)"

lemma directed_reverse: "directed (is_indexed_order (order_reverse order)) xs = rev (directed (is_indexed_order order) xs)"
  by (cases order) (simp_all add: directed_def)

lemma filter_directed: "filter P (directed f xs) = directed f (filter P xs)"
  by (simp add: directed_def rev_filter)

lemma map_directed: "map g (directed f xs) = directed f (map g xs)"
  by (simp add: directed_def rev_map)

lemma to_bound_map:
  "after_to_bound (after_map_pos f a) = map_bound f (after_to_bound a)"
  "before_to_bound (before_map_pos f b) = map_bound f (before_to_bound b)"
  by (cases a, simp_all) (cases b, simp_all)

lemma take_directed_map: "take l (map g xs) = map g (take l xs)"
  by (simp add: take_map)

lemma sorted_indexed_eq:
  assumes "bt_ok xs" "\<And>h. map_of xs h = map_option en (g h)"
  shows "xs = map (\<lambda>h. (h, en (the (g h)))) (sorted_list_of_set (dom g :: u64 set))"
proof (rule bt_ok_ext[OF _ assms(1)])
  have "finite (dom g)" by simp
  then show "map_of xs = map_of (map (\<lambda>h. (h, en (the (g h)))) (sorted_list_of_set (dom g)))"
    by (auto simp: fun_eq_iff map_of_map_restrict assms(2) restrict_map_def)
  show "bt_ok (map (\<lambda>h. (h, en (the (g h)))) (sorted_list_of_set (dom g)))"
    by (simp add: bt_ok_def comp_def)
qed

locale listable_key =
  fixes I :: "'k key_impl" and mk :: "u64 \<Rightarrow> 'k" and p :: u8
  assumes key_bytes: "key_serialize (ki_to_key I (mk h)) = p # be_bytes 8 h"
    and of_kind: "kind key = p \<Longrightarrow> \<exists>h. key = ki_to_key I (mk h)"
    and from_to: "ki_from_key I (ki_to_key I k) = Some k"
    and min_value: "ki_min_value I = mk 0"
    and max_value: "ki_max_value I = mk (- 1)"
begin

abbreviation query :: "u64 bound \<times> u64 bound \<Rightarrow> block_list_order \<Rightarrow> list_query" where
  "query rng \<equiv> key_list I (map_prod (map_bound mk) (map_bound mk) rng)"

lemma lower_bound_iff:
  "lower_bound (query rng order) \<le> p # be_bytes 8 h
   \<longleftrightarrow> (case fst rng of Included x \<Rightarrow> x \<le> h | Excluded x \<Rightarrow> x < h | Unbounded \<Rightarrow> True)"
  by (cases "fst rng")
    (simp_all add: lower_bound_def key_list_def bound_key_def serialize_immediate_successor_def
      key_bytes min_value zero_ext_le)

lemma upper_bound_iff:
  "p # be_bytes 8 h < upper_bound (query rng order)
   \<longleftrightarrow> (case snd rng of Included x \<Rightarrow> h \<le> x | Excluded x \<Rightarrow> h < x | Unbounded \<Rightarrow> True)"
  by (cases "snd rng")
    (simp_all add: upper_bound_def key_list_def bound_key_def serialize_immediate_successor_def
      key_bytes max_value less_append_zero)

lemma bounds_iff:
  "in_bounds (lower_bound (query rng order)) (upper_bound (query rng order)) (p # be_bytes 8 h)
     \<longleftrightarrow> in_range rng h"
  by (simp add: in_bounds_def in_range_def lower_bound_iff upper_bound_iff)

lemma bounds_kind:
  assumes "in_bounds (lower_bound (query rng order)) (upper_bound (query rng order)) (c # bs)"
  shows "c = p"
proof -
  obtain h where "lower_bound (query rng order) = p # h"
    by (cases "fst rng") (auto simp: lower_bound_def key_list_def bound_key_def
        serialize_immediate_successor_def key_bytes min_value)
  moreover obtain h' where "upper_bound (query rng order) = p # h'"
    by (cases "snd rng") (auto simp: upper_bound_def key_list_def bound_key_def
        serialize_immediate_successor_def key_bytes max_value)
  ultimately show ?thesis using assms by (auto simp: in_bounds_def)
qed

lemma serialized_kind:
  assumes "key_serialize key \<noteq> []" "hd (key_serialize key) = p"
  shows "\<exists>h. key_serialize key = p # be_bytes 8 (h :: u64)"
proof -
  have "kind key = p" using assms(2) key_serialize_Cons[of key] by (metis list.sel(1))
  then show ?thesis using of_kind key_bytes by metis
qed

lemma scan_range:
  assumes "all_keys m"
  shows "filter (\<lambda>e. in_bounds (lower_bound (query rng order)) (upper_bound (query rng order)) (fst e)) m
    = map (\<lambda>(h, v). (p # be_bytes 8 h, v)) (filter (\<lambda>e. in_range rng (fst e)) (indexed p m))"
  using assms
proof (induction m)
  case (Cons e m)
  obtain key v where e: "e = (key_serialize key, v)" using Cons.prems by (cases e) (auto simp: all_keys_def)
  have IH: "all_keys m" using Cons.prems by (simp add: all_keys_def)
  show ?case
  proof (cases "hd (key_serialize key) = p")
    case True
    then obtain h where h: "key_serialize key = p # be_bytes 8 (h :: u64)"
      using serialized_kind key_serialize_Cons by (metis list.discI)
    then show ?thesis using Cons.IH[OF IH] by (simp add: e indexed_def bounds_iff)
  next
    case False
    obtain c bs where c: "key_serialize key = c # bs" using key_serialize_Cons[of key] by blast
    then have "c \<noteq> p" using False by simp
    then have "\<not> in_bounds (lower_bound (query rng order)) (upper_bound (query rng order)) (c # bs)"
      using bounds_kind by blast
    then show ?thesis using Cons.IH[OF IH] \<open>c \<noteq> p\<close> by (simp add: e c indexed_def)
  qed
qed (simp add: indexed_def)

lemma set_indexed:
  assumes "all_keys m"
  shows "(h, v) \<in> set (indexed p m) \<longleftrightarrow> (p # be_bytes 8 h, v) \<in> set m"
proof
  assume "(h, v) \<in> set (indexed p m)"
  then obtain k where k: "(k, v) \<in> set m" "k \<noteq> []" "hd k = p" "h = from_be (tl k)"
    by (auto simp: indexed_def)
  then obtain h' where "k = p # be_bytes 8 (h' :: u64)"
    using assms serialized_kind unfolding all_keys_def by (metis fst_conv)
  with k show "(p # be_bytes 8 h, v) \<in> set m" by simp
next
  assume "(p # be_bytes 8 h, v) \<in> set m"
  then show "(h, v) \<in> set (indexed p m)" by (force simp: indexed_def)
qed

lemma indexed_ok:
  assumes "all_keys m" "bt_ok m"
  shows "bt_ok (indexed p m)"
  using assms
proof (induction m)
  case (Cons e m)
  have IH: "bt_ok (indexed p m)" using Cons by (simp add: all_keys_def)
  obtain key v where e: "e = (key_serialize key, v)" using Cons.prems by (cases e) (auto simp: all_keys_def)
  show ?case
  proof (cases "hd (key_serialize key) = p")
    case True
    then obtain h where h: "key_serialize key = p # be_bytes 8 (h :: u64)"
      using serialized_kind key_serialize_Cons by (metis list.discI)
    have m: "all_keys m" using Cons.prems by (simp add: all_keys_def)
    have "h < h'" if "(h', v') \<in> set (indexed p m)" for h' v'
      using that Cons.prems(2) unfolding set_indexed[OF m] by (force simp: e h)
    moreover have "indexed p (e # m) = (h, v) # indexed p m" by (simp add: indexed_def e h)
    ultimately show ?thesis using IH by auto
  qed (use IH in \<open>simp add: indexed_def e\<close>)
qed (simp add: indexed_def)

lemma map_of_indexed:
  assumes "all_keys m" "bt_ok m"
  shows "map_of (indexed p m) h = map_of m (p # be_bytes 8 h)"
proof -
  have "map_of (indexed p m) h = Some v \<longleftrightarrow> map_of m (p # be_bytes 8 h) = Some v" for v
    using assms by (simp add: bt_ok_map_of indexed_ok set_indexed)
  then show ?thesis by (metis not_Some_eq)
qed

text \<open>
  The iterator over a range, and a page, of a database where the entries of this kind are those of a
  map \<open>g\<close> from heights to values.
\<close>

lemma deserialize_bytes: "key_deserialize (p # be_bytes 8 h) = Some (Inr (ki_to_key I (mk h)))"
  using key_roundtrip[of "ki_to_key I (mk h)"] by (simp add: key_bytes del: key_deserialize.simps)

lemma iterate:
  assumes kv: "kv_ok K contents" and keys: "all_keys (contents db)"
    and g: "\<And>h. map_of (contents db) (p # be_bytes 8 h) = map_option en (g h)"
    and dec: "\<And>x. dec (en x) = Inr x"
  shows "into_iterator K dec db (query rng order)
    = map (\<lambda>h. Some (Inr (ki_to_key I (mk h), the (g h))))
        (directed (is_indexed_order order) (filter (in_range rng) (sorted_list_of_set (dom g))))"
proof -
  let ?hs = "sorted_list_of_set (dom g)"
  have "indexed p (contents db) = map (\<lambda>h. (h, en (the (g h)))) ?hs"
    using keys kv_okD(1)[OF kv] g by (intro sorted_indexed_eq) (simp_all add: indexed_ok map_of_indexed)
  then have scan: "kv_scan K db (is_indexed_order order) (lower_bound (query rng order)) (upper_bound (query rng order))
      = map (\<lambda>h. Inr (p # be_bytes 8 h, en (the (g h)))) (directed (is_indexed_order order) (filter (in_range rng) ?hs))"
    by (simp add: kv_okD(5)[OF kv] scan_range[OF keys] filter_map comp_def map_directed)
  have "list_item dec (Inr (p # be_bytes 8 h, en x)) = Some (Inr (ki_to_key I (mk h), x))" for h x
    by (simp add: list_item_def of_rocksdb_def of_wire_def dec deserialize_bytes del: key_deserialize.simps)
  moreover have "lq_start_to_end (query rng order) = is_indexed_order order" by (simp add: key_list_def)
  ultimately show ?thesis by (simp add: into_iterator_def scan comp_def)
qed

lemma paginated:
  assumes kv: "kv_ok K contents" and keys: "all_keys (contents db)"
    and g: "\<And>h. map_of (contents db) (p # be_bytes 8 h) = map_option en (g h)"
    and dec: "\<And>x. dec (en x) = Inr x"
  shows "key_list_paginated I K dec db (map_option (choice_map_pos mk) cursor) order limit
    = Some (Inr (map (\<lambda>h. (ki_to_key I (mk h), the (g h)))
                   (page order cursor limit (sorted_list_of_set (dom g)))))"
proof -
  obtain s e where se: "cursor_bounds cursor = (s, e)" by (cases "cursor_bounds cursor")
  have bounds: "cursor_bounds (map_option (choice_map_pos mk) cursor) = (map_bound mk s, map_bound mk e)"
    using se by (auto simp: cursor_bounds_def to_bound_map split: option.splits cursor_choice.splits)
  define rng where "rng = (if is_indexed_order order then (s, e) else (e, s))"
  have rng: "(if is_indexed_order order then (map_bound mk s, map_bound mk e) else (map_bound mk e, map_bound mk s))
      = map_prod (map_bound mk) (map_bound mk) rng" by (simp add: rng_def)
  have "in_range rng h \<longleftrightarrow> beyond order cursor h" for h
    using se by (cases order; cases "(order, cursor, h)" rule: beyond.cases)
      (auto simp: rng_def in_range_def cursor_bounds_def)
  then have range: "in_range rng = beyond order cursor" by blast
  show ?thesis
  proof (cases cursor)
    case None
    then show ?thesis
      by (simp add: key_list_paginated_def bounds[unfolded None option.map(1)] rng iterate[OF kv keys g dec] range
          page_def filter_directed take_directed_map)
  next
    case (Some c)
    show ?thesis
    proof (cases c)
      case (ChoiceAfter a)
      show ?thesis
        by (simp add: key_list_paginated_def Some ChoiceAfter rng iterate[OF kv keys g dec] range[unfolded Some ChoiceAfter]
            bounds[unfolded Some ChoiceAfter option.map choice_map_pos.simps] page_def filter_directed
            take_directed_map)
    next
      case (ChoiceBefore b)
      show ?thesis
        by (simp add: key_list_paginated_def Some ChoiceBefore rng iterate[OF kv keys g dec] range[unfolded Some ChoiceBefore]
            bounds[unfolded Some ChoiceBefore option.map choice_map_pos.simps] page_def filter_directed
            take_directed_map directed_reverse rev_map)
    qed
  qed
qed

end

lemma kind_0: "kind key = 0 \<Longrightarrow> \<exists>h. key = Block (KeyBlock h)"
  by (cases key rule: key_exhaust) auto

lemma kind_6: "kind key = 6 \<Longrightarrow> \<exists>h. key = NonEmptyBlock (KeyNonEmptyBlock h)"
  by (cases key rule: key_exhaust) auto

interpretation blocks: listable_key key_block_impl KeyBlock 0
  by unfold_locales (auto simp: key_block_impl_def key_serialize_def dest: kind_0)

interpretation non_empty: listable_key key_non_empty_block_impl KeyNonEmptyBlock 6
  by unfold_locales (auto simp: key_non_empty_block_impl_def key_serialize_def dest: kind_6)

end
