(* ===== verification/Block_Store_Props.thy ===== *)
theory Block_Store_Props
  imports Block_Store_Inv
begin

text \<open>
  The properties of the block store: what reads return after a \<open>set\<close>, what the lists and their pages
  yield, and the migration of a store of version 0.
\<close>

section \<open>Reads\<close>

lemma store_reads:
  assumes "kv_ok K contents" "wire_ok B" "store_rep B ver hist (contents db)"
  shows "store_get K B db h = Some (Inr (block_at B hist h))"
    and "get_block_height_by_hash K db x = Some (Inr (map_option (blk_height B) (with_hash B hist x)))"
    and "get_txn_by_hash K B db x = Some (Inr (txn_with_hash B hist x))"
    and "get_pending_block K B db = Some (Inr None)"
proof -
  have kv: "kv_get K db (key_serialize k) = Inr (expected B ver hist k)" for k
    using assms(1,3) by (simp add: kv_okD(2) store_rep_def)
  show "store_get K B db h = Some (Inr (block_at B hist h))"
    by (simp add: store_get_def kv of_rocksdb_def of_wire_def wire_okD[OF assms(2)] split: option.split)
  show "get_block_height_by_hash K db x = Some (Inr (map_option (blk_height B) (with_hash B hist x)))"
    by (simp add: get_block_height_by_hash_def kv of_rocksdb_def read_int_def split: option.split)
  show "get_txn_by_hash K B db x = Some (Inr (txn_with_hash B hist x))"
    by (simp add: get_txn_by_hash_def kv of_rocksdb_def of_wire_def wire_okD[OF assms(2)] split: option.split)
  show "get_pending_block K B db = Some (Inr None)"
    by (simp add: get_pending_block_def kv of_rocksdb_def)
qed

text \<open>
  A concrete kind of block: eight bytes of height and then one byte for each transaction; the hash of
  a block is the number its bytes are, that of a transaction its byte.
\<close>

definition raw_impl :: "(bytes, u8, unit) block_impl" where
  "raw_impl = \<lparr>blk_height = \<lambda>b. from_be (take 8 b), blk_hash = from_be, blk_txns = drop 8, txn_hash = ucast,
     blk_to_bytes = Inr, blk_from_bytes = Inr, txn_to_bytes = \<lambda>t. Inr [t], txn_from_bytes = \<lambda>bs. Inr (hd bs)\<rparr>"

definition raw_block :: "u64 \<Rightarrow> u8 list \<Rightarrow> bytes" where
  "raw_block h txns = be_bytes 8 h @ txns"

lemma raw_impl_ok [simp]: "wire_ok raw_impl"
  by (simp add: wire_ok_def raw_impl_def)

lemma raw_block_simps [simp]:
  "blk_height raw_impl (raw_block h txns) = h" "blk_txns raw_impl (raw_block h txns) = txns"
  by (simp_all add: raw_impl_def raw_block_def)

definition version_1 :: kv_contents where
  "version_1 = [(key_serialize StoreVersion, be_bytes 4 (1 :: u32))]"

lemma version_1_rep [simp]: "store_rep B (Some (be_bytes 4 (1 :: u32))) [] version_1"
proof -
  have "map_of version_1 (key_serialize k) = expected B (Some (be_bytes 4 (1 :: u32))) [] k" for k
    by (cases k rule: key_exhaust)
      (simp_all add: version_1_def max_height_of_def block_at_def with_hash_def txn_with_hash_def non_empty_at_def)
  then show ?thesis by (simp add: store_rep_def all_keys_def version_1_def)
qed

lemma version_1_ok [simp]: "store_contents version_1 = version_1"
  by (simp add: version_1_def)

text \<open>
  C24: refinement. The store behaves as the history of the blocks it was given: after \<open>set\<close>, a read by
  height yields the latest block of that height, a read by hash the height of the latest block with
  that hash, a read of a transaction the latest one with its hash, and the maximum height is the
  greatest height of all. No read or write fails or panics.
\<close>

theorem store_set_refines:
  assumes "kv_ok K contents" "wire_ok B" "store_rep B ver hist (contents db)"
  shows "\<exists>db'. store_set K B db block = Some (Inr db') \<and> store_rep B ver (block # hist) (contents db')
    \<and> get_max_height K db' = Some (Inr (max_height_of B (block # hist)))
    \<and> (\<forall>h. store_get K B db' h = Some (Inr (if h = blk_height B block then Some block else block_at B hist h)))
    \<and> (\<forall>x. get_block_height_by_hash K db' x
         = Some (Inr (map_option (blk_height B) (with_hash B (block # hist) x))))
    \<and> (\<forall>x. get_txn_by_hash K B db' x = Some (Inr (txn_with_hash B (block # hist) x)))"
proof -
  obtain db' where db': "store_set K B db block = Some (Inr db')" "store_rep B ver (block # hist) (contents db')"
    using store_set_rep[OF assms] by blast
  note reads = store_reads[OF assms(1,2) db'(2)] get_max_height_rep[OF assms(1) db'(2)]
  show ?thesis
    using db' reads by (intro exI[of _ db']) (simp add: block_at_def)
qed

theorem store_set_refines_witness:
  "\<exists>db'. store_set memory_kv raw_impl version_1 (raw_block 5 [1, 2]) = Some (Inr db')
     \<and> get_max_height memory_kv db' = Some (Inr (Some 5))
     \<and> store_get memory_kv raw_impl db' 5 = Some (Inr (Some (raw_block 5 [1, 2])))"
proof -
  have "store_rep raw_impl (Some (be_bytes 4 (1 :: u32))) [] (store_contents version_1)" by simp
  from store_set_refines[OF memory_kv_ok raw_impl_ok this, of "raw_block 5 [1, 2]"]
  show ?thesis by (auto simp: max_height_of_def)
qed

section \<open>Lists and pages\<close>

lemma block_at_dom: "dom (block_at B hist) = blk_height B ` set hist"
  by (auto simp: block_at_def dom_def find_None_iff image_iff split: option.splits)

lemma non_empty_dom: "dom (non_empty_at B hist) = blk_height B ` {b \<in> set hist. blk_txns B b \<noteq> []}"
  by (auto simp: non_empty_at_def dom_def find_None_iff image_iff split: option.splits)

lemma rep_bytes:
  assumes "store_rep B ver hist m"
  shows "map_of m (0 # be_bytes 8 h) = map_option (enc B) (block_at B hist h)"
    and "map_of m (6 # be_bytes 8 h) = map_option (enc B) (non_empty_at B hist h)"
proof -
  have "map_of m (key_serialize (Block (KeyBlock h))) = map_option (enc B) (block_at B hist h)"
    "map_of m (key_serialize (NonEmptyBlock (KeyNonEmptyBlock h))) = map_option (enc B) (non_empty_at B hist h)"
    using assms unfolding store_rep_def by simp_all
  then show "map_of m (0 # be_bytes 8 h) = map_option (enc B) (block_at B hist h)"
    "map_of m (6 # be_bytes 8 h) = map_option (enc B) (non_empty_at B hist h)"
    by (simp_all add: key_serialize_def)
qed

text \<open>The heights of the stored blocks, and of those stored with transactions, in ascending order.\<close>

definition heights :: "('b, 't, 'e) block_impl \<Rightarrow> 'b list \<Rightarrow> u64 list" where
  "heights B hist = sorted_list_of_set (blk_height B ` set hist)"

definition non_empty_heights :: "('b, 't, 'e) block_impl \<Rightarrow> 'b list \<Rightarrow> u64 list" where
  "non_empty_heights B hist = sorted_list_of_set (blk_height B ` {b \<in> set hist. blk_txns B b \<noteq> []})"

lemma key_impl_simps [simp]:
  "ki_to_key key_block_impl = Block" "ki_to_key key_non_empty_block_impl = NonEmptyBlock"
  by (simp_all add: key_block_impl_def key_non_empty_block_impl_def)

lemma store_lists:
  assumes "kv_ok K contents" "wire_ok B" "store_rep B ver hist (contents db)"
  shows "store_list K B db rng order
      = map (\<lambda>h. Some (Inr (KeyBlock h, the (block_at B hist h))))
          (directed (is_indexed_order order) (filter (in_range rng) (heights B hist)))" (is ?l)
    and "store_list_non_empty K B db rng order
      = map (\<lambda>h. Some (Inr (KeyNonEmptyBlock h, the (non_empty_at B hist h))))
          (directed (is_indexed_order order) (filter (in_range rng) (non_empty_heights B hist)))" (is ?n)
    and "store_list_paginated K B db cursor order limit
      = Some (Inr (map (\<lambda>h. Some (Inr (KeyBlock h, the (block_at B hist h))))
                     (page order cursor limit (heights B hist))))" (is ?lp)
    and "store_list_non_empty_paginated K B db cursor order limit
      = Some (Inr (map (\<lambda>h. Some (Inr (KeyNonEmptyBlock h, the (non_empty_at B hist h))))
                     (page order cursor limit (non_empty_heights B hist))))" (is ?np)
proof -
  have keys: "all_keys (contents db)" using assms(3) by (simp add: store_rep_def)
  note r = rep_bytes[OF assms(3)] and d = wire_okD(2)[OF assms(2)]
  show ?l by (simp add: store_list_def blocks.iterate[OF assms(1) keys r(1) d] block_at_dom heights_def
        as_block_def comp_def)
  show ?n by (simp add: store_list_non_empty_def non_empty.iterate[OF assms(1) keys r(2) d] non_empty_dom
        non_empty_heights_def as_non_empty_def comp_def)
  show ?lp by (simp add: store_list_paginated_def blocks.paginated[OF assms(1) keys r(1) d] block_at_dom
        heights_def as_block_def comp_def)
  show ?np by (simp add: store_list_non_empty_paginated_def non_empty.paginated[OF assms(1) keys r(2) d]
        non_empty_dom non_empty_heights_def as_non_empty_def comp_def)
qed

text \<open>Pages, on the sorted list of the heights.\<close>

lemma follows_trans: "follows order a b \<Longrightarrow> follows order b c \<Longrightarrow> follows order a c"
  by (cases order) auto

lemma follows_antisym: "follows order a b \<Longrightarrow> \<not> follows order b a"
  by (cases order) auto

lemma sorted_directed:
  "sorted_wrt (<) hs \<Longrightarrow> sorted_wrt (follows order) (directed (is_indexed_order order) hs)"
  by (cases order) (auto simp: directed_def sorted_wrt_rev elim: sorted_wrt_mono_rel[rotated])

lemma filter_after_last:
  assumes "sorted_wrt (follows order) xs" "take l xs \<noteq> []"
  shows "filter (follows order (last (take l xs))) xs = drop l xs"
proof -
  obtain us u where u: "take l xs = us @ [u]" using assms(2) by (cases "take l xs" rule: rev_cases) auto
  have s: "sorted_wrt (follows order) ((us @ [u]) @ drop l xs)"
    using assms(1) by (simp only: u[symmetric] append_take_drop_id)
  then have "\<forall>y \<in> set us. follows order y u" "\<forall>y \<in> set (drop l xs). follows order u y"
    by (auto simp: sorted_wrt_append)
  then have "filter (follows order u) us = []" "filter (follows order u) (drop l xs) = drop l xs"
    using follows_antisym by (auto simp: filter_empty_conv filter_id_conv)
  moreover have "\<not> follows order u u" using follows_antisym by blast
  ultimately have "filter (follows order u) ((us @ [u]) @ drop l xs) = drop l xs" by simp
  then show ?thesis by (simp only: u[symmetric] append_take_drop_id) (simp add: u)
qed

lemma filter_before_hd:
  assumes "sorted_wrt (follows order) (xs @ ys)" "ys \<noteq> []"
  shows "filter (\<lambda>h. follows order h (hd ys)) (xs @ ys) = xs"
proof -
  obtain y zs where ys: "ys = y # zs" using assms(2) by (cases ys) auto
  have "\<not> follows order z y" if "z \<in> set ys" for z
    using assms(1) that follows_antisym by (auto simp: sorted_wrt_append ys)
  then show ?thesis
    using assms(1) by (simp add: ys sorted_wrt_append filter_empty_conv filter_id_conv)
qed

lemma beyond_eta [simp]:
  "beyond order (Some (ChoiceAfter (After p))) = follows order p"
  "beyond order (Some (ChoiceBefore (Before p))) = (\<lambda>h. follows order h p)"
  by (simp_all add: fun_eq_iff)

lemma beyond_mono:
  assumes "beyond order (Some (ChoiceAfter c)) a" "follows order a b"
  shows "beyond order (Some (ChoiceAfter c)) b"
  using assms by (cases c; cases order) auto

definition forward :: "u64 cursor_choice option \<Rightarrow> bool" where
  "forward cursor \<longleftrightarrow> (case cursor of Some (ChoiceBefore _) \<Rightarrow> False | _ \<Rightarrow> True)"

lemma pages_consecutive:
  fixes limit' :: nat
  assumes hs: "sorted_wrt (<) hs" and f: "forward cursor" and xs: "page order cursor limit hs \<noteq> []"
  defines "xs \<equiv> page order cursor limit hs"
  defines "ys \<equiv> page order (Some (ChoiceAfter (After (last xs)))) limit' hs"
  shows "page order cursor (limit + limit') hs = xs @ ys"
    and "ys \<noteq> [] \<Longrightarrow> page order (Some (ChoiceBefore (Before (hd ys)))) (length xs) hs = xs"
proof -
  define D where "D = directed (is_indexed_order order) hs"
  define B where "B = filter (beyond order cursor) D"
  have D: "sorted_wrt (follows order) D" unfolding D_def using hs by (rule sorted_directed)
  then have B: "sorted_wrt (follows order) B" unfolding B_def by (rule sorted_wrt_filter)
  have pg: "page order cursor l hs = take l B" for l
    using f by (auto simp: page_def forward_def B_def D_def split: option.splits cursor_choice.splits)
  have x: "xs = take limit B" "xs \<noteq> []" using pg xs by (simp_all add: xs_def)
  have u: "beyond order cursor (last xs)"
    using x last_in_set[of xs] in_set_takeD[of "last xs" limit B] by (simp add: B_def)
  have mono: "beyond order cursor b" if "beyond order cursor a" "follows order a b" for a b
  proof (cases cursor)
    case (Some c)
    with f that show ?thesis by (cases c) (auto simp: forward_def intro: beyond_mono)
  qed simp
  with u have "beyond order cursor h" if "follows order (last xs) h" for h using that by blast
  then have "filter (follows order (last xs)) D = filter (follows order (last xs)) B"
    by (auto simp: B_def intro: filter_cong)
  also have "\<dots> = drop limit B"
    using filter_after_last[OF B, of limit] x by simp
  finally have y: "ys = take limit' (drop limit B)"
    by (simp add: ys_def page_def D_def)
  show "page order cursor (limit + limit') hs = xs @ ys"
    by (simp add: pg x(1) y take_add)
  assume ne: "ys \<noteq> []"
  obtain zs where B_eq: "B = xs @ ys @ zs"
    using x(1) y by (metis append_take_drop_id)
  have "sorted_wrt (\<lambda>a b. beyond order cursor a \<longrightarrow> beyond order cursor b) D"
    by (rule sorted_wrt_mono_rel[OF _ D]) (use mono in blast)
  note split = takeWhile_eq_filter_mono[OF this] dropWhile_eq_filter_mono[OF this]
  define N where "N = filter (\<lambda>h. \<not> beyond order cursor h) D"
  have D_eq: "D = (N @ xs) @ (ys @ zs)"
    using takeWhile_dropWhile_id[of "\<lambda>h. \<not> beyond order cursor h" D] by (simp add: split N_def B_eq flip: B_def)
  have "filter (\<lambda>h. follows order h (hd ys)) D = N @ xs"
    using filter_before_hd[of order "N @ xs" "ys @ zs"] D ne unfolding D_eq by simp
  then show "page order (Some (ChoiceBefore (Before (hd ys)))) (length xs) hs = xs"
    by (simp add: page_def flip: D_def)
qed

lemma heights_sorted: "sorted_wrt (<) (heights B hist)" "sorted_wrt (<) (non_empty_heights B hist)"
  by (simp_all add: heights_def non_empty_heights_def)

text \<open>The position the pages of blocks are found by: the height of a block that could be read.\<close>

definition item_position :: "('e store_error + key_block \<times> 'b) option \<Rightarrow> u64 option" where
  "item_position r = (case r of Some (Inr (KeyBlock h, _)) \<Rightarrow> Some h | _ \<Rightarrow> None)"

abbreviation block_items where
  "block_items B hist hs \<equiv> map (\<lambda>h. Some (Inr (KeyBlock h, the (block_at B hist h)))) hs"

lemma positions_items: "positions item_position (block_items B hist hs) = hs"
  by (induction hs) (simp_all add: item_position_def)

lemma two_blocks_rep:
  "\<exists>db. store_rep raw_impl (Some (be_bytes 4 (1 :: u32))) [raw_block 9 [], raw_block 5 [1]] (store_contents db)"
proof -
  have "store_rep raw_impl (Some (be_bytes 4 (1 :: u32))) [] (store_contents version_1)" by simp
  from store_set_rep[OF memory_kv_ok raw_impl_ok this, of "raw_block 5 [1]"]
  obtain db where "store_rep raw_impl (Some (be_bytes 4 (1 :: u32))) [raw_block 5 [1]] (store_contents db)" by blast
  from store_set_rep[OF memory_kv_ok raw_impl_ok this, of "raw_block 9 []"] show ?thesis by blast
qed

lemma two_blocks_heights:
  "heights raw_impl [raw_block 9 [], raw_block 5 [1]] = [5, 9]"
  "non_empty_heights raw_impl [raw_block 9 [], raw_block 5 [1]] = [5]"
proof -
  have "{b \<in> set [raw_block 9 [], raw_block 5 [1]]. blk_txns raw_impl b \<noteq> []} = {raw_block 5 [1]}" by auto
  then show "heights raw_impl [raw_block 9 [], raw_block 5 [1]] = [5, 9]"
    "non_empty_heights raw_impl [raw_block 9 [], raw_block 5 [1]] = [5]"
    by (simp_all add: heights_def non_empty_heights_def del: set_simps) simp
qed

text \<open>
  C31: listing a range of heights yields exactly the blocks of the range that are stored, each once, in the
  requested order: for every height at which a block was stored, the last block stored at it. The list
  of non-empty blocks yields, for every height at which a block with transactions was stored, the last
  such block.
\<close>

theorem store_list_spec:
  assumes "kv_ok K contents" "wire_ok B" "store_rep B ver hist (contents db)"
  shows "store_list K B db rng order
      = block_items B hist (directed (is_indexed_order order) (filter (in_range rng) (heights B hist)))
    \<and> store_list_non_empty K B db rng order
      = map (\<lambda>h. Some (Inr (KeyNonEmptyBlock h, the (find (\<lambda>b. blk_height B b = h \<and> blk_txns B b \<noteq> []) hist))))
          (directed (is_indexed_order order) (filter (in_range rng) (non_empty_heights B hist)))
    \<and> set (heights B hist) = blk_height B ` set hist \<and> sorted_wrt (<) (heights B hist)
    \<and> set (non_empty_heights B hist) = blk_height B ` {b \<in> set hist. blk_txns B b \<noteq> []}
    \<and> sorted_wrt (<) (non_empty_heights B hist)"
  using store_lists(1,2)[OF assms, of rng order] heights_sorted[of B hist]
  by (simp add: heights_def non_empty_heights_def non_empty_at_def)

theorem store_list_spec_witness:
  "\<exists>db. map (map_option (map_sum id fst)) (store_list memory_kv raw_impl db (Excluded 5, Unbounded) HighestToLowest)
        = [Some (Inr (KeyBlock 9))]
    \<and> store_list_non_empty memory_kv raw_impl db (Unbounded, Unbounded) HighestToLowest
        = [Some (Inr (KeyNonEmptyBlock 5, raw_block 5 [1]))]"
proof -
  obtain db where db: "store_rep raw_impl (Some (be_bytes 4 (1 :: u32))) [raw_block 9 [], raw_block 5 [1]]
      (store_contents db)" using two_blocks_rep by blast
  from store_list_spec[OF memory_kv_ok raw_impl_ok db, of "(Excluded 5, Unbounded)" HighestToLowest]
    store_list_spec[OF memory_kv_ok raw_impl_ok db, of "(Unbounded, Unbounded)" HighestToLowest]
  show ?thesis by (intro exI[of _ db]) (simp add: two_blocks_heights in_range_def directed_def)
qed

text \<open>
  C32: pagination neither skips nor repeats a block. The page after the \<open>after\<close> cursor that the
  paginator gives for a page continues it: both together are the page of both lengths. And the page
  before the \<open>before\<close> cursor of that next page is the first page again, in the same order.
\<close>

theorem pages_are_consecutive:
  assumes "kv_ok K contents" "wire_ok B" "store_rep B ver hist (contents db)" "forward cursor"
  shows "\<exists>xs ys. store_list_paginated K B db cursor order limit = Some (Inr (block_items B hist xs))
    \<and> (xs \<noteq> [] \<longrightarrow>
         cur_after (fst (paginator_collect item_position (paginator_new (block_items B hist xs))))
           = Some (After (last xs))
         \<and> store_list_paginated K B db (Some (ChoiceAfter (After (last xs)))) order limit'
           = Some (Inr (block_items B hist ys))
         \<and> store_list_paginated K B db cursor order (limit + limit') = Some (Inr (block_items B hist (xs @ ys)))
         \<and> (ys \<noteq> [] \<longrightarrow>
              cur_before (fst (paginator_collect item_position (paginator_new (block_items B hist ys))))
                = Some (Before (hd ys))
              \<and> store_list_paginated K B db (Some (ChoiceBefore (Before (hd ys)))) order (length xs)
                = Some (Inr (block_items B hist xs))))"
proof -
  let ?hs = "heights B hist"
  let ?xs = "page order cursor limit ?hs"
  let ?ys = "page order (Some (ChoiceAfter (After (last ?xs)))) limit' ?hs"
  note pg = store_lists(3)[OF assms(1-3)]
  note c = pages_consecutive[OF heights_sorted(1) assms(4), of order limit B hist limit']
  show ?thesis
    by (intro exI[of _ ?xs] exI[of _ ?ys] conjI impI)
      (simp_all add: pg c paginator_collect_eq positions_items)
qed

theorem pages_are_consecutive_witness:
  "\<exists>db. store_list_paginated memory_kv raw_impl db None HighestToLowest 1
          = Some (Inr [Some (Inr (KeyBlock 9, raw_block 9 []))])
      \<and> store_list_paginated memory_kv raw_impl db (Some (ChoiceAfter (After 9))) HighestToLowest 1
          = Some (Inr [Some (Inr (KeyBlock 5, raw_block 5 [1]))])"
proof -
  obtain db where db: "store_rep raw_impl (Some (be_bytes 4 (1 :: u32))) [raw_block 9 [], raw_block 5 [1]]
      (store_contents db)" using two_blocks_rep by blast
  have "forward None" by (simp add: forward_def)
  from pages_are_consecutive[OF memory_kv_ok raw_impl_ok db this, of HighestToLowest 1 1]
    store_lists(3)[OF memory_kv_ok raw_impl_ok db, of None HighestToLowest 1]
    store_lists(3)[OF memory_kv_ok raw_impl_ok db, of "Some (ChoiceAfter (After 9))" HighestToLowest 1]
  show ?thesis
    by (intro exI[of _ db]) (simp add: two_blocks_heights page_def directed_def block_at_def)
qed

section \<open>Migration\<close>

text \<open>
  The contents of a store during its migration: the transactions and the non-empty blocks are indexed
  for the blocks \<open>done\<close> only.
\<close>

definition mig_rep :: "('b, 't, 'e) block_impl \<Rightarrow> bytes option \<Rightarrow> 'b list \<Rightarrow> 'b list \<Rightarrow> kv_contents \<Rightarrow> bool" where
  "mig_rep B ver hist mig m \<longleftrightarrow>
     (\<forall>k. map_of m (key_serialize k) = expected B ver (if kind k = 4 \<or> kind k = 6 then mig else hist) k)
     \<and> all_keys m"

lemma mig_step:
  fixes b :: 'b
  assumes "mig_rep B ver hist mig m"
  defines "es \<equiv> map (\<lambda>t. (TxnByHash (txn_hash B t), tenc B t)) (blk_txns B b)
    @ (if blk_txns B b = [] then [] else [(NonEmptyBlock (KeyNonEmptyBlock (blk_height B b)), enc B b)])"
  shows "mig_rep B ver hist (b # mig) (apply_ops (put_all es) m)"
proof -
  have "map_of (apply_ops (put_all es) m) (key_serialize k)
      = expected B ver (if kind k = 4 \<or> kind k = 6 then b # mig else hist) k" for k
  proof -
    have old: "map_of m (key_serialize k) = expected B ver (if kind k = 4 \<or> kind k = 6 then mig else hist) k"
      using assms(1) by (simp add: mig_rep_def)
    show ?thesis
      unfolding put_all_lookup old
      by (cases k rule: key_exhaust)
        (auto simp: es_def map_add_def map_of_txns_other map_of_txns non_empty_at_def txn_with_hash_def
          find_append split: option.split)
  qed
  then show ?thesis using assms(1) by (simp add: mig_rep_def all_keys_put_all)
qed

lemma migrate_blocks_ok:
  assumes "kv_ok K contents" "wire_ok B" "mig_rep B ver hist mig (contents db)"
  shows "\<exists>db'. migrate_blocks K B db (map (\<lambda>b. Some (Inr (f b, b))) bs) = Some (Inr db')
           \<and> mig_rep B ver hist (rev bs @ mig) (contents db')"
  using assms(3)
proof (induction bs arbitrary: db mig)
  case (Cons b bs)
  let ?es = "map (\<lambda>t. (TxnByHash (txn_hash B t), tenc B t)) (blk_txns B b)
    @ (if blk_txns B b = [] then [] else [(NonEmptyBlock (KeyNonEmptyBlock (blk_height B b)), enc B b)])"
  obtain db1 where db1: "kv_write K db (put_all ?es) = Inr db1"
    "contents db1 = apply_ops (put_all ?es) (contents db)"
    using kv_okD(4)[OF assms(1)] by blast
  have "mig_rep B ver hist (b # mig) (contents db1)"
    unfolding db1(2) by (rule mig_step[OF Cons.prems])
  from Cons.IH[OF this] show ?case
    using db1(1) by (auto simp: txn_entries_ok[OF assms(2)] non_empty_from_block_def of_wire_def
        of_rocksdb_def wire_okD[OF assms(2)] split: if_splits simp del: txn_entries.simps)
qed simp

lemma descending_heights:
  assumes "sorted_wrt (>) (map (blk_height B) hist)"
  shows "heights B hist = rev (map (blk_height B) hist)"
    and "b \<in> set hist \<Longrightarrow> block_at B hist (blk_height B b) = Some b"
proof -
  have "sorted_wrt (<) (rev (map (blk_height B) hist))" using assms by (simp add: sorted_wrt_rev)
  then show "heights B hist = rev (map (blk_height B) hist)"
    unfolding heights_def by (metis list.set_map set_rev strict_sorted_equal
        strict_sorted_list_of_set sorted_list_of_set.set_sorted_key_list_of_set List.finite_set)
  show "b \<in> set hist \<Longrightarrow> block_at B hist (blk_height B b) = Some b"
    using assms by (induction hist) (auto simp: block_at_def)
qed

lemma store_list_all:
  assumes "kv_ok K contents" "wire_ok B" "mig_rep B ver hist mig (contents db)"
    and "sorted_wrt (>) (map (blk_height B) hist)"
  shows "store_list K B db (Unbounded, Unbounded) LowestToHighest
           = map (\<lambda>b. Some (Inr (KeyBlock (blk_height B b), b))) (rev hist)"
proof -
  have keys: "all_keys (contents db)" using assms(3) by (simp add: mig_rep_def)
  have "map_of (contents db) (key_serialize (Block (KeyBlock h))) = map_option (enc B) (block_at B hist h)" for h
    using assms(3) unfolding mig_rep_def by simp
  then have r: "map_of (contents db) (0 # be_bytes 8 h) = map_option (enc B) (block_at B hist h)" for h
    by (simp add: key_serialize_def)
  have "store_list K B db (Unbounded, Unbounded) LowestToHighest
      = map (\<lambda>h. Some (Inr (KeyBlock h, the (block_at B hist h)))) (heights B hist)"
    using blocks.iterate[OF assms(1) keys r wire_okD(2)[OF assms(2)], of "(Unbounded, Unbounded)" LowestToHighest]
    by (simp add: store_list_def block_at_dom heights_def as_block_def comp_def directed_def in_range_def)
  then show ?thesis
    by (simp add: descending_heights[OF assms(4)] comp_def rev_map cong: map_cong)
qed

text \<open>
  The bytes of keys read back as the key, and the keys of blocks sort as their heights; the
  immediate successor of a key is the least byte string above it.
\<close>

theorem key_bytes_spec:
  "key_deserialize (key_serialize k) = Some (Inr k)
   \<and> (key_serialize (Block (KeyBlock a)) < key_serialize (Block (KeyBlock b)) \<longleftrightarrow> a < b)
   \<and> (key_serialize (NonEmptyBlock (KeyNonEmptyBlock a)) < key_serialize (NonEmptyBlock (KeyNonEmptyBlock b))
        \<longleftrightarrow> a < b)
   \<and> (bs < serialize_immediate_successor k \<longleftrightarrow> bs \<le> key_serialize k)"
  by (simp add: serialize_immediate_successor_def less_append_zero del: key_deserialize.simps)
    (simp add: key_serialize_def)

text \<open>
  C33: migration. A store of version 0, whose blocks were stored in the order of their heights before
  there were indexes of transactions and non-empty blocks, has after \<open>migrate\<close> all entries it would
  have if the blocks had been stored by the current code, and version 1. The loop needs two rounds,
  and leaves a store of version 1 as it is.
\<close>

theorem migrate_ok:
  assumes "kv_ok K contents" "wire_ok B" "mig_rep B None hist [] (contents db)"
    and "sorted_wrt (>) (map (blk_height B) hist)"
  shows "\<exists>db'. migrate 2 K B db = Some (Some (Inr db'))
           \<and> store_rep B (Some (be_bytes 4 LATEST_VERSION)) hist (contents db')
           \<and> migrate 1 K B db' = Some (Some (Inr db'))"
proof -
  note kv = kv_okD(2)[OF assms(1)]
  have v0: "store_version K db = Some (Inr 0)"
    using assms(3) by (simp add: store_version_def kv of_rocksdb_def mig_rep_def)
  obtain db1 where db1: "migrate_blocks K B db (store_list K B db (Unbounded, Unbounded) LowestToHighest)
      = Some (Inr db1)" "mig_rep B None hist hist (contents db1)"
    using migrate_blocks_ok[OF assms(1-3), of "\<lambda>b. KeyBlock (blk_height B b)" "rev hist"]
    by (auto simp: store_list_all[OF assms])
  obtain db' where db': "kv_put K db1 (key_serialize StoreVersion) (be_bytes 4 (1 :: u32)) = Inr db'"
    "contents db' = apply_ops (put_all [(StoreVersion, be_bytes 4 (1 :: u32))]) (contents db1)"
    using kv_okD(3)[OF assms(1), of db1 "key_serialize StoreVersion" "be_bytes 4 (1 :: u32)"] by auto
  have "map_of (contents db') (key_serialize k) = expected B (Some (be_bytes 4 LATEST_VERSION)) hist k" for k
  proof -
    have "map_of (contents db1) (key_serialize k) = expected B None hist k"
      using db1(2) by (simp add: mig_rep_def)
    then show ?thesis
      unfolding db'(2) put_all_lookup by (cases k rule: key_exhaust) (simp_all add: LATEST_VERSION_def)
  qed
  moreover have "all_keys (contents db')"
    unfolding db'(2) by (rule all_keys_put_all) (use db1(2) in \<open>simp add: mig_rep_def\<close>)
  ultimately have rep: "store_rep B (Some (be_bytes 4 LATEST_VERSION)) hist (contents db')"
    by (simp add: store_rep_def)
  then have v1: "store_version K db' = Some (Inr 1)"
    by (simp add: store_version_def kv of_rocksdb_def store_rep_def read_int_def LATEST_VERSION_def from_be_bytes_gen)
  have "migrate_to_v1 K B db = Some (Inr db')"
    using db1(1) db'(1) by (simp add: migrate_to_v1_def set_store_version_def of_rocksdb_def)
  then show ?thesis
    using rep v0 v1 by (intro exI[of _ db']) (simp add: numeral_2_eq_2)
qed

definition old_entries :: "(key \<times> bytes) list" where
  "old_entries = [(Block (KeyBlock 5), raw_block 5 [1]), (MaxHeight, be_bytes 8 (5 :: u64)),
                  (BlockHashToHeight (blk_hash raw_impl (raw_block 5 [1])), be_bytes 8 (5 :: u64))]"

lemma old_store_rep:
  "mig_rep raw_impl None [raw_block 5 [1]] [] (store_contents (apply_ops (put_all old_entries) []))"
proof -
  have "map_of (apply_ops (put_all old_entries) []) (key_serialize k)
      = expected raw_impl None (if kind k = 4 \<or> kind k = 6 then [] else [raw_block 5 [1]]) k" for k
    unfolding put_all_lookup
    by (cases k rule: key_exhaust)
      (auto simp: old_entries_def block_at_def with_hash_def txn_with_hash_def non_empty_at_def
        max_height_of_def enc_def raw_impl_def raw_block_def split: option.split)
  moreover have "all_keys (apply_ops (put_all old_entries) [])"
    by (rule all_keys_put_all) (simp add: all_keys_def)
  ultimately show ?thesis by (simp add: mig_rep_def apply_ops_ok)
qed

theorem migrate_ok_witness:
  "\<exists>db'. migrate 2 memory_kv raw_impl (apply_ops (put_all old_entries) []) = Some (Some (Inr db'))
     \<and> get_txn_by_hash memory_kv raw_impl db' 1 = Some (Inr (Some 1))"
proof -
  have "sorted_wrt (>) (map (blk_height raw_impl) [raw_block 5 [1]])" by simp
  from migrate_ok[OF memory_kv_ok raw_impl_ok old_store_rep this] obtain db' where
    "migrate 2 memory_kv raw_impl (apply_ops (put_all old_entries) []) = Some (Some (Inr db'))"
    "store_rep raw_impl (Some (be_bytes 4 LATEST_VERSION)) [raw_block 5 [1]] (store_contents db')" by blast
  with store_reads(3)[OF memory_kv_ok raw_impl_ok this(2), of 1] show ?thesis
    by (simp add: txn_with_hash_def) (simp add: raw_impl_def)
qed

end
