(* ===== verification/Wire_Message.thy ===== *)
theory Wire_Message
  imports Payy_Prelude
begin

text \<open>
  \<open>pkg/wire-message/src/lib.rs\<close>: versioned messages. \<open>upgrade\<close> loops while the version is below the
  greatest one; an implementation gives \<open>version\<close> and \<open>upgrade_once\<close>. The outer option of \<open>upgrade\<close> is
  \<open>None\<close> when the loop does not end.
\<close>

datatype 'e wire_error = SerializeError | DeserializeError | UpgradeError 'e | MaxVersionError nat

partial_function (option) wire_upgrade ::
  "('a \<Rightarrow> nat) \<Rightarrow> ('a \<Rightarrow> 'e wire_error + 'a) \<Rightarrow> nat \<Rightarrow> 'a \<Rightarrow> ('e wire_error + 'a) option" where
  "wire_upgrade version upgrade_once max_version m =
     (if version m < max_version
      then (case upgrade_once m of Inl e \<Rightarrow> Some (Inl e) | Inr m \<Rightarrow> wire_upgrade version upgrade_once max_version m)
      else Some (Inr m))"

declare wire_upgrade.simps [code]

text \<open>What an implementation has to satisfy: one upgrade is one version further.\<close>

locale wire_message =
  fixes version :: "'a \<Rightarrow> nat" and upgrade_once :: "'a \<Rightarrow> 'e wire_error + 'a" and max_version :: nat
  assumes upgrade_once_next: "version m < max_version \<Longrightarrow> \<exists>m'. upgrade_once m = Inr m' \<and> version m' = Suc (version m)"
    and version_le: "version m \<le> max_version"
begin

lemma upgrade_ok: "\<exists>m'. wire_upgrade version upgrade_once max_version m = Some (Inr m') \<and> version m' = max_version"
proof (induction "max_version - version m" arbitrary: m)
  case 0
  then have "version m = max_version" using version_le[of m] by simp
  then show ?case by (intro exI[of _ m]) (simp add: wire_upgrade.simps)
next
  case (Suc k)
  then have lt: "version m < max_version" by simp
  then obtain m' where m': "upgrade_once m = Inr m'" "version m' = Suc (version m)"
    using upgrade_once_next by blast
  then have "k = max_version - version m'" using Suc.hyps(2) lt by simp
  from Suc.hyps(1)[OF this] show ?case using m' lt by (simp add: wire_upgrade.simps[of _ _ _ m])
qed

text \<open>Upgrading is idempotent: a message of the greatest version is left alone.\<close>

lemma upgrade_max: "version m = max_version \<Longrightarrow> wire_upgrade version upgrade_once max_version m = Some (Inr m)"
  by (simp add: wire_upgrade.simps)

end

end
