(* ===== verification/Smirk_Storage.thy ===== *)
theory Smirk_Storage
  imports Smirk_Correct Kv_Store Wire_Message
begin

text \<open>
  \<open>pkg/smirk/src/storage\<close>: the tree that is kept in a key-value database. An insertion changes the
  tree and then writes, in one batch, the new entries and the merges of hashes that came and went; a
  restart loads the entries into a new tree whose cache knows the stored merges. The wire formats of
  keys and values (derived with Borsh) are the record \<open>smirk_wire\<close>.
\<close>

section \<open>Formats (format.rs, error.rs)\<close>

datatype key_v2 = KeyElement element | KeyKnownHash element element

datatype key_format = KeyV1 element | KeyV2 key_v2

datatype 'v value_v2 = Metadata 'v | ValueKnownHash element

datatype 'v value_format = ValueV1 'v | ValueV2 "'v value_v2"

fun key_format_version :: "key_format \<Rightarrow> nat" where
  "key_format_version (KeyV1 _) = 1"
| "key_format_version (KeyV2 _) = 2"

text \<open>\<open>upgrade_once\<close> of the two formats.\<close>

fun key_format_upgrade :: "key_format \<Rightarrow> unit wire_error + key_format" where
  "key_format_upgrade (KeyV1 element) = Inr (KeyV2 (KeyElement element))"
| "key_format_upgrade (KeyV2 _) = Inl (MaxVersionError 2)"

fun value_format_version :: "'v value_format \<Rightarrow> nat" where
  "value_format_version (ValueV1 _) = 1"
| "value_format_version (ValueV2 _) = 2"

fun value_format_upgrade :: "'v value_format \<Rightarrow> unit wire_error + 'v value_format" where
  "value_format_upgrade (ValueV1 metadata) = Inr (ValueV2 (Metadata metadata))"
| "value_format_upgrade (ValueV2 _) = Inl (MaxVersionError 2)"

interpretation key_wire: wire_message key_format_version key_format_upgrade 2
proof
  show "\<exists>m'. key_format_upgrade m = Inr m' \<and> key_format_version m' = Suc (key_format_version m)"
    if "key_format_version m < 2" for m using that by (cases m) simp_all
  show "key_format_version m \<le> 2" for m by (cases m) simp_all
qed

interpretation value_wire: wire_message value_format_version value_format_upgrade 2
proof
  show "\<exists>m'. value_format_upgrade m = Inr m' \<and> value_format_version m' = Suc (value_format_version m)"
    if "value_format_version m < 2" for m using that by (cases m) simp_all
  show "value_format_version m \<le> 2" for m by (cases m) simp_all
qed

datatype 'e storage_error =
    Rocksdb 'e
  | CollisionError "collision list"
  | WireMessageError 'e
  | DatabaseConsistency

record ('v, 'e) smirk_wire =
  kf_to_bytes :: "key_format \<Rightarrow> 'e + bytes"
  kf_from_bytes :: "bytes \<Rightarrow> 'e + key_format"
  vf_to_bytes :: "'v value_format \<Rightarrow> 'e + bytes"
  vf_from_bytes :: "bytes \<Rightarrow> 'e + 'v value_format"

section \<open>The persistent tree (mod.rs, batch.rs)\<close>

record ('v, 'db) persistent =
  ps_tree :: "('v, simple_cache) smirk_tree"
  ps_db :: 'db

definition persistent_new :: "nat \<Rightarrow> 'e + 'db \<Rightarrow> 'e storage_error + ('v, 'db) persistent" where
  "persistent_new N opened =
     (case opened of
        Inl e \<Rightarrow> Inl (Rocksdb e)
      | Inr db \<Rightarrow> Inr \<lparr>ps_tree = new_with_cache N simple_cache_new, ps_db = db\<rparr>)"

text \<open>The map the two callbacks of the insertion fill, in the order they are called.\<close>

type_synonym hash_changes = "((element \<times> element) \<times> element option) list"

fun record_event :: "hash_event \<Rightarrow> hash_changes \<Rightarrow> hash_changes" where
  "record_event (HashRemove left right) m = AList.update (left, right) None m"
| "record_event (HashSet left right result) m = AList.update (left, right) (Some result) m"

definition hash_changes :: "hash_event list \<Rightarrow> hash_changes" where
  "hash_changes events = fold record_event events []"

text \<open>\<open>to_bytes().unwrap()\<close>.\<close>

definition unwrap :: "'e + 'a \<Rightarrow> 'a option" where
  "unwrap r = (case r of Inl _ \<Rightarrow> None | Inr x \<Rightarrow> Some x)"

fun entry_ops :: "('v, 'e) smirk_wire \<Rightarrow> (element \<times> 'v) list \<Rightarrow> write_op list option" where
  "entry_ops W [] = Some []"
| "entry_ops W ((key, value) # es) = do {
     k \<leftarrow> unwrap (kf_to_bytes W (KeyV2 (KeyElement key)));
     v \<leftarrow> unwrap (vf_to_bytes W (ValueV2 (Metadata value)));
     old \<leftarrow> unwrap (kf_to_bytes W (KeyV1 key));
     ops \<leftarrow> entry_ops W es;
     Some (Put k v # Delete old # ops) }"

fun remove_ops :: "('v, 'e) smirk_wire \<Rightarrow> hash_changes \<Rightarrow> write_op list option" where
  "remove_ops W [] = Some []"
| "remove_ops W (((left, right), _) # hs) = do {
     k \<leftarrow> unwrap (kf_to_bytes W (KeyV2 (KeyKnownHash left right)));
     ops \<leftarrow> remove_ops W hs;
     Some (Delete k # ops) }"

fun hash_ops :: "('v, 'e) smirk_wire \<Rightarrow> hash_changes \<Rightarrow> write_op list option" where
  "hash_ops W [] = Some []"
| "hash_ops W (((left, right), result) # hs) = do {
     k \<leftarrow> unwrap (kf_to_bytes W (KeyV2 (KeyKnownHash left right)));
     r \<leftarrow> result;
     v \<leftarrow> unwrap (vf_to_bytes W (ValueV2 (ValueKnownHash r)));
     ops \<leftarrow> hash_ops W hs;
     Some (Put k v # ops) }"

text \<open>
  \<open>Persistent::insert_batch\<close>: the persistent tree after the call and its result. When the database
  refuses the write, the tree in memory has changed all the same.
\<close>

definition persistent_insert_batch ::
  "('db, 'e) kv_ops \<Rightarrow> ('v, 'e) smirk_wire \<Rightarrow> (element \<Rightarrow> element \<Rightarrow> element) \<Rightarrow> nat
     \<Rightarrow> ('v, 'db) persistent \<Rightarrow> 'v batch
     \<Rightarrow> (('v, 'db) persistent \<times> ('e storage_error + unit)) option" where
  "persistent_insert_batch K W hm N p b =
     (if batch_is_empty b then Some (p, Inr ())
      else do {
        let new_kv_pairs = fold (\<lambda>(k, v). AList.update k v) (b_entries b) [];
        r \<leftarrow> insert_batch hm (simple_hash hm) N (ps_tree p) b;
        (case r of
           Inl e \<Rightarrow> Some (p, Inl (CollisionError e))
         | Inr (tree, events) \<Rightarrow> do {
             let changes = hash_changes events;
             entries \<leftarrow> entry_ops W new_kv_pairs;
             removed \<leftarrow> remove_ops W (filter (\<lambda>c. snd c = None) changes);
             inserted \<leftarrow> hash_ops W (filter (\<lambda>c. snd c \<noteq> None) changes);
             (case kv_write K (ps_db p) (entries @ removed @ inserted) of
                Inl e \<Rightarrow> Some (p\<lparr>ps_tree := tree\<rparr>, Inl (Rocksdb e))
              | Inr db \<Rightarrow> Some (\<lparr>ps_tree = tree, ps_db = db\<rparr>, Inr ())) }) })"

definition persistent_insert where
  "persistent_insert K W hm N p element value = do {
     b \<leftarrow> batch_single N element value;
     persistent_insert_batch K W hm N p b }"

section \<open>Loading (load.rs)\<close>

datatype 'v rocksdb_entry = SmirkKV element 'v | KnownHashEntry known_hash

definition read_entry ::
  "('v, 'e) smirk_wire \<Rightarrow> bytes \<times> bytes \<Rightarrow> 'e storage_error + 'v rocksdb_entry" where
  "read_entry W e =
     (case kf_from_bytes W (fst e) of Inl e \<Rightarrow> Inl (WireMessageError e) | Inr key_format \<Rightarrow>
      (case vf_from_bytes W (snd e) of Inl e \<Rightarrow> Inl (WireMessageError e) | Inr value_format \<Rightarrow>
       (case (key_format, value_format) of
          (KeyV1 key, ValueV1 metadata) \<Rightarrow> Inr (SmirkKV key metadata)
        | (KeyV1 key, ValueV2 (Metadata metadata)) \<Rightarrow> Inr (SmirkKV key metadata)
        | (KeyV2 (KeyElement key), ValueV1 metadata) \<Rightarrow> Inr (SmirkKV key metadata)
        | (KeyV2 (KeyElement key), ValueV2 (Metadata metadata)) \<Rightarrow> Inr (SmirkKV key metadata)
        | (KeyV2 (KeyKnownHash left right), ValueV2 (ValueKnownHash result)) \<Rightarrow>
            Inr (KnownHashEntry \<lparr>kh_left = left, kh_right = right, kh_result = result\<rparr>)
        | _ \<Rightarrow> Inl DatabaseConsistency)))"

text \<open>\<open>entries\<close>: items the iterator could not read are skipped (\<open>filter_map(Result::ok)\<close>).\<close>

definition storage_entries where
  "storage_entries K W db = map (\<lambda>r. read_entry W (projr r)) (filter (\<lambda>r. \<not> isl r) (kv_iterator K db))"

fun sort_entries ::
  "('e storage_error + 'v rocksdb_entry) list \<Rightarrow> 'e storage_error + known_hash list \<times> (element \<times> 'v) list"
where
  "sort_entries [] = Inr ([], [])"
| "sort_entries (r # rs) =
     (case r of
        Inl e \<Rightarrow> Inl e
      | Inr entry \<Rightarrow>
          (case sort_entries rs of
             Inl e \<Rightarrow> Inl e
           | Inr (known_hashes, smirk_kv) \<Rightarrow>
               (case entry of
                  KnownHashEntry hash \<Rightarrow> Inr (hash # known_hashes, smirk_kv)
                | SmirkKV key value \<Rightarrow> Inr (known_hashes, (key, value) # smirk_kv))))"

definition load_tree where
  "load_tree K W hm N db =
     (case sort_entries (storage_entries K W db) of
        Inl e \<Rightarrow> Some (Inl e)
      | Inr (known_hashes, smirk_kv) \<Rightarrow> do {
          cache \<leftarrow> provide_known_hashes simple_cache_new known_hashes;
          let smirk = new_with_cache N cache;
          r \<leftarrow> insert_entries N batch_new smirk_kv;
          (case r of
             Inl e \<Rightarrow> Some (Inl (CollisionError e))
           | Inr b \<Rightarrow> do {
               r \<leftarrow> insert_batch hm (simple_hash hm) N smirk b;
               (case r of
                  Inl e \<Rightarrow> Some (Inl (CollisionError e))
                | Inr (smirk, _) \<Rightarrow> Some (Inr smirk)) }) })"

definition persistent_load where
  "persistent_load K W hm N opened =
     (case opened of
        Inl e \<Rightarrow> Some (Inl (Rocksdb e))
      | Inr db \<Rightarrow> do {
          r \<leftarrow> load_tree K W hm N db;
          Some (map_sum id (\<lambda>tree. \<lparr>ps_tree = tree, ps_db = db\<rparr>) r) })"

section \<open>Storing the hashes of the tree (store.rs)\<close>

definition db_hash :: "('v, 'e) smirk_wire \<Rightarrow> 'e + bytes \<times> bytes \<Rightarrow> known_hash option" where
  "db_hash W r =
     (case r of Inl _ \<Rightarrow> None | Inr (key, value) \<Rightarrow>
      (case (kf_from_bytes W key, vf_from_bytes W value) of
         (Inr (KeyV2 (KeyKnownHash left right)), Inr (ValueV2 (ValueKnownHash result))) \<Rightarrow>
           Some \<lparr>kh_left = left, kh_right = right, kh_result = result\<rparr>
       | _ \<Rightarrow> None))"

fun known_ops :: "('v, 'e) smirk_wire \<Rightarrow> known_hash list \<Rightarrow> 'e storage_error + write_op list" where
  "known_ops W [] = Inr []"
| "known_ops W (h # hs) =
     (case kf_to_bytes W (KeyV2 (KeyKnownHash (kh_left h) (kh_right h))) of
        Inl e \<Rightarrow> Inl (WireMessageError e)
      | Inr k \<Rightarrow>
          (case vf_to_bytes W (ValueV2 (ValueKnownHash (kh_result h))) of
             Inl e \<Rightarrow> Inl (WireMessageError e)
           | Inr v \<Rightarrow> map_sum id (\<lambda>ops. Put k v # ops) (known_ops W hs)))"

definition synchronize_hashes where
  "synchronize_hashes K W hm db tree = do {
     in_memory_hashes \<leftarrow> tree_known_hashes hm tree;
     let in_db_hashes = List.map_filter (db_hash W) (kv_iterator K db);
     Some (case known_ops W (filter (\<lambda>h. h \<notin> set in_db_hashes) in_memory_hashes) of
             Inl e \<Rightarrow> Inl e
           | Inr ops \<Rightarrow> map_sum Rocksdb id (kv_write K db ops)) }"

definition persist_hashes where
  "persist_hashes K W hm p =
     map_option (map_sum id (\<lambda>db. p\<lparr>ps_db := db\<rparr>)) (synchronize_hashes K W hm (ps_db p) (ps_tree p))"

end
