(* ===== verification/Smirk_Storage_Props.thy ===== *)
theory Smirk_Storage_Props
  imports Smirk_Storage
begin

text \<open>
  The properties of the persistent tree: an insertion is durable, that is, a restart loads a tree with
  the entries and the root hash of the tree before it.
\<close>

section \<open>The hashes that are stored are hashes\<close>

context hash_cache begin

lemma recalculate_events:
  assumes "recalculate_hashes hm chash c t = Some (t', c', ev)" "cinv c"
  shows "cinv c' \<and> (\<forall>l r v. HashSet l r v \<in> set ev \<longrightarrow> v = hm l r)"
  using assms
proof (induction t arbitrary: t' c c' ev)
  case (Parent l r h d)
  show ?case
  proof (cases d)
    case True
    with Parent.prems(1) obtain l' c1 ev1 r' c2 ev2 hl hr bl br where
      l: "recalculate_hashes hm chash c l = Some (l', c1, ev1)"
      and r: "recalculate_hashes hm chash c1 r = Some (r', c2, ev2)"
      and ev: "c' = snd (chash c2 hl hr)"
        "ev = HashRemove bl br # ev1 @ ev2 @ [HashSet hl hr (fst (chash c2 hl hr))]"
      by (simp add: Option.bind_eq_Some_conv case_prod_beta Let_def) (metis prod.collapse)
    have 1: "cinv c1 \<and> (\<forall>l r v. HashSet l r v \<in> set ev1 \<longrightarrow> v = hm l r)"
      by (rule Parent.IH(1)[OF l Parent.prems(2)])
    have 2: "cinv c2 \<and> (\<forall>l r v. HashSet l r v \<in> set ev2 \<longrightarrow> v = hm l r)"
      by (rule Parent.IH(2)[OF r]) (use 1 in blast)
    then show ?thesis using 1 hash_matches hash_keeps by (auto simp: ev)
  qed (use Parent.prems in simp)
qed auto

end

lemma insert_without_hashing_cache:
  "insert_without_hashing hm N t es = Some (t', r) \<Longrightarrow> t_cache t' = t_cache t"
  unfolding insert_without_hashing_def Let_def
  apply (cases "es = []", simp)
  apply (cases "\<exists>e \<in> set es. fst e = NULL_HASH", simp)
  apply (cases "find (\<lambda>e. map_of (t_entries t) (fst e) \<noteq> None) es")
   apply (simp add: Option.bind_eq_Some_conv case_prod_beta)
   apply (elim exE conjE)
   apply (simp split: sum.splits bool.splits)
  apply (auto split: prod.splits)
  done

lemma not_Inl_unit: "(\<forall>x. y \<noteq> Inl x) \<Longrightarrow> y = Inr ()"
  by (cases y) simp_all

lemma insert_batch_events:
  assumes "insert_batch hm (simple_hash hm) N t b = Some (Inr (t', ev))" "simple_cache_ok hm (t_cache t)"
  shows "HashSet l r v \<in> set ev \<Longrightarrow> v = hm l r"
proof -
  obtain t1 r1 tr c where 1: "insert_without_hashing hm N t (b_entries b) = Some (t1, r1)"
    and 2: "recalculate_hashes hm (simple_hash hm) (t_cache t1) (t_tree t1) = Some (tr, c, ev)"
    using assms(1) by (auto simp: insert_batch_def Option.bind_eq_Some_conv split: sum.splits dest!: not_Inl_unit)
  show "HashSet l r v \<in> set ev \<Longrightarrow> v = hm l r"
    using simple.recalculate_events[OF 2] insert_without_hashing_cache[OF 1] assms(2) by simp
qed

lemma fold_changes:
  "map_of (fold record_event events m) (l, r) = Some (Some v)
   \<Longrightarrow> map_of m (l, r) = Some (Some v) \<or> HashSet l r v \<in> set events"
proof (induction events arbitrary: m)
  case (Cons e events)
  then show ?case by (cases e) (fastforce simp: update_conv' split: if_splits)+
qed simp

lemma fold_changes_ok: "hm_ok m \<Longrightarrow> hm_ok (fold record_event events m)"
proof (induction events arbitrary: m)
  case (Cons e events)
  then show ?case by (cases e) simp_all
qed simp

lemma hash_changes_set:
  "((l, r), Some v) \<in> set (hash_changes events) \<Longrightarrow> HashSet l r v \<in> set events"
  using fold_changes[of events "[]" l r v] fold_changes_ok[of "[]" events]
  by (simp add: hash_changes_def hm_ok_map_of)

section \<open>What the database holds\<close>

definition smirk_wire_ok :: "('v, 'e) smirk_wire \<Rightarrow> bool" where
  "smirk_wire_ok W \<longleftrightarrow> (\<forall>k. \<exists>bs. kf_to_bytes W k = Inr bs \<and> kf_from_bytes W bs = Inr k)
                     \<and> (\<forall>v. \<exists>bs. vf_to_bytes W v = Inr bs \<and> vf_from_bytes W bs = Inr v)"

definition kenc :: "('v, 'e) smirk_wire \<Rightarrow> key_format \<Rightarrow> bytes" where
  "kenc W k = projr (kf_to_bytes W k)"

definition venc :: "('v, 'e) smirk_wire \<Rightarrow> 'v value_format \<Rightarrow> bytes" where
  "venc W v = projr (vf_to_bytes W v)"

lemma smirk_wire_okD:
  assumes "smirk_wire_ok W"
  shows "kf_to_bytes W k = Inr (kenc W k)" "kf_from_bytes W (kenc W k) = Inr k"
    and "vf_to_bytes W v = Inr (venc W v)" "vf_from_bytes W (venc W v) = Inr v"
proof -
  obtain bs where "kf_to_bytes W k = Inr bs" "kf_from_bytes W bs = Inr k"
    using assms by (auto simp: smirk_wire_ok_def)
  then show "kf_to_bytes W k = Inr (kenc W k)" "kf_from_bytes W (kenc W k) = Inr k"
    by (simp_all add: kenc_def)
  obtain bs where "vf_to_bytes W v = Inr bs" "vf_from_bytes W bs = Inr v"
    using assms by (auto simp: smirk_wire_ok_def)
  then show "vf_to_bytes W v = Inr (venc W v)" "vf_from_bytes W (venc W v) = Inr v"
    by (simp_all add: venc_def)
qed

lemma kenc_inject:
  assumes "smirk_wire_ok W"
  shows "kenc W k = kenc W k' \<longleftrightarrow> k = k'"
  using smirk_wire_okD(2)[OF assms] by (metis sum.inject(2))

abbreviation elem_key where "elem_key W x \<equiv> kenc W (KeyV2 (KeyElement x))"
abbreviation old_key where "old_key W x \<equiv> kenc W (KeyV1 x)"
abbreviation hash_key where "hash_key W l r \<equiv> kenc W (KeyV2 (KeyKnownHash l r))"

text \<open>
  Each entry of the tree is stored once, under the current or the old key, in the current or the old
  format; nothing else is stored but merges of hashes.
\<close>

definition db_rep ::
  "('v, 'e) smirk_wire \<Rightarrow> (element \<Rightarrow> element \<Rightarrow> element) \<Rightarrow> (element \<times> 'v) list \<Rightarrow> kv_contents \<Rightarrow> bool" where
  "db_rep W hm es m \<longleftrightarrow>
     (\<forall>e \<in> set m. \<exists>k. fst e = kenc W k)
     \<and> (\<forall>l r v. map_of m (hash_key W l r) = Some v \<longrightarrow> v = venc W (ValueV2 (ValueKnownHash (hm l r))))
     \<and> (\<forall>x. map_of es x = None \<longrightarrow> map_of m (elem_key W x) = None \<and> map_of m (old_key W x) = None)
     \<and> (\<forall>x y. map_of es x = Some y \<longrightarrow>
          (\<exists>v \<in> {venc W (ValueV1 y), venc W (ValueV2 (Metadata y))}.
             map_of m (elem_key W x) = Some v \<and> map_of m (old_key W x) = None
             \<or> map_of m (elem_key W x) = None \<and> map_of m (old_key W x) = Some v))"

lemma db_repI:
  assumes "\<forall>e \<in> set m. \<exists>k. fst e = kenc W k"
    and "\<And>l r v. map_of m (hash_key W l r) = Some v \<Longrightarrow> v = venc W (ValueV2 (ValueKnownHash (hm l r)))"
    and "\<And>x. map_of es x = None \<Longrightarrow> map_of m (elem_key W x) = None \<and> map_of m (old_key W x) = None"
    and "\<And>x y. map_of es x = Some y \<Longrightarrow> \<exists>v \<in> {venc W (ValueV1 y), venc W (ValueV2 (Metadata y))}.
             map_of m (elem_key W x) = Some v \<and> map_of m (old_key W x) = None
             \<or> map_of m (elem_key W x) = None \<and> map_of m (old_key W x) = Some v"
  shows "db_rep W hm es m"
  unfolding db_rep_def
proof (intro conjI allI impI)
  fix l r v assume "map_of m (hash_key W l r) = Some v"
  then show "v = venc W (ValueV2 (ValueKnownHash (hm l r)))" by (rule assms(2))
next
  fix x assume "map_of es x = None"
  then show "map_of m (elem_key W x) = None" "map_of m (old_key W x) = None"
    using assms(3)[of x] by simp_all
next
  fix x y assume "map_of es x = Some y"
  then show "\<exists>v \<in> {venc W (ValueV1 y), venc W (ValueV2 (Metadata y))}.
             map_of m (elem_key W x) = Some v \<and> map_of m (old_key W x) = None
             \<or> map_of m (elem_key W x) = None \<and> map_of m (old_key W x) = Some v"
    by (rule assms(4))
qed (rule assms(1))

lemma db_repD:
  assumes "db_rep W hm es m"
  shows "e \<in> set m \<Longrightarrow> \<exists>k. fst e = kenc W k"
    and "map_of m (hash_key W l r) = Some v \<Longrightarrow> v = venc W (ValueV2 (ValueKnownHash (hm l r)))"
    and "map_of es x = None \<Longrightarrow> map_of m (elem_key W x) = None" "map_of es x = None \<Longrightarrow> map_of m (old_key W x) = None"
    and "map_of es x = Some y \<Longrightarrow> \<exists>v \<in> {venc W (ValueV1 y), venc W (ValueV2 (Metadata y))}.
             map_of m (elem_key W x) = Some v \<and> map_of m (old_key W x) = None
             \<or> map_of m (elem_key W x) = None \<and> map_of m (old_key W x) = Some v"
  using assms unfolding db_rep_def by simp_all

section \<open>The write batch of an insertion\<close>

lemma kenc_keys_ops:
  assumes "\<forall>e \<in> set m. \<exists>k. fst e = kenc W k" "\<forall>op \<in> set ops. \<forall>k v. op = Put k v \<longrightarrow> (\<exists>k'. k = kenc W k')"
  shows "\<forall>e \<in> set (apply_ops ops m). \<exists>k. fst e = kenc W k"
  using assms
proof (induction ops arbitrary: m)
  case (Cons op ops)
  show ?case
  proof (cases op)
    case (Put k v)
    have "\<forall>e \<in> set (bt_insert k v m). \<exists>k. fst e = kenc W k"
      using Cons.prems keys_bt_insert[of k v m] Put
      by (metis (no_types, lifting) imageE image_eqI insert_iff list.set_intros(1))
    then show ?thesis using Cons.IH Cons.prems(2) by (simp add: Put)
  next
    case (Delete k)
    have "\<forall>e \<in> set (bt_remove k m). \<exists>k. fst e = kenc W k"
      using Cons.prems(1) by (simp add: set_bt_remove)
    then show ?thesis using Cons.IH Cons.prems(2) by (simp add: Delete)
  qed
qed simp

lemma entry_ops_ok:
  assumes "smirk_wire_ok W"
  shows "\<exists>ops. entry_ops W es = Some ops
    \<and> (\<forall>op \<in> set ops. \<forall>k v. op = Put k v \<longrightarrow> (\<exists>k'. k = kenc W k'))
    \<and> (\<forall>m l r. map_of (apply_ops ops m) (hash_key W l r) = map_of m (hash_key W l r))
    \<and> (\<forall>m x. map_of (apply_ops ops m) (old_key W x) = (if x \<in> fst ` set es then None else map_of m (old_key W x)))
    \<and> (\<forall>m x. map_of (apply_ops ops m) (elem_key W x)
         = (case map_of (rev es) x of None \<Rightarrow> map_of m (elem_key W x) | Some y \<Rightarrow> Some (venc W (ValueV2 (Metadata y)))))"
proof (induction es)
  case (Cons e es)
  then obtain ops where "entry_ops W es = Some ops"
    and ops: "\<forall>op \<in> set ops. \<forall>k v. op = Put k v \<longrightarrow> (\<exists>k'. k = kenc W k')"
      "\<And>m l r. map_of (apply_ops ops m) (hash_key W l r) = map_of m (hash_key W l r)"
      "\<And>m x. map_of (apply_ops ops m) (old_key W x) = (if x \<in> fst ` set es then None else map_of m (old_key W x))"
      "\<And>m x. map_of (apply_ops ops m) (elem_key W x)
         = (case map_of (rev es) x of None \<Rightarrow> map_of m (elem_key W x) | Some y \<Rightarrow> Some (venc W (ValueV2 (Metadata y))))"
    by auto
  then show ?case
    using assms by (cases e) (auto simp: unwrap_def smirk_wire_okD kenc_inject map_add_def split: option.split)
qed simp

lemma remove_ops_ok:
  assumes "smirk_wire_ok W"
  shows "\<exists>ops. remove_ops W hs = Some ops
    \<and> (\<forall>op \<in> set ops. \<forall>k v. op = Put k v \<longrightarrow> (\<exists>k'. k = kenc W k'))
    \<and> (\<forall>m l r v. map_of (apply_ops ops m) (hash_key W l r) = Some v \<longrightarrow> map_of m (hash_key W l r) = Some v)
    \<and> (\<forall>m x. map_of (apply_ops ops m) (old_key W x) = map_of m (old_key W x)
           \<and> map_of (apply_ops ops m) (elem_key W x) = map_of m (elem_key W x))"
proof (induction hs)
  case (Cons h hs)
  obtain l r v where h: "h = ((l, r), v)" by (cases h) auto
  from Cons obtain ops where ops':
      "remove_ops W hs = Some ops
        \<and> (\<forall>op \<in> set ops. \<forall>k v. op = Put k v \<longrightarrow> (\<exists>k'. k = kenc W k'))
        \<and> (\<forall>m l r v. map_of (apply_ops ops m) (hash_key W l r) = Some v
             \<longrightarrow> map_of m (hash_key W l r) = Some v)
        \<and> (\<forall>m x. map_of (apply_ops ops m) (old_key W x) = map_of m (old_key W x)
               \<and> map_of (apply_ops ops m) (elem_key W x) = map_of m (elem_key W x))"
    by (elim exE)
  note ops = ops'[THEN conjunct1] ops'[THEN conjunct2, THEN conjunct1]
    ops'[THEN conjunct2, THEN conjunct2, THEN conjunct1, rule_format]
    ops'[THEN conjunct2, THEN conjunct2, THEN conjunct2, rule_format, THEN conjunct1]
    ops'[THEN conjunct2, THEN conjunct2, THEN conjunct2, rule_format, THEN conjunct2]
  have *: "map_of m (hash_key W l' r') = Some u"
    if "map_of (apply_ops ops (bt_remove (hash_key W l r) m)) (hash_key W l' r') = Some u" for m l' r' u
    using ops(3)[OF that] by (simp split: if_splits)
  show ?case
  proof (intro exI[of _ "Delete (hash_key W l r) # ops"] conjI)
    show "remove_ops W (h # hs) = Some (Delete (hash_key W l r) # ops)"
      using assms by (simp add: h unwrap_def smirk_wire_okD ops(1))
    show "\<forall>op \<in> set (Delete (hash_key W l r) # ops). \<forall>k v. op = Put k v \<longrightarrow> (\<exists>k'. k = kenc W k')"
      using ops(2) by simp
    show "\<forall>m l' r' u. map_of (apply_ops (Delete (hash_key W l r) # ops) m) (hash_key W l' r') = Some u
        \<longrightarrow> map_of m (hash_key W l' r') = Some u"
      unfolding apply_ops_simps using * by blast
  qed (simp add: ops(4,5) assms kenc_inject)
qed simp

lemma hash_ops_ok:
  assumes "smirk_wire_ok W" "\<forall>e \<in> set hs. snd e = Some (hm (fst (fst e)) (snd (fst e)))"
  shows "\<exists>ops. hash_ops W hs = Some ops
    \<and> (\<forall>op \<in> set ops. \<forall>k v. op = Put k v \<longrightarrow> (\<exists>k'. k = kenc W k'))
    \<and> (\<forall>m l r v. map_of (apply_ops ops m) (hash_key W l r) = Some v
         \<longrightarrow> map_of m (hash_key W l r) = Some v \<or> v = venc W (ValueV2 (ValueKnownHash (hm l r))))
    \<and> (\<forall>m x. map_of (apply_ops ops m) (old_key W x) = map_of m (old_key W x)
           \<and> map_of (apply_ops ops m) (elem_key W x) = map_of m (elem_key W x))"
  using assms(2)
proof (induction hs)
  case (Cons h hs)
  obtain l r v where h: "h = ((l, r), v)" by (cases h) auto
  then have v: "v = Some (hm l r)" using Cons.prems by simp
  have "\<forall>e \<in> set hs. snd e = Some (hm (fst (fst e)) (snd (fst e)))" using Cons.prems by simp
  from Cons.IH[OF this] obtain ops where ops':
      "hash_ops W hs = Some ops
        \<and> (\<forall>op \<in> set ops. \<forall>k v. op = Put k v \<longrightarrow> (\<exists>k'. k = kenc W k'))
        \<and> (\<forall>m l r v. map_of (apply_ops ops m) (hash_key W l r) = Some v
             \<longrightarrow> map_of m (hash_key W l r) = Some v \<or> v = venc W (ValueV2 (ValueKnownHash (hm l r))))
        \<and> (\<forall>m x. map_of (apply_ops ops m) (old_key W x) = map_of m (old_key W x)
               \<and> map_of (apply_ops ops m) (elem_key W x) = map_of m (elem_key W x))"
    by (elim exE)
  note ops = ops'[THEN conjunct1] ops'[THEN conjunct2, THEN conjunct1]
    ops'[THEN conjunct2, THEN conjunct2, THEN conjunct1, rule_format]
    ops'[THEN conjunct2, THEN conjunct2, THEN conjunct2, rule_format, THEN conjunct1]
    ops'[THEN conjunct2, THEN conjunct2, THEN conjunct2, rule_format, THEN conjunct2]
  let ?v = "venc W (ValueV2 (ValueKnownHash (hm l r)))"
  have "map_of m (hash_key W l' r') = Some u \<or> u = venc W (ValueV2 (ValueKnownHash (hm l' r')))"
    if "map_of (apply_ops ops (bt_insert (hash_key W l r) ?v m)) (hash_key W l' r') = Some u" for m l' r' u
    using ops(3)[OF that] assms(1) by (auto simp: kenc_inject split: if_splits)
  then show ?case
    using ops assms(1) by (intro exI[of _ "Put (hash_key W l r) ?v # ops"])
      (auto simp: h v unwrap_def smirk_wire_okD kenc_inject)
qed simp

lemma fold_update_distinct:
  "distinct (map fst (acc @ es)) \<Longrightarrow> fold (\<lambda>(k, v). AList.update k v) es acc = acc @ es"
proof (induction es arbitrary: acc)
  case (Cons e es)
  obtain k v where e: "e = (k, v)" by (cases e)
  have "k \<notin> fst ` set acc" using Cons.prems by (auto simp: e)
  then have "AList.update k v acc = acc @ [(k, v)]"
    by (induction acc) auto
  then show ?case using Cons.IH[of "acc @ [(k, v)]"] Cons.prems by (simp add: e)
qed simp

lemma map_of_rev_distinct: "distinct (map fst xs) \<Longrightarrow> map_of (rev xs) = map_of xs"
  by (subst map_of_inject_set) (simp_all add: rev_map[symmetric])

lemma write_rep:
  assumes W: "smirk_wire_ok W" and rep: "db_rep W hm es m"
    and new: "distinct (map fst bs)" "\<forall>x \<in> fst ` set bs. map_of es x = None"
    and ev: "\<And>l r v. HashSet l r v \<in> set events \<Longrightarrow> v = hm l r"
  shows "\<exists>o1 o2 o3. entry_ops W bs = Some o1
    \<and> remove_ops W (filter (\<lambda>c. snd c = None) (hash_changes events)) = Some o2
    \<and> hash_ops W (filter (\<lambda>c. snd c \<noteq> None) (hash_changes events)) = Some o3
    \<and> db_rep W hm (add_entries es bs) (apply_ops (o1 @ o2 @ o3) m)"
proof -
  obtain o1 where o1: "entry_ops W bs = Some o1
    \<and> (\<forall>op \<in> set o1. \<forall>k v. op = Put k v \<longrightarrow> (\<exists>k'. k = kenc W k'))
    \<and> (\<forall>m l r. map_of (apply_ops o1 m) (hash_key W l r) = map_of m (hash_key W l r))
    \<and> (\<forall>m x. map_of (apply_ops o1 m) (old_key W x) = (if x \<in> fst ` set bs then None else map_of m (old_key W x)))
    \<and> (\<forall>m x. map_of (apply_ops o1 m) (elem_key W x)
         = (case map_of (rev bs) x of None \<Rightarrow> map_of m (elem_key W x) | Some y \<Rightarrow> Some (venc W (ValueV2 (Metadata y)))))"
    using entry_ops_ok[OF W, of bs] by (elim exE)
  obtain o2 where o2: "remove_ops W (filter (\<lambda>c. snd c = None) (hash_changes events)) = Some o2
    \<and> (\<forall>op \<in> set o2. \<forall>k v. op = Put k v \<longrightarrow> (\<exists>k'. k = kenc W k'))
    \<and> (\<forall>m l r v. map_of (apply_ops o2 m) (hash_key W l r) = Some v \<longrightarrow> map_of m (hash_key W l r) = Some v)
    \<and> (\<forall>m x. map_of (apply_ops o2 m) (old_key W x) = map_of m (old_key W x)
           \<and> map_of (apply_ops o2 m) (elem_key W x) = map_of m (elem_key W x))"
    using remove_ops_ok[OF W, of "filter (\<lambda>c. snd c = None) (hash_changes events)"] by (elim exE)
  have "\<forall>e \<in> set (filter (\<lambda>c. snd c \<noteq> None) (hash_changes events)). snd e = Some (hm (fst (fst e)) (snd (fst e)))"
    using ev hash_changes_set by (fastforce simp: case_prod_beta)
  from hash_ops_ok[OF W this] obtain o3 where o3: "hash_ops W (filter (\<lambda>c. snd c \<noteq> None) (hash_changes events)) = Some o3
    \<and> (\<forall>op \<in> set o3. \<forall>k v. op = Put k v \<longrightarrow> (\<exists>k'. k = kenc W k'))
    \<and> (\<forall>m l r v. map_of (apply_ops o3 m) (hash_key W l r) = Some v
         \<longrightarrow> map_of m (hash_key W l r) = Some v \<or> v = venc W (ValueV2 (ValueKnownHash (hm l r))))
    \<and> (\<forall>m x. map_of (apply_ops o3 m) (old_key W x) = map_of m (old_key W x)
           \<and> map_of (apply_ops o3 m) (elem_key W x) = map_of m (elem_key W x))"
    by (elim exE)
  define m' where "m' = apply_ops (o1 @ o2 @ o3) m"
  note k1 = o1[THEN conjunct2, THEN conjunct2, THEN conjunct2]
    and k2 = o2[THEN conjunct2, THEN conjunct2, THEN conjunct2]
    and k3 = o3[THEN conjunct2, THEN conjunct2, THEN conjunct2]
    and puts = o1[THEN conjunct2, THEN conjunct1] o2[THEN conjunct2, THEN conjunct1] o3[THEN conjunct2, THEN conjunct1]
  have look: "map_of m' (elem_key W x) = (case map_of (rev bs) x of None \<Rightarrow> map_of m (elem_key W x)
        | Some y \<Rightarrow> Some (venc W (ValueV2 (Metadata y))))"
    "map_of m' (old_key W x) = (if x \<in> fst ` set bs then None else map_of m (old_key W x))" for x
    using k1 k2 k3 by (simp_all add: m'_def)
  have hash: "v = venc W (ValueV2 (ValueKnownHash (hm l r)))" if "map_of m' (hash_key W l r) = Some v" for l r v
  proof -
    have "map_of (apply_ops o2 (apply_ops o1 m)) (hash_key W l r) = Some v \<or> v = venc W (ValueV2 (ValueKnownHash (hm l r)))"
      using that o3 unfolding m'_def apply_ops_simps by blast
    then have "map_of (apply_ops o1 m) (hash_key W l r) = Some v \<or> v = venc W (ValueV2 (ValueKnownHash (hm l r)))"
      using o2 by blast
    then show ?thesis using o1 rep unfolding db_rep_def by metis
  qed
  have keys: "\<forall>e \<in> set m'. \<exists>k. fst e = kenc W k"
    unfolding m'_def by (rule kenc_keys_ops) (use rep puts in \<open>auto simp: db_rep_def\<close>)
  have add: "map_of (add_entries es bs) x = (case map_of (rev bs) x of None \<Rightarrow> map_of es x | Some y \<Rightarrow> Some y)" for x
    by (simp add: map_of_add_entries map_add_def)
  have dom: "map_of (rev bs) x = None \<longleftrightarrow> x \<notin> fst ` set bs" for x
    by (simp add: map_of_eq_None_iff)
  have none: "map_of m' (elem_key W x) = None \<and> map_of m' (old_key W x) = None"
    if "map_of (add_entries es bs) x = None" for x
  proof -
    have "x \<notin> fst ` set bs" "map_of es x = None" using that dom[of x] by (auto simp: add split: option.splits)
    then show ?thesis using rep look dom[of x] by (auto simp: db_rep_def)
  qed
  have some: "\<exists>v \<in> {venc W (ValueV1 y), venc W (ValueV2 (Metadata y))}.
      map_of m' (elem_key W x) = Some v \<and> map_of m' (old_key W x) = None
      \<or> map_of m' (elem_key W x) = None \<and> map_of m' (old_key W x) = Some v"
    if y: "map_of (add_entries es bs) x = Some y" for x y
  proof (cases "x \<in> fst ` set bs")
    case True
    then show ?thesis using y dom[of x] by (auto simp: look add split: option.splits)
  next
    case False
    then have "map_of es x = Some y" using y dom[of x] by (auto simp: add)
    moreover have "map_of (rev bs) x = None" using False dom by blast
    ultimately show ?thesis using rep False by (simp add: look db_rep_def)
  qed
  have "db_rep W hm (add_entries es bs) m'"
    by (rule db_repI[OF keys hash none some])
  then show ?thesis
    using o1[THEN conjunct1] o2[THEN conjunct1] o3[THEN conjunct1] unfolding m'_def by blast
qed

section \<open>Loading\<close>

definition good_entry ::
  "('v, 'e) smirk_wire \<Rightarrow> (element \<Rightarrow> element \<Rightarrow> element) \<Rightarrow> (element \<times> 'v) list \<Rightarrow> bytes \<times> bytes \<Rightarrow> bool" where
  "good_entry W hm es e \<longleftrightarrow>
     (\<exists>l r. e = (hash_key W l r, venc W (ValueV2 (ValueKnownHash (hm l r)))))
     \<or> (\<exists>x y. map_of es x = Some y \<and> snd e \<in> {venc W (ValueV1 y), venc W (ValueV2 (Metadata y))}
           \<and> fst e \<in> {elem_key W x, old_key W x})"

lemma db_rep_good:
  assumes W: "smirk_wire_ok W" and rep: "db_rep W hm es m" and ok: "bt_ok m" and e: "e \<in> set m"
  shows "good_entry W hm es e"
proof -
  obtain k where k: "fst e = kenc W k" using rep e unfolding db_rep_def by blast
  have look: "map_of m (kenc W k) = Some (snd e)"
    using ok e by (simp add: bt_ok_map_of flip: k)
  have elem: "good_entry W hm es e" if "kenc W k \<in> {elem_key W x, old_key W x}" for x
  proof (cases "map_of es x")
    case None
    then show ?thesis using db_repD(3,4)[OF rep None] look that by auto
  next
    case (Some y)
    then have "snd e \<in> {venc W (ValueV1 y), venc W (ValueV2 (Metadata y))}"
      using db_repD(5)[OF rep Some] look that by auto
    then show ?thesis using that Some unfolding good_entry_def k by blast
  qed
  show ?thesis
  proof (cases k)
    case (KeyV1 x)
    then show ?thesis using elem[of x] by simp
  next
    case (KeyV2 k2)
    show ?thesis
    proof (cases k2)
      case (KeyElement x)
      then show ?thesis using elem[of x] KeyV2 by simp
    next
      case (KeyKnownHash l r)
      then have "snd e = venc W (ValueV2 (ValueKnownHash (hm l r)))"
        using db_repD(2)[OF rep, of l r] look KeyV2 by simp
      then show ?thesis using k KeyV2 KeyKnownHash unfolding good_entry_def by (metis prod.collapse)
    qed
  qed
qed

lemma read_good:
  assumes W: "smirk_wire_ok W" and "good_entry W hm es e"
  shows "(\<exists>h. read_entry W e = Inr (KnownHashEntry h) \<and> known_ok hm h \<and> (\<forall>x. elem_key W x \<noteq> fst e \<and> old_key W x \<noteq> fst e))
    \<or> (\<exists>x y. read_entry W e = Inr (SmirkKV x y) \<and> map_of es x = Some y \<and> fst e \<in> {elem_key W x, old_key W x})"
  using assms(2) unfolding good_entry_def
proof (elim disjE exE conjE)
  fix l r assume e: "e = (hash_key W l r, venc W (ValueV2 (ValueKnownHash (hm l r))))"
  then show ?thesis
    by (intro disjI1) (simp add: read_entry_def smirk_wire_okD[OF W] known_ok_def kenc_inject[OF W])
next
  fix x y assume "map_of es x = Some y" "snd e \<in> {venc W (ValueV1 y), venc W (ValueV2 (Metadata y))}"
    "fst e \<in> {elem_key W x, old_key W x}"
  then show ?thesis
    by (intro disjI2 exI[of _ x] exI[of _ y]) (auto simp: read_entry_def smirk_wire_okD[OF W])
qed

lemma sort_good:
  assumes W: "smirk_wire_ok W" and "\<forall>e \<in> set m. good_entry W hm es e" and "distinct (map fst m)"
    and "\<forall>x. elem_key W x \<notin> fst ` set m \<or> old_key W x \<notin> fst ` set m"
  shows "\<exists>hs kvs. sort_entries (map (read_entry W) m) = Inr (hs, kvs) \<and> (\<forall>h \<in> set hs. known_ok hm h)
    \<and> distinct (map fst kvs) \<and> (\<forall>(x, y) \<in> set kvs. map_of es x = Some y)
    \<and> (\<forall>x. x \<in> fst ` set kvs \<longleftrightarrow> elem_key W x \<in> fst ` set m \<or> old_key W x \<in> fst ` set m)"
  using assms(2-)
proof (induction m)
  case (Cons e m)
  have "\<forall>x. elem_key W x \<notin> fst ` set m \<or> old_key W x \<notin> fst ` set m" using Cons.prems(3) by auto
  then obtain hs kvs where IH: "sort_entries (map (read_entry W) m) = Inr (hs, kvs)" "\<forall>h \<in> set hs. known_ok hm h"
    "distinct (map fst kvs)" "\<forall>(x, y) \<in> set kvs. map_of es x = Some y"
    "\<And>x. x \<in> fst ` set kvs \<longleftrightarrow> elem_key W x \<in> fst ` set m \<or> old_key W x \<in> fst ` set m"
    using Cons by auto
  have "good_entry W hm es e" using Cons.prems(1) by simp
  from read_good[OF W this] show ?case
  proof (elim disjE exE conjE)
    fix h assume "read_entry W e = Inr (KnownHashEntry h)" "known_ok hm h"
      "\<forall>x. elem_key W x \<noteq> fst e \<and> old_key W x \<noteq> fst e"
    then show ?thesis using IH by (intro exI[of _ "h # hs"] exI[of _ kvs]) auto
  next
    fix x y assume xy: "read_entry W e = Inr (SmirkKV x y)" "map_of es x = Some y" "fst e \<in> {elem_key W x, old_key W x}"
    have "x \<notin> fst ` set kvs"
      using xy(3) Cons.prems(2) Cons.prems(3)[rule_format, of x] unfolding IH(5)
      by (elim insertE emptyE) simp_all
    moreover have "z \<in> fst ` set ((x, y) # kvs)
        \<longleftrightarrow> elem_key W z \<in> fst ` set (e # m) \<or> old_key W z \<in> fst ` set (e # m)" for z
      using xy(3) IH(5)[of z] kenc_inject[OF W] by auto
    ultimately show ?thesis
      using IH(1-4) xy(1,2) by (intro exI[of _ hs] exI[of _ "(x, y) # kvs"]) simp
  qed
qed simp

lemma in_keys_iff: "k \<in> fst ` set m \<longleftrightarrow> map_of m k \<noteq> None"
  by (simp add: map_of_eq_None_iff)

lemma load_tree_ok:
  assumes kv: "kv_ok K contents" and W: "smirk_wire_ok W" and n: "n \<le> 256"
    and inv: "tree_inv hm cinv n t" and rep: "db_rep W hm (t_entries t) (contents db)"
  shows "\<exists>u. load_tree K W hm (Suc n) db = Some (Inr u) \<and> tree_inv hm (simple_cache_ok hm) n u
           \<and> t_entries u = t_entries t \<and> root_hash hm u = root_hash hm t"
proof -
  note ok = kv_okD(1)[OF kv, of db]
  have "\<forall>x. elem_key W x \<notin> fst ` set (contents db) \<or> old_key W x \<notin> fst ` set (contents db)"
  proof
    fix x
    show "elem_key W x \<notin> fst ` set (contents db) \<or> old_key W x \<notin> fst ` set (contents db)"
      using db_repD(3)[OF rep, of x] db_repD(5)[OF rep, of x]
      by (cases "map_of (t_entries t) x") (auto simp: map_of_eq_None_iff)
  qed
  with db_rep_good[OF W rep ok] bt_ok_distinct[OF ok] obtain hs kvs where
    s: "sort_entries (map (read_entry W) (contents db)) = Inr (hs, kvs)" "\<forall>h \<in> set hs. known_ok hm h"
      "distinct (map fst kvs)" "\<forall>(x, y) \<in> set kvs. map_of (t_entries t) x = Some y"
      "\<forall>x. x \<in> fst ` set kvs \<longleftrightarrow> elem_key W x \<in> fst ` set (contents db) \<or> old_key W x \<in> fst ` set (contents db)"
    using sort_good[OF W, of "contents db" hm "t_entries t"] by blast
  have keys: "x \<in> fst ` set kvs \<longleftrightarrow> map_of (t_entries t) x \<noteq> None" for x
    using s(5)[rule_format, of x] db_repD(3-5)[OF rep, of x]
    unfolding in_keys_iff by (cases "map_of (t_entries t) x") auto
  have map_eq: "map_of kvs = map_of (t_entries t)"
  proof
    fix x
    show "map_of kvs x = map_of (t_entries t) x"
    proof (cases "map_of kvs x")
      case None
      then show ?thesis using keys[of x] in_keys_iff by metis
    next
      case (Some y)
      then have "(x, y) \<in> set kvs" by (rule map_of_SomeD)
      then show ?thesis using s(4) Some by auto
    qed
  qed
  have set_keys: "set (map fst kvs) = set (keys t)"
    using map_eq by (metis dom_map_of_conv_image_fst set_map)
  have k: "keyed n (map fst kvs)"
    by (rule keyed_same_set[OF _ s(3) set_keys[symmetric]]) (use inv in \<open>simp add: tree_inv_def\<close>)
  then have "distinct (map (\<lambda>e. lsb e (Suc n - 1)) (batch_elements batch_new @ map fst kvs))"
    by (simp add: batch_new_def batch_elements_def)
  from insert_entries_ok[OF batch_new_ok this] obtain b where
    b: "insert_entries (Suc n) batch_new kvs = Some (Inr b)" "batch_ok (Suc n) b" "b_entries b = kvs"
    by (auto simp: batch_new_def)
  obtain cache where cache: "provide_known_hashes simple_cache_new hs = Some cache"
    by (simp add: provide_known_hashes_def simple_cache_new_def)
  have "simple_cache_ok hm cache"
    by (rule provide_known_hashes_ok[OF simple_cache_new_ok s(2) cache])
  then have new: "tree_inv hm (simple_cache_ok hm) n (new_with_cache (Suc n) cache)"
    by (rule tree_inv_new)
  have "free_in n (new_with_cache (Suc n) cache) (batch_elements b)"
    using inv set_keys by (auto simp: free_in_def batch_elements_def b(3) new_with_cache_def tree_inv_def)
  from simple.insert_batch_ok[OF new n b(2) this] obtain u ev where
    u: "insert_batch hm (simple_hash hm) (Suc n) (new_with_cache (Suc n) cache) b = Some (Inr (u, ev))"
      "tree_inv hm (simple_cache_ok hm) n u" "t_entries u = add_entries [] kvs"
    by (auto simp: b(3) new_with_cache_def)
  have "map_of (t_entries u) = map_of kvs"
    using s(3) by (simp add: u(3) map_of_add_entries map_of_rev_distinct)
  then have entries: "t_entries u = t_entries t"
    using map_eq u(2) inv by (intro bt_ok_ext) (simp_all add: tree_inv_def)
  have "storage_entries K W db = map (read_entry W) (contents db)"
    by (simp add: storage_entries_def kv_okD(6)[OF kv] filter_map comp_def)
  then have "load_tree K W hm (Suc n) db = Some (Inr u)"
    using s(1) cache b(1) u(1) by (simp add: load_tree_def)
  then show ?thesis
    using u(2) entries root_hash_spec[OF u(2)] root_hash_spec[OF inv] by auto
qed

section \<open>Durability\<close>

definition persist_inv ::
  "(element \<Rightarrow> element \<Rightarrow> element) \<Rightarrow> ('v, 'e) smirk_wire \<Rightarrow> ('db \<Rightarrow> kv_contents) \<Rightarrow> nat
     \<Rightarrow> ('v, 'db) persistent \<Rightarrow> bool" where
  "persist_inv hm W contents n p \<longleftrightarrow>
     tree_inv hm (simple_cache_ok hm) n (ps_tree p) \<and> db_rep W hm (t_entries (ps_tree p)) (contents (ps_db p))"

lemma persistent_insert_inv:
  assumes kv: "kv_ok K contents" and W: "smirk_wire_ok W" and n: "n \<le> 256"
    and p: "persist_inv hm W contents n p"
    and b: "batch_ok (Suc n) b" "free_in n (ps_tree p) (batch_elements b)"
  shows "\<exists>p'. persistent_insert_batch K W hm (Suc n) p b = Some (p', Inr ()) \<and> persist_inv hm W contents n p'
           \<and> t_entries (ps_tree p') = add_entries (t_entries (ps_tree p)) (b_entries b)"
proof (cases "batch_is_empty b")
  case True
  then show ?thesis using p by (simp add: persistent_insert_batch_def batch_is_empty_def)
next
  case False
  have inv: "tree_inv hm (simple_cache_ok hm) n (ps_tree p)"
    and rep: "db_rep W hm (t_entries (ps_tree p)) (contents (ps_db p))"
    using p by (simp_all add: persist_inv_def)
  obtain t ev where t: "insert_batch hm (simple_hash hm) (Suc n) (ps_tree p) b = Some (Inr (t, ev))"
    "tree_inv hm (simple_cache_ok hm) n t" "t_entries t = add_entries (t_entries (ps_tree p)) (b_entries b)"
    using simple.insert_batch_ok[OF inv n b] by blast
  have cache: "simple_cache_ok hm (t_cache (ps_tree p))" using inv by (simp add: tree_inv_def)
  have "distinct (map (\<lambda>e. lsb e n) (map fst (b_entries b)))"
    using b(1) by (simp add: batch_ok_def batch_elements_def)
  then have distinct: "distinct (map fst (b_entries b))" by (rule distinct_map[THEN iffD1, THEN conjunct1])
  have fresh: "\<forall>x \<in> fst ` set (b_entries b). map_of (t_entries (ps_tree p)) x = None"
    using free_in_slot(2)[OF inv n b(2)] by (simp add: batch_elements_def)
  obtain o1 o2 o3 where o: "entry_ops W (b_entries b) = Some o1"
    "remove_ops W (filter (\<lambda>c. snd c = None) (hash_changes ev)) = Some o2"
    "hash_ops W (filter (\<lambda>c. snd c \<noteq> None) (hash_changes ev)) = Some o3"
    "db_rep W hm (t_entries t) (apply_ops (o1 @ o2 @ o3) (contents (ps_db p)))"
    using write_rep[OF W rep distinct fresh insert_batch_events[OF t(1) cache], of ev] unfolding t(3) by blast
  obtain db where db: "kv_write K (ps_db p) (o1 @ o2 @ o3) = Inr db"
    "contents db = apply_ops (o1 @ o2 @ o3) (contents (ps_db p))"
    using kv_okD(4)[OF kv] by blast
  have "persistent_insert_batch K W hm (Suc n) p b = Some (\<lparr>ps_tree = t, ps_db = db\<rparr>, Inr ())"
    using False t(1) o(1-3) db(1) fold_update_distinct[of "[]" "b_entries b"] distinct
    by (simp add: persistent_insert_batch_def)
  then show ?thesis
    using t(2,3) o(4) db(2) by (simp add: persist_inv_def)
qed

text \<open>A wire format: the tag of the variant and the elements in big-endian bytes; values are single bytes.\<close>

fun plain_key :: "key_format \<Rightarrow> bytes" where
  "plain_key (KeyV1 e) = 0 # be_bytes 32 e"
| "plain_key (KeyV2 (KeyElement e)) = 1 # be_bytes 32 e"
| "plain_key (KeyV2 (KeyKnownHash l r)) = 2 # be_bytes 32 l @ be_bytes 32 r"

definition plain_key_read :: "bytes \<Rightarrow> key_format" where
  "plain_key_read bs =
     (if hd bs = 0 then KeyV1 (from_be (tl bs))
      else if hd bs = 1 then KeyV2 (KeyElement (from_be (tl bs)))
      else KeyV2 (KeyKnownHash (from_be (take 32 (tl bs))) (from_be (drop 32 (tl bs)))))"

fun plain_value :: "u8 value_format \<Rightarrow> bytes" where
  "plain_value (ValueV1 v) = [0, v]"
| "plain_value (ValueV2 (Metadata v)) = [1, v]"
| "plain_value (ValueV2 (ValueKnownHash e)) = 2 # be_bytes 32 e"

definition plain_value_read :: "bytes \<Rightarrow> u8 value_format" where
  "plain_value_read bs =
     (if hd bs = 0 then ValueV1 (hd (tl bs))
      else if hd bs = 1 then ValueV2 (Metadata (hd (tl bs)))
      else ValueV2 (ValueKnownHash (from_be (tl bs))))"

definition plain_wire :: "(u8, unit) smirk_wire" where
  "plain_wire = \<lparr>kf_to_bytes = Inr \<circ> plain_key, kf_from_bytes = Inr \<circ> plain_key_read,
                 vf_to_bytes = Inr \<circ> plain_value, vf_from_bytes = Inr \<circ> plain_value_read\<rparr>"

lemma plain_wire_ok [simp]: "smirk_wire_ok plain_wire"
proof -
  have "plain_key_read (plain_key k) = k" for k
    by (cases k rule: plain_key.cases) (simp_all add: plain_key_read_def from_be_bytes_gen)
  moreover have "plain_value_read (plain_value v) = v" for v
    by (cases v rule: plain_value.cases) (simp_all add: plain_value_read_def from_be_bytes_gen)
  ultimately show ?thesis by (simp add: smirk_wire_ok_def plain_wire_def)
qed

lemma persistent_load_ok:
  assumes "kv_ok K contents" "smirk_wire_ok W" "n \<le> 256" "persist_inv hm W contents n p"
  shows "\<exists>q. persistent_load K W hm (Suc n) (Inr (ps_db p)) = Some (Inr q) \<and> persist_inv hm W contents n q
    \<and> t_entries (ps_tree q) = t_entries (ps_tree p) \<and> root_hash hm (ps_tree q) = root_hash hm (ps_tree p)"
proof -
  have inv: "tree_inv hm (simple_cache_ok hm) n (ps_tree p)"
    and rep: "db_rep W hm (t_entries (ps_tree p)) (contents (ps_db p))"
    using assms(4) by (simp_all add: persist_inv_def)
  obtain u where "load_tree K W hm (Suc n) (ps_db p) = Some (Inr u)" "tree_inv hm (simple_cache_ok hm) n u"
    "t_entries u = t_entries (ps_tree p)" "root_hash hm u = root_hash hm (ps_tree p)"
    using load_tree_ok[OF assms(1-3) inv rep] by blast
  then show ?thesis
    using rep by (intro exI[of _ "\<lparr>ps_tree = u, ps_db = ps_db p\<rparr>"]) (simp add: persistent_load_def persist_inv_def)
qed

text \<open>
  C25: durability. Inserting a batch whose slots are free succeeds and keeps the invariant of the
  persistent tree; a restart, at any time after, loads a tree with the same entries and the same root
  hash.
\<close>

theorem persistent_insert_durable:
  assumes "kv_ok K contents" "smirk_wire_ok W" "n \<le> 256" "persist_inv hm W contents n p"
    and "batch_ok (Suc n) b" "free_in n (ps_tree p) (batch_elements b)"
  shows "\<exists>p' q. persistent_insert_batch K W hm (Suc n) p b = Some (p', Inr ())
    \<and> persist_inv hm W contents n p'
    \<and> t_entries (ps_tree p') = add_entries (t_entries (ps_tree p)) (b_entries b)
    \<and> persistent_load K W hm (Suc n) (Inr (ps_db p')) = Some (Inr q)
    \<and> persist_inv hm W contents n q
    \<and> t_entries (ps_tree q) = t_entries (ps_tree p')
    \<and> root_hash hm (ps_tree q) = root_hash hm (ps_tree p')"
proof -
  obtain p' where p': "persistent_insert_batch K W hm (Suc n) p b = Some (p', Inr ())"
    "persist_inv hm W contents n p'"
    "t_entries (ps_tree p') = add_entries (t_entries (ps_tree p)) (b_entries b)"
    using persistent_insert_inv[OF assms] by blast
  then show ?thesis using persistent_load_ok[OF assms(1-3) p'(2)] by blast
qed

definition one_batch :: "u8 batch" where
  "one_batch = \<lparr>b_entries = [(5, 7)], b_lsbs = [lsb 5 2]\<rparr>"

theorem persistent_insert_durable_witness:
  "\<exists>p' q. persistent_insert_batch memory_kv plain_wire (+) 3
      \<lparr>ps_tree = new_with_cache 3 simple_cache_new, ps_db = []\<rparr> one_batch = Some (p', Inr ())
    \<and> persistent_load memory_kv plain_wire (+) 3 (Inr (ps_db p')) = Some (Inr q)
    \<and> t_entries (ps_tree q) = [(5, 7)]"
proof -
  let ?p = "\<lparr>ps_tree = new_with_cache (Suc 2) simple_cache_new, ps_db = []\<rparr> :: (u8, kv_contents) persistent"
  have "db_rep plain_wire (+) [] []" by (simp add: db_rep_def)
  then have p: "persist_inv (+) plain_wire store_contents 2 ?p"
    using tree_inv_new[where cinv = "simple_cache_ok (+)" and c = simple_cache_new and n = 2 and hm = "(+)",
        OF simple_cache_new_ok]
    by (simp add: persist_inv_def new_with_cache_def)
  have b: "batch_ok (Suc 2) one_batch" by (simp add: batch_ok_def one_batch_def batch_elements_def)
  have f: "free_in 2 (ps_tree ?p) (batch_elements one_batch)"
    by (simp add: free_in_def one_batch_def batch_elements_def new_with_cache_def NULL_HASH_def ZERO_def)
  show ?thesis
    using persistent_insert_durable[OF memory_kv_ok plain_wire_ok _ p b f]
    by (auto simp: one_batch_def new_with_cache_def)
qed

end
