(* ===== verification/Node_Block.thy ===== *)
theory Node_Block
  imports Smirk_Storage Block_Store Wire_Message
begin

text \<open>
  Blocks and transactions: \<open>UTXOProof\<close> of \<open>pkg/zk-circuits\<close> (\<open>data.rs\<close>, \<open>utxo/proof.rs\<close>), the block of
  \<open>pkg/node/src/block.rs\<close>, the formats both are stored in (\<open>node/block_format.rs\<close>,
  \<open>node/txn_format.rs\<close>) and the errors of the node (\<open>errors.rs\<close>). What the node takes from other
  packages is the record \<open>node_env\<close>: the hash Keccak-256, the signature scheme, the verifier of
  proofs, the wire formats derived with Borsh, the database and the hash of the tree.
\<close>

section \<open>Transactions (zk-circuits)\<close>

type_synonym signature = "u8 list"

record snark_witness_v1 =
  sw_instances :: "element list list"
  sw_proof :: "u8 list"

datatype snark_witness = WitnessV1 snark_witness_v1

text \<open>The two leaves of each kind, \<open>[Element; 2]\<close>, are pairs.\<close>

record utxo_proof =
  up_recent_root :: element
  up_mb_hash :: element
  up_mb_value :: element
  up_input_leaves :: "element \<times> element"
  up_output_leaves :: "element \<times> element"
  up_proof :: "u8 list"

definition array2 :: "'a \<times> 'a \<Rightarrow> 'a list" where
  "array2 p = [fst p, snd p]"

definition leaves :: "utxo_proof \<Rightarrow> element list" where
  "leaves u = array2 (up_input_leaves u) @ array2 (up_output_leaves u)"

definition instances :: "utxo_proof \<Rightarrow> element list" where
  "instances u = [up_recent_root u, up_mb_hash u, up_mb_value u] @ leaves u"

definition to_snark_witness :: "utxo_proof \<Rightarrow> snark_witness" where
  "to_snark_witness u = WitnessV1 \<lparr>sw_instances = [instances u], sw_proof = up_proof u\<rparr>"

text \<open>\<open>None\<close>: an index out of range.\<close>

fun from_snark_witness :: "snark_witness \<Rightarrow> utxo_proof option" where
  "from_snark_witness (WitnessV1 snark) =
     (case sw_instances snark of
        [] \<Rightarrow> None
      | i # _ \<Rightarrow>
          (if length i < 7 then None
           else Some \<lparr>up_recent_root = i ! 0, up_mb_hash = i ! 1, up_mb_value = i ! 2,
                      up_input_leaves = (i ! 3, i ! 4), up_output_leaves = (i ! 5, i ! 6),
                      up_proof = sw_proof snark\<rparr>))"

definition is_mint_or_burn :: "utxo_proof \<Rightarrow> bool" where
  "is_mint_or_burn u \<longleftrightarrow> up_mb_hash u \<noteq> NULL_HASH \<or> up_mb_value u \<noteq> NULL_HASH"

definition is_mint :: "utxo_proof \<Rightarrow> bool" where
  "is_mint u \<longleftrightarrow> is_mint_or_burn u \<and> list_all (\<lambda>l. l = NULL_HASH) (array2 (up_input_leaves u))"

definition is_burn :: "utxo_proof \<Rightarrow> bool" where
  "is_burn u \<longleftrightarrow> is_mint_or_burn u \<and> list_all (\<lambda>l. l = NULL_HASH) (array2 (up_output_leaves u))"

text \<open>The bytes \<open>UTXOProof::hash\<close> feeds to the hasher: the leaves are sorted, the proof is left out.\<close>

definition utxo_preimage :: "utxo_proof \<Rightarrow> bytes" where
  "utxo_preimage u =
     to_be_bytes (up_recent_root u) @ to_be_bytes (up_mb_hash u) @ to_be_bytes (up_mb_value u)
     @ concat (map to_be_bytes (sort (array2 (up_input_leaves u))))
     @ concat (map to_be_bytes (sort (array2 (up_output_leaves u))))"

definition utxo_hash :: "(bytes \<Rightarrow> crypto_hash) \<Rightarrow> utxo_proof \<Rightarrow> crypto_hash" where
  "utxo_hash keccak u = keccak (utxo_preimage u)"

section \<open>Blocks (block.rs)\<close>

record block_header =
  bh_height :: u64
  bh_last_block_hash :: crypto_hash
  bh_epoch_id :: u64
  bh_last_final_block_hash :: crypto_hash
  bh_approvals :: "signature list"

record block_state =
  bs_root_hash :: element
  bs_txns :: "utxo_proof list"

record block_content =
  bc_header :: block_header
  bc_state :: block_state

record block =
  b_content :: block_content
  b_signature :: signature

abbreviation block_height :: "block \<Rightarrow> u64" where
  "block_height b \<equiv> bh_height (bc_header (b_content b))"

definition signature_default :: signature where
  "signature_default = replicate 65 0"

definition block_state_new :: "element \<Rightarrow> utxo_proof list \<Rightarrow> block_state" where
  "block_state_new root txns = \<lparr>bs_root_hash = root, bs_txns = txns\<rparr>"

definition state_leaves :: "block_state \<Rightarrow> element list" where
  "state_leaves s = concat (map leaves (bs_txns s))"

definition leaves_non_null :: "block_state \<Rightarrow> element list" where
  "leaves_non_null s = filter (\<lambda>e. e \<noteq> NULL_HASH) (state_leaves s)"

definition content_genesis :: block_content where
  "content_genesis = \<lparr>bc_header = \<lparr>bh_height = 0, bh_last_block_hash = 0, bh_epoch_id = 0,
                                   bh_last_final_block_hash = 0, bh_approvals = []\<rparr>,
                      bc_state = \<lparr>bs_root_hash = 0, bs_txns = []\<rparr>\<rparr>"

definition genesis :: block where
  "genesis = \<lparr>b_content = content_genesis, b_signature = signature_default\<rparr>"

text \<open>\<open>borsh\<close> writes a header; the hash of a block is that of its root hash, height and header hash.\<close>

definition header_hash ::
  "(bytes \<Rightarrow> crypto_hash) \<Rightarrow> (block_header \<Rightarrow> bytes) \<Rightarrow> block_content \<Rightarrow> crypto_hash" where
  "header_hash keccak borsh c = keccak (borsh (bc_header c))"

definition content_hash ::
  "(bytes \<Rightarrow> crypto_hash) \<Rightarrow> (block_header \<Rightarrow> bytes) \<Rightarrow> block_content \<Rightarrow> crypto_hash" where
  "content_hash keccak borsh c =
     keccak (to_be_bytes (bs_root_hash (bc_state c)) @ be_bytes 32 (ucast (bh_height (bc_header c)) :: u256)
             @ be_bytes 32 (header_hash keccak borsh c))"

definition block_hash ::
  "(bytes \<Rightarrow> crypto_hash) \<Rightarrow> (block_header \<Rightarrow> bytes) \<Rightarrow> block \<Rightarrow> crypto_hash" where
  "block_hash keccak borsh b = content_hash keccak borsh (b_content b)"

section \<open>Stored formats (block_format.rs, txn_format.rs)\<close>

record block_metadata =
  timestamp_unix_s :: "u64 option"

record txn_metadata =
  tm_block_height :: u64
  tm_block_time :: "u64 option"
  tm_block_hash :: crypto_hash
  tm_block_txn_index :: u32

datatype block_format = BlockV1 block | BlockV2 block block_metadata

datatype txn_format = TxnV1 utxo_proof txn_metadata

fun into_block :: "block_format \<Rightarrow> block" where
  "into_block (BlockV1 b) = b"
| "into_block (BlockV2 b _) = b"

fun block_metadata_of :: "block_format \<Rightarrow> block_metadata" where
  "block_metadata_of (BlockV1 _) = \<lparr>timestamp_unix_s = None\<rparr>"
| "block_metadata_of (BlockV2 _ metadata) = metadata"

fun block_format_version :: "block_format \<Rightarrow> nat" where
  "block_format_version (BlockV1 _) = 1"
| "block_format_version (BlockV2 _ _) = 2"

text \<open>\<open>upgrade_once\<close> of the two formats.\<close>

fun block_format_upgrade_once :: "block_format \<Rightarrow> unit wire_error + block_format" where
  "block_format_upgrade_once (BlockV1 b) = Inr (BlockV2 b \<lparr>timestamp_unix_s = None\<rparr>)"
| "block_format_upgrade_once (BlockV2 _ _) = Inl (MaxVersionError 2)"

fun txn_format_version :: "txn_format \<Rightarrow> nat" where
  "txn_format_version (TxnV1 _ _) = 1"

fun txn_format_upgrade_once :: "txn_format \<Rightarrow> unit wire_error + txn_format" where
  "txn_format_upgrade_once (TxnV1 _ _) = Inl (MaxVersionError 1)"

interpretation block_wire: wire_message block_format_version block_format_upgrade_once 2
proof
  show "\<exists>m'. block_format_upgrade_once m = Inr m' \<and> block_format_version m' = Suc (block_format_version m)"
    if "block_format_version m < 2" for m using that by (cases m) simp_all
  show "block_format_version m \<le> 2" for m by (cases m) simp_all
qed

interpretation txn_wire: wire_message txn_format_version txn_format_upgrade_once 1
proof
  show "\<exists>m'. txn_format_upgrade_once m = Inr m' \<and> txn_format_version m' = Suc (txn_format_version m)"
    if "txn_format_version m < 1" for m using that by (cases m) simp_all
  show "txn_format_version m \<le> 1" for m by (cases m) simp_all
qed

text \<open>
  A stored block of any version upgrades to the greatest version and stays the same block; a format
  of the greatest version is left as it is.
\<close>

theorem block_format_upgrade_ok:
  "\<exists>g. wire_upgrade block_format_version block_format_upgrade_once 2 f = Some (Inr g)
     \<and> block_format_version g = 2 \<and> into_block g = into_block f
     \<and> block_metadata_of g = block_metadata_of f
     \<and> wire_upgrade block_format_version block_format_upgrade_once 2 g = Some (Inr g)"
proof (cases f)
  case (BlockV1 b)
  then show ?thesis by (simp add: wire_upgrade.simps)
next
  case (BlockV2 b m)
  then show ?thesis by (simp add: wire_upgrade.simps)
qed

definition block_txns ::
  "(bytes \<Rightarrow> crypto_hash) \<Rightarrow> (block_header \<Rightarrow> bytes) \<Rightarrow> block \<Rightarrow> txn_format list" where
  "block_txns keccak borsh b =
     map (\<lambda>(i, t). TxnV1 t \<lparr>tm_block_height = block_height b, tm_block_time = None,
                           tm_block_hash = block_hash keccak borsh b, tm_block_txn_index = word_of_nat i\<rparr>)
       (enumerate 0 (bs_txns (bc_state (b_content b))))"

fun format_txns ::
  "(bytes \<Rightarrow> crypto_hash) \<Rightarrow> (block_header \<Rightarrow> bytes) \<Rightarrow> block_format \<Rightarrow> txn_format list" where
  "format_txns keccak borsh (BlockV1 b) = block_txns keccak borsh b"
| "format_txns keccak borsh (BlockV2 b m) =
     map (\<lambda>t. case t of TxnV1 txn metadata \<Rightarrow> TxnV1 txn (metadata\<lparr>tm_block_time := timestamp_unix_s m\<rparr>))
       (block_txns keccak borsh b)"

fun txn_format_hash :: "(bytes \<Rightarrow> crypto_hash) \<Rightarrow> txn_format \<Rightarrow> crypto_hash" where
  "txn_format_hash keccak (TxnV1 txn _) = utxo_hash keccak txn"

section \<open>Errors (errors.rs)\<close>

text \<open>
  The errors of other crates a variant wraps are \<open>'e\<close>; \<open>InvalidBlockSignature\<close> is \<open>InvalidSignature\<close>.
\<close>

type_synonym peer_id = bytes

datatype 'e node_error =
    SnapshotChunkPeerMismatch peer_id peer_id
  | InvalidProof
  | NoteAlreadySpent element crypto_hash
  | LeafAlreadyInsertedInTheSameBlock element crypto_hash crypto_hash
  | OutputNoteExists element
  | InvalidElementSize element
  | UtxoRootIsNotRecentEnough element "element list" crypto_hash
  | ElementNotInTree element
  | ElementNotInTxn element u64
  | BlockNotFound u64
  | BlockHashNotFound crypto_hash
  | MintIsNotInTheContract element
  | BurnIsNotInTheContract element
  | BurnToAddressCannotBeZero
  | InvalidMintOrBurnLeaves
  | InvalidBlockSignature
  | InvalidTransaction crypto_hash
  | InvalidBlockRoot element element
  | TxnNotFound crypto_hash
  | FailedToParseElement string 'e
  | FailedToParseHash string 'e
  | FailedToGetEthBlockNumber 'e
  | DoomslugError
  | Sync 'e
  | NetworkError 'e
  | BlockStoreError "'e store_error"
  | SmirkError "'e storage_error"
  | Contracts 'e
  | IoError 'e
  | SmirkCollision "collision list"

section \<open>The environment of a node\<close>

datatype mode = ValidatorMode | NodeMode | ProverMode | MockProverMode

fun is_prover :: "mode \<Rightarrow> bool" where
  "is_prover ProverMode = True"
| "is_prover MockProverMode = True"
| "is_prover ValidatorMode = False"
| "is_prover NodeMode = False"

record ('db, 'e) node_env =
  keccak :: "bytes \<Rightarrow> crypto_hash"
  borsh_header :: "block_header \<Rightarrow> bytes"
  recover :: "signature \<Rightarrow> crypto_hash \<Rightarrow> address option"
  verify_proof :: "snark_witness_v1 \<Rightarrow> unit + bool"
  poseidon :: "element \<Rightarrow> element \<Rightarrow> element"
  kv :: "('db, 'e) kv_ops"
  smirk_format :: "(u64, 'e) smirk_wire"
  format_to_bytes :: "block_format \<Rightarrow> 'e + bytes"
  format_from_bytes :: "bytes \<Rightarrow> 'e + block_format"
  txn_format_to_bytes :: "txn_format \<Rightarrow> 'e + bytes"
  txn_format_from_bytes :: "bytes \<Rightarrow> 'e + txn_format"
  node_mode :: mode
  bad_blocks :: "u64 list"
  block_txns_count :: nat
  safe_eth_height_offset :: u64
  validators_for_height :: "u64 \<Rightarrow> address list"
  local_address :: address
  local_sign :: "crypto_hash \<Rightarrow> signature"

text \<open>
  \<open>SnarkWitnessV1::verify\<close> with the key of the transaction circuit: \<open>verify_proof\<close> of halo2 fails on a
  proof it cannot read, and \<open>unwrap\<close> panics.
\<close>

definition snark_verify :: "('db, 'e) node_env \<Rightarrow> snark_witness_v1 \<Rightarrow> bool option" where
  "snark_verify E w = (case verify_proof E w of Inl _ \<Rightarrow> None | Inr valid \<Rightarrow> Some valid)"

text \<open>The implementation of the trait \<open>block_store::Block\<close> for \<open>BlockFormat\<close>.\<close>

definition format_impl :: "('db, 'e) node_env \<Rightarrow> (block_format, txn_format, 'e) block_impl" where
  "format_impl E =
     \<lparr>blk_height = (\<lambda>f. block_height (into_block f)),
      blk_hash = (\<lambda>f. block_hash (keccak E) (borsh_header E) (into_block f)),
      blk_txns = format_txns (keccak E) (borsh_header E),
      txn_hash = txn_format_hash (keccak E),
      blk_to_bytes = format_to_bytes E, blk_from_bytes = format_from_bytes E,
      txn_to_bytes = txn_format_to_bytes E, txn_from_bytes = txn_format_from_bytes E\<rparr>"

end
