(* ===== verification/Node_Cache.thy ===== *)
theory Node_Cache
  imports Node_Block
begin

text \<open>
  \<open>pkg/node/src/cache.rs\<close>: the last confirmed block and the blocks after it that the node has seen.
  \<open>H\<close> is the hash of a block. Heights are \<open>u64\<close>; the arithmetic of the release build wraps.
\<close>

record block_cache =
  ca_height :: u64
  ca_max_height :: u64
  ca_blocks :: "(crypto_hash \<times> block) list"
  ca_hash_heights :: "(u64 \<times> crypto_hash) list"
  ca_max_cache_size :: nat

definition cache_get_by_height :: "block_cache \<Rightarrow> u64 \<Rightarrow> block option" where
  "cache_get_by_height c h =
     (case map_of (ca_hash_heights c) h of None \<Rightarrow> None | Some x \<Rightarrow> map_of (ca_blocks c) x)"

text \<open>\<open>hash\<close>: \<open>None\<close> is the panic of \<open>unwrap\<close>.\<close>

definition cache_hash :: "block_cache \<Rightarrow> crypto_hash option" where
  "cache_hash c = map_of (ca_hash_heights c) (ca_height c)"

definition cache_remove :: "crypto_hash \<Rightarrow> block_cache \<Rightarrow> block_cache" where
  "cache_remove hash c =
     (case map_of (ca_blocks c) hash of
        None \<Rightarrow> c
      | Some b \<Rightarrow> c\<lparr>ca_blocks := AList.delete hash (ca_blocks c),
                  ca_hash_heights := bt_remove (block_height b) (ca_hash_heights c)\<rparr>)"

definition cache_insert :: "(block \<Rightarrow> crypto_hash) \<Rightarrow> block \<Rightarrow> block_cache \<Rightarrow> block_cache" where
  "cache_insert H b c =
     (let height = block_height b; hash = H b
      in if ca_height c > height then c
         else
           (let c = (if height > ca_max_height c then c\<lparr>ca_max_height := height\<rparr> else c);
                (max_height, max_hash) = (case bt_last (ca_hash_heights c) of None \<Rightarrow> (0, 0) | Some e \<Rightarrow> e);
                cache_at_capacity = length (ca_blocks c) \<ge> ca_max_cache_size c
            in if cache_at_capacity \<and> height > max_height then c
               else
                 (let c = (if cache_at_capacity then cache_remove max_hash c else c)
                  in c\<lparr>ca_hash_heights := bt_insert height hash (ca_hash_heights c),
                       ca_blocks := AList.update hash b (ca_blocks c)\<rparr>)))"

definition cache_new :: "(block \<Rightarrow> crypto_hash) \<Rightarrow> block \<Rightarrow> nat \<Rightarrow> block_cache" where
  "cache_new H start_block max_cache_size =
     cache_insert H start_block
       \<lparr>ca_height = block_height start_block, ca_max_height = block_height start_block, ca_blocks = [],
        ca_hash_heights = [], ca_max_cache_size = max_cache_size\<rparr>"

text \<open>The second loop of \<open>confirm\<close>.\<close>

definition drop_height :: "u64 \<Rightarrow> block_cache \<Rightarrow> block_cache" where
  "drop_height h c =
     (case map_of (ca_hash_heights c) h of
        None \<Rightarrow> c
      | Some hash \<Rightarrow> c\<lparr>ca_hash_heights := bt_remove h (ca_hash_heights c),
                     ca_blocks := AList.delete hash (ca_blocks c)\<rparr>)"

definition cache_confirm :: "u64 \<Rightarrow> block_cache \<Rightarrow> block_cache" where
  "cache_confirm height c =
     (let heights_to_remove = filter (\<lambda>h. h < height) (map fst (ca_hash_heights c))
      in fold drop_height heights_to_remove (c\<lparr>ca_height := height\<rparr>))"

definition cache_get_range :: "block_cache \<Rightarrow> u64 \<Rightarrow> u64 \<Rightarrow> block list" where
  "cache_get_range c start end' =
     List.map_filter (\<lambda>(_, x). map_of (ca_blocks c) x)
       (filter (\<lambda>(h, _). start \<le> h \<and> h < end') (ca_hash_heights c))"

text \<open>The heights of \<open>start..=end\<close>.\<close>

definition height_range :: "u64 \<Rightarrow> u64 \<Rightarrow> u64 list" where
  "height_range start end' = map word_of_nat [unat start..<Suc (unat end')]"

definition is_out_of_sync :: "block_cache \<Rightarrow> bool option" where
  "is_out_of_sync c =
     (case bt_last (ca_hash_heights c) of
        None \<Rightarrow> None
      | Some (key, _) \<Rightarrow>
          Some (if ca_max_height c > key then True
                else \<not> list_all (\<lambda>h. map_of (ca_hash_heights c) h \<noteq> None)
                       (height_range (ca_height c + 1) (ca_max_height c))))"

definition get_next_commit_block :: "block_cache \<Rightarrow> block option" where
  "get_next_commit_block c = cache_get_by_height c (ca_height c + 1)"

section \<open>The invariant\<close>

text \<open>
  Nothing is assumed of the hash: what needs that two blocks of different heights have different hashes
  says so of the blocks that were inserted, and ends otherwise in such a pair.
\<close>

definition heights_clash :: "(block \<Rightarrow> crypto_hash) \<Rightarrow> block set \<Rightarrow> bool" where
  "heights_clash H B \<longleftrightarrow> (\<exists>a \<in> B. \<exists>b \<in> B. H a = H b \<and> block_height a \<noteq> block_height b)"

lemma heights_clash_mono: "heights_clash H A \<Longrightarrow> A \<subseteq> B \<Longrightarrow> heights_clash H B"
  unfolding heights_clash_def by blast

lemma or_unless: "(\<not> P \<Longrightarrow> Q) \<Longrightarrow> P \<or> Q"
  by blast

text \<open>The blocks a cache holds.\<close>

definition cached :: "block_cache \<Rightarrow> block set" where
  "cached c = snd ` set (ca_blocks c)"

definition hash_new :: "(block \<Rightarrow> crypto_hash) \<Rightarrow> block \<Rightarrow> block_cache \<Rightarrow> bool" where
  "hash_new H b c \<longleftrightarrow> (\<forall>a \<in> cached c. H a = H b \<longrightarrow> block_height a = block_height b)"

lemma hash_newI: "\<not> heights_clash H B \<Longrightarrow> cached c \<subseteq> B \<Longrightarrow> b \<in> B \<Longrightarrow> hash_new H b c"
  unfolding heights_clash_def hash_new_def by blast

lemma hash_newD: "hash_new H b c \<Longrightarrow> map_of (ca_blocks c) x = Some a \<Longrightarrow> H a = H b \<Longrightarrow> block_height a = block_height b"
  unfolding hash_new_def cached_def using map_of_SomeD by force

definition cache_rep :: "(block \<Rightarrow> crypto_hash) \<Rightarrow> block_cache \<Rightarrow> bool" where
  "cache_rep H c \<longleftrightarrow>
     bt_ok (ca_hash_heights c) \<and> hm_ok (ca_blocks c)
     \<and> (\<forall>h x. (h, x) \<in> set (ca_hash_heights c) \<longrightarrow> h \<le> ca_max_height c
          \<and> (\<exists>b. map_of (ca_blocks c) x = Some b \<and> block_height b = h))
     \<and> (\<forall>x b. map_of (ca_blocks c) x = Some b \<longrightarrow> H b = x)
     \<and> length (ca_blocks c) \<le> ca_max_cache_size c + (if ca_hash_heights c = [] then 0 else 1)"

definition cache_ok :: "(block \<Rightarrow> crypto_hash) \<Rightarrow> block_cache \<Rightarrow> bool" where
  "cache_ok H c \<longleftrightarrow> cache_rep H c \<and> (\<forall>e \<in> set (ca_hash_heights c). ca_height c \<le> fst e)"

lemma cache_repI:
  assumes "bt_ok (ca_hash_heights c)" "hm_ok (ca_blocks c)"
    and "\<And>h x. (h, x) \<in> set (ca_hash_heights c) \<Longrightarrow> h \<le> ca_max_height c"
    and "\<And>h x. (h, x) \<in> set (ca_hash_heights c) \<Longrightarrow> \<exists>b. map_of (ca_blocks c) x = Some b \<and> block_height b = h"
    and "\<And>x b. map_of (ca_blocks c) x = Some b \<Longrightarrow> H b = x"
    and "length (ca_blocks c) \<le> ca_max_cache_size c + (if ca_hash_heights c = [] then 0 else 1)"
  shows "cache_rep H c"
  unfolding cache_rep_def
  by (intro conjI allI impI) (rule assms, assumption?)+

lemma cache_repD:
  assumes "cache_rep H c"
  shows "bt_ok (ca_hash_heights c)" "hm_ok (ca_blocks c)"
    and "(h, x) \<in> set (ca_hash_heights c) \<Longrightarrow> h \<le> ca_max_height c"
    and "(h, x) \<in> set (ca_hash_heights c) \<Longrightarrow> \<exists>b. map_of (ca_blocks c) x = Some b \<and> block_height b = h"
    and "map_of (ca_blocks c) x = Some b \<Longrightarrow> H b = x"
    and "length (ca_blocks c) \<le> ca_max_cache_size c + (if ca_hash_heights c = [] then 0 else 1)"
  using assms unfolding cache_rep_def by blast+

lemma length_delete: "hm_ok m \<Longrightarrow> map_of m k = Some v \<Longrightarrow> Suc (length (AList.delete k m)) = length m"
proof (induction m)
  case (Cons e m)
  obtain k' v' where e: "e = (k', v')" by (cases e)
  have ok: "hm_ok m" using Cons.prems(1) by (simp add: hm_ok_def)
  show ?case
  proof (cases "k' = k")
    case True
    then have "k \<notin> fst ` set m" using Cons.prems(1) e by (simp add: hm_ok_def)
    then have "AList.delete k m = m" by (simp add: delete_id)
    then show ?thesis using True e by simp
  next
    case False
    then have "map_of m k = Some v" using Cons.prems(2) e by (simp split: if_splits)
    then show ?thesis using Cons.IH ok False e by simp
  qed
qed simp

lemma length_update: "length (AList.update k v m) = (if map_of m k = None then Suc (length m) else length m)"
  by (induction m) auto

text \<open>Removing one block, with its height or without it, keeps the representation.\<close>

lemma delete_block_rep:
  assumes rep: "cache_rep H c" and b: "map_of (ca_blocks c) x = Some b"
  shows "cache_rep H (c\<lparr>ca_blocks := AList.delete x (ca_blocks c),
                       ca_hash_heights := bt_remove (block_height b) (ca_hash_heights c)\<rparr>)"
    and "length (AList.delete x (ca_blocks c)) < ca_max_cache_size c + 1"
proof -
  note rep' = cache_repD[OF rep]
  have len: "Suc (length (AList.delete x (ca_blocks c))) = length (ca_blocks c)"
    by (rule length_delete[OF rep'(2) b])
  have b': "y \<noteq> x" if "(h, y) \<in> set (ca_hash_heights c)" "h \<noteq> block_height b" for h y
    using rep'(4)[OF that(1)] b that(2) by auto
  show "length (AList.delete x (ca_blocks c)) < ca_max_cache_size c + 1"
    using len rep'(6) by (simp split: if_splits)
  show "cache_rep H (c\<lparr>ca_blocks := AList.delete x (ca_blocks c),
                       ca_hash_heights := bt_remove (block_height b) (ca_hash_heights c)\<rparr>)"
  proof (rule cache_repI)
    fix h y assume "(h, y) \<in> set (ca_hash_heights (c\<lparr>ca_blocks := AList.delete x (ca_blocks c),
                       ca_hash_heights := bt_remove (block_height b) (ca_hash_heights c)\<rparr>))"
    then have hy: "(h, y) \<in> set (ca_hash_heights c)" "h \<noteq> block_height b" by (auto simp: set_bt_remove)
    then show "h \<le> ca_max_height (c\<lparr>ca_blocks := AList.delete x (ca_blocks c),
                       ca_hash_heights := bt_remove (block_height b) (ca_hash_heights c)\<rparr>)"
      using rep'(3) by simp
    show "\<exists>b'. map_of (ca_blocks (c\<lparr>ca_blocks := AList.delete x (ca_blocks c),
                       ca_hash_heights := bt_remove (block_height b) (ca_hash_heights c)\<rparr>)) y = Some b'
               \<and> block_height b' = h"
      using rep'(4)[OF hy(1)] b'[OF hy] by (simp add: delete_conv')
  qed (use rep'(1,2,5,6) len in \<open>auto simp: delete_conv' split: if_splits\<close>)
qed

lemma cache_remove_rep: "cache_rep H c \<Longrightarrow> cache_rep H (cache_remove x c)"
  using delete_block_rep(1)[of H c x] by (auto simp: cache_remove_def split: option.split)

lemma cache_remove_ok: "cache_ok H c \<Longrightarrow> cache_ok H (cache_remove x c)"
  using cache_remove_rep[of H c x]
  by (auto simp: cache_ok_def cache_remove_def set_bt_remove split: option.split)

lemma drop_height_rep:
  assumes "cache_rep H c"
  shows "cache_rep H (drop_height h c)" "ca_hash_heights (drop_height h c) = bt_remove h (ca_hash_heights c)"
    "ca_height (drop_height h c) = ca_height c" "ca_max_cache_size (drop_height h c) = ca_max_cache_size c"
proof -
  show "cache_rep H (drop_height h c)"
  proof (cases "map_of (ca_hash_heights c) h")
    case (Some x)
    then have "(h, x) \<in> set (ca_hash_heights c)" by (rule map_of_SomeD)
    then obtain b where b: "map_of (ca_blocks c) x = Some b" "block_height b = h"
      using cache_repD(4)[OF assms] by blast
    have "drop_height h c = c\<lparr>ca_blocks := AList.delete x (ca_blocks c),
                       ca_hash_heights := bt_remove (block_height b) (ca_hash_heights c)\<rparr>"
      by (simp add: drop_height_def Some b(2))
    then show ?thesis using delete_block_rep(1)[OF assms b(1)] by simp
  qed (simp add: drop_height_def assms)
qed (auto simp: drop_height_def bt_remove_absent split: option.split)

lemma drop_heights_rep:
  assumes "cache_rep H c"
  shows "cache_rep H (fold drop_height hs c)
     \<and> set (ca_hash_heights (fold drop_height hs c)) = {e \<in> set (ca_hash_heights c). fst e \<notin> set hs}
     \<and> ca_height (fold drop_height hs c) = ca_height c
     \<and> ca_max_cache_size (fold drop_height hs c) = ca_max_cache_size c"
  using assms
proof (induction hs arbitrary: c)
  case (Cons h hs)
  then show ?case using Cons.IH[OF drop_height_rep(1)[OF Cons.prems, of h]] drop_height_rep(2-4)[OF Cons.prems, of h]
    by (auto simp: set_bt_remove)
qed simp

lemma cache_confirm_set:
  assumes "cache_rep H c"
  shows "cache_rep H (cache_confirm h c)"
    "set (ca_hash_heights (cache_confirm h c)) = {e \<in> set (ca_hash_heights c). h \<le> fst e}"
    "ca_height (cache_confirm h c) = h" "ca_max_cache_size (cache_confirm h c) = ca_max_cache_size c"
proof -
  have rep: "cache_rep H (c\<lparr>ca_height := h\<rparr>)" using assms by (simp add: cache_rep_def)
  note drop = drop_heights_rep[OF rep, of "filter (\<lambda>k. k < h) (map fst (ca_hash_heights c))"]
  show "cache_rep H (cache_confirm h c)" "ca_height (cache_confirm h c) = h"
    "ca_max_cache_size (cache_confirm h c) = ca_max_cache_size c"
    using drop by (simp_all add: cache_confirm_def)
  show "set (ca_hash_heights (cache_confirm h c)) = {e \<in> set (ca_hash_heights c). h \<le> fst e}"
    using drop unfolding cache_confirm_def Let_def by (force simp: not_less)
qed

lemma cache_confirm_ok: "cache_ok H c \<Longrightarrow> cache_ok H (cache_confirm h c)"
  using cache_confirm_set[of H c h] by (auto simp: cache_ok_def)

lemma put_block_rep:
  assumes rep: "cache_rep H c" and H: "hash_new H b c"
    and le: "block_height b \<le> ca_max_height c" and room: "length (ca_blocks c) \<le> ca_max_cache_size c"
  shows "cache_rep H (c\<lparr>ca_hash_heights := bt_insert (block_height b) (H b) (ca_hash_heights c),
                       ca_blocks := AList.update (H b) b (ca_blocks c)\<rparr>)" (is "cache_rep H ?c")
proof (rule cache_repI)
  note rep' = cache_repD[OF rep]
  fix h x assume hx: "(h, x) \<in> set (ca_hash_heights ?c)"
  then have hx': "(h, x) = (block_height b, H b) \<or> (h, x) \<in> set (ca_hash_heights c)"
    by (simp add: set_bt_insert[OF rep'(1)]) blast
  show "h \<le> ca_max_height ?c" using hx' le rep'(3)[of h x] by auto
  show "\<exists>b'. map_of (ca_blocks ?c) x = Some b' \<and> block_height b' = h"
  proof (cases "x = H b")
    case True
    have "block_height b = h" if mem: "(h, x) \<in> set (ca_hash_heights c)"
    proof -
      obtain b' where "map_of (ca_blocks c) x = Some b'" "block_height b' = h" using rep'(4)[OF mem] by blast
      then show ?thesis using rep'(5)[of x b'] True hash_newD[OF H] by metis
    qed
    then show ?thesis using True hx' by (auto simp: update_conv')
  next
    case False
    then show ?thesis using hx' rep'(4)[of h x] by (auto simp: update_conv')
  qed
next
  fix x b' assume "map_of (ca_blocks ?c) x = Some b'"
  then show "H b' = x" using cache_repD(5)[OF rep, of x b'] by (auto simp: update_conv' split: if_splits)
qed (use cache_repD(1,2)[OF rep] room in \<open>auto simp: length_update hm_ok_def distinct_update\<close>)

definition cache_max_entry :: "block_cache \<Rightarrow> u64 \<times> crypto_hash" where
  "cache_max_entry c = (case bt_last (ca_hash_heights c) of None \<Rightarrow> (0, 0) | Some e \<Rightarrow> e)"

definition cache_full :: "block_cache \<Rightarrow> bool" where
  "cache_full c \<longleftrightarrow> length (ca_blocks c) \<ge> ca_max_cache_size c"

definition cache_see :: "u64 \<Rightarrow> block_cache \<Rightarrow> block_cache" where
  "cache_see h c = c\<lparr>ca_max_height := max h (ca_max_height c)\<rparr>"

definition cache_make_room :: "block_cache \<Rightarrow> block_cache" where
  "cache_make_room c = (if cache_full c then cache_remove (snd (cache_max_entry c)) c else c)"

definition cache_put :: "(block \<Rightarrow> crypto_hash) \<Rightarrow> block \<Rightarrow> block_cache \<Rightarrow> block_cache" where
  "cache_put H b c = c\<lparr>ca_hash_heights := bt_insert (block_height b) (H b) (ca_hash_heights c),
                      ca_blocks := AList.update (H b) b (ca_blocks c)\<rparr>"

lemma cache_insert_eq:
  "cache_insert H b c =
     (if ca_height c > block_height b then c
      else if cache_full c \<and> block_height b > fst (cache_max_entry c) then cache_see (block_height b) c
      else cache_put H b (cache_make_room (cache_see (block_height b) c)))"
proof -
  obtain m x where e: "cache_max_entry c = (m, x)" by fastforce
  have see: "(if block_height b > ca_max_height c then c\<lparr>ca_max_height := block_height b\<rparr> else c)
    = cache_see (block_height b) c"
    by (simp add: cache_see_def max_def)
  have e': "cache_max_entry (cache_see (block_height b) c) = (m, x)" using e by (simp add: cache_max_entry_def cache_see_def)
  show ?thesis
    using e' e
    unfolding cache_insert_def Let_def see cache_max_entry_def[symmetric] e' cache_make_room_def cache_put_def
    by (simp add: cache_full_def cache_see_def)
qed

lemma cache_see_ok: "cache_ok H c \<Longrightarrow> cache_ok H (cache_see h c)"
  unfolding cache_ok_def cache_see_def
  by (auto intro!: cache_repI dest: cache_repD simp: le_max_iff_disj)

text \<open>After making room there is a free place, or nothing is kept.\<close>

lemma cache_make_room_ok:
  assumes "cache_ok H c"
  shows "cache_ok H (cache_make_room c)" "length (ca_blocks (cache_make_room c)) \<le> ca_max_cache_size c"
    "ca_max_cache_size (cache_make_room c) = ca_max_cache_size c"
    "ca_height (cache_make_room c) = ca_height c" "ca_max_height (cache_make_room c) = ca_max_height c"
    "ca_hash_heights (cache_make_room c) =
       (if cache_full c then bt_remove (fst (cache_max_entry c)) (ca_hash_heights c) else ca_hash_heights c)"
proof -
  have rep: "cache_rep H c" using assms by (simp add: cache_ok_def)
  note rep' = cache_repD[OF rep]
  show "cache_ok H (cache_make_room c)" by (simp add: cache_make_room_def cache_remove_ok assms)
  show "ca_max_cache_size (cache_make_room c) = ca_max_cache_size c"
    "ca_height (cache_make_room c) = ca_height c" "ca_max_height (cache_make_room c) = ca_max_height c"
    by (simp_all add: cache_make_room_def cache_remove_def split: option.split)
  show "length (ca_blocks (cache_make_room c)) \<le> ca_max_cache_size c"
    and "ca_hash_heights (cache_make_room c) =
       (if cache_full c then bt_remove (fst (cache_max_entry c)) (ca_hash_heights c) else ca_hash_heights c)"
  proof (atomize (full), cases "bt_last (ca_hash_heights c)")
    case None
    then have e: "ca_hash_heights c = []" by simp
    then have "length (ca_blocks c) \<le> ca_max_cache_size c" using rep'(6) by simp
    moreover have "length (AList.delete x (ca_blocks c)) \<le> length (ca_blocks c)" for x
      by (rule length_delete_le)
    ultimately show "length (ca_blocks (cache_make_room c)) \<le> ca_max_cache_size c \<and> ca_hash_heights (cache_make_room c) =
       (if cache_full c then bt_remove (fst (cache_max_entry c)) (ca_hash_heights c) else ca_hash_heights c)"
      using e by (auto simp: cache_make_room_def cache_remove_def bt_remove_def split: option.split intro: order_trans)
  next
    case (Some e)
    then obtain m x where e: "bt_last (ca_hash_heights c) = Some (m, x)" by (cases e) auto
    then have "(m, x) \<in> set (ca_hash_heights c)" by (rule bt_last_in)
    then obtain b where b: "map_of (ca_blocks c) x = Some b" "block_height b = m" using rep'(4) by blast
    have "length (AList.delete x (ca_blocks c)) < ca_max_cache_size c + 1" by (rule delete_block_rep(2)[OF rep b(1)])
    then show "length (ca_blocks (cache_make_room c)) \<le> ca_max_cache_size c \<and> ca_hash_heights (cache_make_room c) =
       (if cache_full c then bt_remove (fst (cache_max_entry c)) (ca_hash_heights c) else ca_hash_heights c)"
      using b by (simp add: cache_make_room_def cache_max_entry_def e cache_remove_def cache_full_def)
  qed
qed

lemma ca_blocks_remove: "set (ca_blocks (cache_remove x c)) \<subseteq> set (ca_blocks c)"
  by (auto simp: cache_remove_def AList.delete_eq split: option.split)

lemma ca_blocks_confirm: "set (ca_blocks (cache_confirm h c)) \<subseteq> set (ca_blocks c)"
proof -
  have "set (ca_blocks (fold drop_height hs d)) \<subseteq> set (ca_blocks d)" for hs d
  proof (induction hs arbitrary: d)
    case (Cons k hs)
    have "set (ca_blocks (drop_height k d)) \<subseteq> set (ca_blocks d)"
      by (auto simp: drop_height_def AList.delete_eq split: option.split)
    then show ?case using Cons.IH[of "drop_height k d"] by simp
  qed simp
  from this[of _ "c\<lparr>ca_height := h\<rparr>"] show ?thesis by (simp add: cache_confirm_def)
qed

lemma ca_blocks_room: "set (ca_blocks (cache_make_room (cache_see h c))) \<subseteq> set (ca_blocks c)"
  using ca_blocks_remove[of _ "cache_see h c"] by (auto simp: cache_make_room_def cache_see_def)

lemma set_update_subset: "set (AList.update k v m) \<subseteq> insert (k, v) (set m)"
  by (induction m) auto

lemma ca_blocks_insert: "set (ca_blocks (cache_insert H b c)) \<subseteq> insert (H b, b) (set (ca_blocks c))"
  using ca_blocks_room[of "block_height b" c]
    set_update_subset[of "H b" b "ca_blocks (cache_make_room (cache_see (block_height b) c))"]
  by (auto simp: cache_insert_eq cache_put_def cache_see_def)

lemma cached_insert: "cached (cache_insert H b c) \<subseteq> insert b (cached c)"
  unfolding cached_def using image_mono[OF ca_blocks_insert[of H b c], of snd] by simp

lemma cached_remove: "cached (cache_remove x c) \<subseteq> cached c"
  unfolding cached_def by (rule image_mono[OF ca_blocks_remove])

lemma cached_confirm: "cached (cache_confirm h c) \<subseteq> cached c"
  unfolding cached_def by (rule image_mono[OF ca_blocks_confirm])

lemma hash_new_room: "hash_new H b c \<Longrightarrow> hash_new H b (cache_make_room (cache_see h c))"
  unfolding hash_new_def cached_def using ca_blocks_room[of h c] by blast

lemma cache_insert_ok:
  assumes ok: "cache_ok H c" and H: "hash_new H b c"
  shows "cache_ok H (cache_insert H b c)"
proof -
  define d where "d = cache_see (block_height b) c"
  have d: "cache_ok H d" "block_height b \<le> ca_max_height d" "ca_height d = ca_height c"
    "ca_max_cache_size d = ca_max_cache_size c"
    using cache_see_ok[OF ok] by (simp_all add: d_def cache_see_def)
  note room = cache_make_room_ok[OF d(1)]
  have "cache_rep H (cache_put H b (cache_make_room d))"
    unfolding cache_put_def using room d hash_new_room[OF H]
    by (intro put_block_rep) (simp_all add: cache_ok_def d_def)
  moreover have "\<forall>e \<in> set (ca_hash_heights (cache_put H b (cache_make_room d))). ca_height c \<le> fst e"
    if "\<not> ca_height c > block_height b"
    using room(1,4) d(3) that cache_repD(1)[of H "cache_make_room d"]
    by (auto simp: cache_put_def cache_ok_def set_bt_insert not_less)
  ultimately show ?thesis
    using ok d(1,3) room(4) unfolding cache_insert_eq d_def[symmetric] by (auto simp: cache_ok_def cache_put_def)
qed

section \<open>Reachable caches\<close>

text \<open>The list holds the blocks that were inserted.\<close>

inductive cache_reach :: "(block \<Rightarrow> crypto_hash) \<Rightarrow> nat \<Rightarrow> block list \<Rightarrow> block_cache \<Rightarrow> bool" for H n where
  new: "cache_reach H n [b] (cache_new H b n)"
| insert: "cache_reach H n bs c \<Longrightarrow> cache_reach H n (b # bs) (cache_insert H b c)"
| confirm: "cache_reach H n bs c \<Longrightarrow> cache_reach H n bs (cache_confirm h c)"
| remove: "cache_reach H n bs c \<Longrightarrow> cache_reach H n bs (cache_remove x c)"

lemma cache_max_size_insert: "ca_max_cache_size (cache_insert H b c) = ca_max_cache_size c"
  by (simp add: cache_insert_eq cache_put_def cache_make_room_def cache_see_def cache_remove_def split: option.split)

lemma cache_new_ok: "cache_ok H (cache_new H b n)"
proof -
  have "cache_ok H \<lparr>ca_height = block_height b, ca_max_height = block_height b, ca_blocks = [],
        ca_hash_heights = [], ca_max_cache_size = n\<rparr>"
    by (simp add: cache_ok_def cache_rep_def hm_ok_def)
  then show ?thesis unfolding cache_new_def by (rule cache_insert_ok) (simp add: hash_new_def cached_def)
qed

lemma cache_reach_blocks: "cache_reach H n bs c \<Longrightarrow> cached c \<subseteq> set bs"
proof (induction rule: cache_reach.induct)
  case (new b)
  have "cached (cache_new H b n) \<subseteq> insert b {}"
    unfolding cache_new_def by (rule order_trans[OF cached_insert]) (simp add: cached_def)
  then show ?case by simp
next
  case (insert bs c b)
  then show ?case using cached_insert[of H b c] by auto
qed (use cached_confirm cached_remove in blast)+

lemma cache_reach_ok:
  assumes "cache_reach H n bs c" "\<not> heights_clash H (set bs)"
  shows "cache_ok H c \<and> ca_max_cache_size c = n"
  using assms
proof induction
  case (new b)
  show ?case by (simp add: cache_new_ok) (simp add: cache_new_def cache_max_size_insert)
next
  case (insert bs c b)
  have "\<not> heights_clash H (set bs)" using insert.prems heights_clash_mono[of H "set bs" "set (b # bs)"] by auto
  moreover have "hash_new H b c"
    using hash_newI[OF insert.prems] cache_reach_blocks[OF insert.hyps] by auto
  ultimately show ?case using insert.IH by (simp add: cache_insert_ok cache_max_size_insert)
next
  case (confirm bs c h)
  then have "cache_rep H c" by (simp add: cache_ok_def)
  then show ?case using confirm cache_confirm_ok[of H c h] cache_confirm_set(4)[of H c h] by simp
next
  case (remove bs c x)
  have "ca_max_cache_size (cache_remove x c) = ca_max_cache_size c"
    by (simp add: cache_remove_def split: option.split)
  then show ?case using remove by (simp add: cache_remove_ok)
qed

lemma cache_lookup:
  assumes "cache_ok H c"
  shows "cache_get_by_height c h = Some b \<Longrightarrow> block_height b = h \<and> ca_height c \<le> h \<and> h \<le> ca_max_height c"
    and "cache_get_by_height c h = None \<longleftrightarrow> h \<notin> fst ` set (ca_hash_heights c)"
proof -
  have rep: "cache_rep H c" using assms by (simp add: cache_ok_def)
  have found: "\<exists>b. cache_get_by_height c h = Some b \<and> block_height b = h \<and> ca_height c \<le> h \<and> h \<le> ca_max_height c"
    if x: "map_of (ca_hash_heights c) h = Some x" for x
  proof -
    have mem: "(h, x) \<in> set (ca_hash_heights c)" using x by (rule map_of_SomeD)
    have "ca_height c \<le> h" using assms mem unfolding cache_ok_def by force
    moreover have "h \<le> ca_max_height c" using cache_repD(3)[OF rep mem] .
    moreover obtain b where "map_of (ca_blocks c) x = Some b" "block_height b = h"
      using cache_repD(4)[OF rep mem] by blast
    ultimately show ?thesis using x by (simp add: cache_get_by_height_def)
  qed
  show "cache_get_by_height c h = Some b \<Longrightarrow> block_height b = h \<and> ca_height c \<le> h \<and> h \<le> ca_max_height c"
    using found by (cases "map_of (ca_hash_heights c) h") (auto simp: cache_get_by_height_def)
  show "cache_get_by_height c h = None \<longleftrightarrow> h \<notin> fst ` set (ca_hash_heights c)"
  proof (cases "map_of (ca_hash_heights c) h")
    case None
    then have "cache_get_by_height c h = None" by (simp add: cache_get_by_height_def)
    then show ?thesis using None by (simp add: map_of_eq_None_iff)
  next
    case (Some x)
    then have "h \<in> fst ` set (ca_hash_heights c)" by (metis map_of_eq_None_iff option.discI)
    then show ?thesis using found[OF Some] by auto
  qed
qed

lemma heights_le_blocks:
  assumes "cache_ok H c"
  shows "length (ca_hash_heights c) \<le> length (ca_blocks c)"
proof -
  have rep: "cache_rep H c" using assms by (simp add: cache_ok_def)
  have d: "distinct (ca_hash_heights c)" using bt_ok_distinct[OF cache_repD(1)[OF rep]] by (simp add: distinct_map)
  have "inj_on snd (set (ca_hash_heights c))"
  proof (rule inj_onI, clarsimp)
    fix h x k assume "(h, x) \<in> set (ca_hash_heights c)" "(k, x) \<in> set (ca_hash_heights c)"
    then show "h = k" using cache_repD(4)[OF rep, of h x] cache_repD(4)[OF rep, of k x] by auto
  qed
  moreover have "snd ` set (ca_hash_heights c) \<subseteq> fst ` set (ca_blocks c)"
  proof clarsimp
    fix h x assume "(h, x) \<in> set (ca_hash_heights c)"
    then obtain b where "map_of (ca_blocks c) x = Some b" using cache_repD(4)[OF rep] by blast
    then have "(x, b) \<in> set (ca_blocks c)" by (rule map_of_SomeD)
    then show "x \<in> fst ` set (ca_blocks c)" by force
  qed
  ultimately have "card (set (ca_hash_heights c)) \<le> card (fst ` set (ca_blocks c))"
    by (rule card_inj_on_le) simp
  also have "\<dots> \<le> length (ca_blocks c)" by (metis card_length length_map list.set_map)
  finally show ?thesis using d by (simp add: distinct_card)
qed

text \<open>
  C27: a cache of size \<open>n\<close> never holds more than \<open>n + 1\<close> blocks, whatever is inserted into it, confirmed
  and removed from it; a block found by a height has this height, and the heights lie between the
  confirmed one and the greatest one seen. Otherwise two of the blocks inserted have different heights
  and the same hash.
\<close>

theorem cache_bounded:
  assumes "cache_reach H n bs c"
  shows "heights_clash H (set bs) \<or> length (ca_blocks c) \<le> n + 1 \<and> length (ca_hash_heights c) \<le> length (ca_blocks c)
    \<and> (\<forall>h b. cache_get_by_height c h = Some b \<longrightarrow> block_height b = h \<and> ca_height c \<le> h \<and> h \<le> ca_max_height c)
    \<and> (\<forall>h. h \<in> fst ` set (ca_hash_heights c) \<longleftrightarrow> cache_get_by_height c h \<noteq> None)"
proof (cases "heights_clash H (set bs)")
  case False
  have ok: "cache_ok H c" "ca_max_cache_size c = n" using cache_reach_ok[OF assms False] by simp_all
  have "length (ca_blocks c) \<le> n + 1"
    using cache_repD(6)[of H c] ok by (auto simp: cache_ok_def split: if_splits)
  moreover have "\<forall>h b. cache_get_by_height c h = Some b \<longrightarrow>
      block_height b = h \<and> ca_height c \<le> h \<and> h \<le> ca_max_height c"
    by (intro allI impI cache_lookup(1)[OF ok(1)])
  ultimately show ?thesis using heights_le_blocks[OF ok(1)] cache_lookup(2)[OF ok(1)] by simp
qed simp

text \<open>Blocks for the concrete inputs: one of each height, hashed to the height.\<close>

definition sample_block :: "u64 \<Rightarrow> crypto_hash \<Rightarrow> block" where
  "sample_block h parent = genesis\<lparr>b_content := content_genesis\<lparr>bc_header := bc_header content_genesis
     \<lparr>bh_height := h, bh_last_block_hash := parent\<rparr>\<rparr>\<rparr>"

definition sample_block_hash :: "block \<Rightarrow> crypto_hash" where
  "sample_block_hash b = or (ucast (block_height b)) (push_bit 64 (bh_last_block_hash (bc_header (b_content b))))"

lemma sample_block_hash_ok: "\<not> heights_clash sample_block_hash B"
proof -
  have "ucast (sample_block_hash b) = block_height b" for b
    unfolding sample_block_hash_def by (rule bit_word_eqI) (auto simp: bit_simps)
  then show ?thesis unfolding heights_clash_def by metis
qed

theorem cache_bounded_witness:
  "length (ca_blocks (cache_confirm 8 (cache_insert sample_block_hash (sample_block 8 0)
     (cache_new sample_block_hash (sample_block 7 0) 1)))) \<le> 1 + 1"
proof -
  have "cache_reach sample_block_hash 1 [sample_block 8 0, sample_block 7 0]
     (cache_confirm 8 (cache_insert sample_block_hash (sample_block 8 0)
       (cache_new sample_block_hash (sample_block 7 0) 1)))"
    by (intro cache_reach.intros)
  then show ?thesis using cache_bounded sample_block_hash_ok by blast
qed

section \<open>The cache as a map from heights\<close>

lemma lookup_put:
  assumes "cache_ok H c" "hash_new H b c"
  shows "cache_get_by_height (cache_put H b c) = (cache_get_by_height c)(block_height b \<mapsto> b)"
proof
  fix h
  have rep: "cache_rep H c" using assms(1) by (simp add: cache_ok_def)
  show "cache_get_by_height (cache_put H b c) h = ((cache_get_by_height c)(block_height b \<mapsto> b)) h"
  proof (cases "h = block_height b")
    case True
    then show ?thesis by (simp add: cache_get_by_height_def cache_put_def update_conv')
  next
    case False
    have "x \<noteq> H b" if "map_of (ca_hash_heights c) h = Some x" for x
    proof -
      have "(h, x) \<in> set (ca_hash_heights c)" using that by (rule map_of_SomeD)
      then obtain b' where "map_of (ca_blocks c) x = Some b'" "block_height b' = h"
        using cache_repD(4)[OF rep] by blast
      then show "x \<noteq> H b" using cache_repD(5)[OF rep, of x b'] False hash_newD[OF assms(2)] by metis
    qed
    then show ?thesis using False
      by (auto simp: cache_get_by_height_def cache_put_def update_conv' split: option.split)
  qed
qed

lemma lookup_remove:
  assumes "cache_ok H c" "map_of (ca_hash_heights c) m = Some x"
  shows "cache_get_by_height (cache_remove x c) = (cache_get_by_height c)(m := None)"
proof
  fix h
  have rep: "cache_rep H c" using assms(1) by (simp add: cache_ok_def)
  obtain b where b: "map_of (ca_blocks c) x = Some b" "block_height b = m"
    using cache_repD(4)[OF rep map_of_SomeD[OF assms(2)]] by auto
  show "cache_get_by_height (cache_remove x c) h = ((cache_get_by_height c)(m := None)) h"
  proof (cases "h = m")
    case False
    have "y \<noteq> x" if y: "map_of (ca_hash_heights c) h = Some y" for y
      using cache_repD(4)[OF rep map_of_SomeD[OF y]] b False by auto
    then show ?thesis using b False
      by (auto simp: cache_get_by_height_def cache_remove_def delete_conv' split: option.split)
  qed (simp add: cache_get_by_height_def cache_remove_def b)
qed

lemma lookup_make_room:
  assumes "cache_ok H c"
  shows "cache_get_by_height (cache_make_room c) =
    (case bt_last (ca_hash_heights c) of None \<Rightarrow> cache_get_by_height c
     | Some (m, x) \<Rightarrow> if cache_full c then (cache_get_by_height c)(m := None) else cache_get_by_height c)"
proof (cases "bt_last (ca_hash_heights c)")
  case None
  then have "ca_hash_heights c = []" "ca_hash_heights (cache_make_room c) = []"
    using cache_make_room_ok(6)[OF assms] by (simp_all add: bt_remove_def)
  then have "cache_get_by_height (cache_make_room c) = cache_get_by_height c"
    by (simp add: fun_eq_iff cache_get_by_height_def)
  then show ?thesis by (simp only: None option.case)
next
  case (Some e)
  then obtain m x where e: "bt_last (ca_hash_heights c) = Some (m, x)" by (cases e) auto
  have "map_of (ca_hash_heights c) m = Some x"
    using bt_last_in[OF e] bt_ok_map_of[of "ca_hash_heights c"] cache_repD(1)[of H c] assms
    by (simp add: cache_ok_def)
  then show ?thesis
    using lookup_remove[OF assms] by (simp add: e cache_make_room_def cache_max_entry_def)
qed

lemma lookup_see: "cache_get_by_height (cache_see h c) = cache_get_by_height c"
  by (rule ext) (simp add: cache_get_by_height_def cache_see_def split: option.split)

lemma lookup_confirm:
  assumes "cache_ok H c"
  shows "cache_get_by_height (cache_confirm h c) k = (if h \<le> k then cache_get_by_height c k else None)"
proof -
  have rep: "cache_rep H c" using assms by (simp add: cache_ok_def)
  note conf = cache_confirm_set[OF rep, of h]
  have ok: "cache_ok H (cache_confirm h c)" using assms by (rule cache_confirm_ok)
  have blocks: "map_of (ca_blocks (fold drop_height hs d)) x = map_of (ca_blocks d) x"
    if "cache_rep H d" "(k, x) \<in> set (ca_hash_heights d)" "k \<notin> set hs" for hs d x
    using that
  proof (induction hs arbitrary: d)
    case (Cons j hs)
    have "map_of (ca_blocks (drop_height j d)) x = map_of (ca_blocks d) x"
    proof (cases "map_of (ca_hash_heights d) j")
      case (Some y)
      have "y \<noteq> x"
        using cache_repD(4)[OF Cons.prems(1) map_of_SomeD[OF Some]] cache_repD(4)[OF Cons.prems(1,2)] Cons.prems(3) by auto
      then show ?thesis using Some by (simp add: drop_height_def delete_conv')
    qed (simp add: drop_height_def)
    then show ?case
      using Cons.IH[OF drop_height_rep(1)[OF Cons.prems(1), of j]] Cons.prems(2,3)
        drop_height_rep(2)[OF Cons.prems(1), of j] by (simp add: set_bt_remove)
  qed simp
  show ?thesis
  proof (cases "cache_get_by_height (cache_confirm h c) k")
    case None
    then show ?thesis using cache_lookup(2)[OF ok, of k] cache_lookup(2)[OF assms, of k] conf(2) by force
  next
    case (Some b)
    then obtain x where x: "map_of (ca_hash_heights (cache_confirm h c)) k = Some x"
        "map_of (ca_blocks (cache_confirm h c)) x = Some b"
      by (auto simp: cache_get_by_height_def split: option.splits)
    have mem: "(k, x) \<in> set (ca_hash_heights c)" "h \<le> k" using map_of_SomeD[OF x(1)] conf(2) by auto
    then have "map_of (ca_hash_heights c) k = Some x" using bt_ok_map_of[OF cache_repD(1)[OF rep]] by simp
    moreover have "map_of (ca_blocks c) x = Some b"
      using blocks[of "c\<lparr>ca_height := h\<rparr>" x "filter (\<lambda>k. k < h) (map fst (ca_hash_heights c))"] x(2) mem rep
      by (simp add: cache_confirm_def cache_rep_def not_less)
    ultimately show ?thesis using mem(2) Some by (simp add: cache_get_by_height_def)
  qed
qed

text \<open>The specification: a partial map from heights to blocks.\<close>

definition spec_insert :: "bool \<Rightarrow> u64 \<Rightarrow> block \<Rightarrow> (u64 \<Rightarrow> block option) \<Rightarrow> u64 \<Rightarrow> block option" where
  "spec_insert full low b m =
     (if block_height b < low \<or> full \<and> dom m \<noteq> {} \<and> (\<forall>h \<in> dom m. h < block_height b) then m
      else if full \<and> dom m \<noteq> {} then (m(Max (dom m) := None))(block_height b \<mapsto> b)
      else if full \<and> 0 < block_height b then m
      else m(block_height b \<mapsto> b))"

lemma cache_dom: "cache_ok H c \<Longrightarrow> dom (cache_get_by_height c) = fst ` set (ca_hash_heights c)"
  using cache_lookup(2)[of H c] by (auto simp: dom_def)

lemma cache_max_key:
  assumes "cache_ok H c" "bt_last (ca_hash_heights c) = Some (m, x)"
  shows "m \<in> dom (cache_get_by_height c)" "m = Max (dom (cache_get_by_height c))"
    "(\<forall>h \<in> dom (cache_get_by_height c). h < k) \<longleftrightarrow> m < k"
proof -
  have bt: "bt_ok (ca_hash_heights c)" using assms(1) cache_repD(1)[of H c] by (simp add: cache_ok_def)
  show m: "m \<in> dom (cache_get_by_height c)" using imageI[OF bt_last_in[OF assms(2)], of fst] by (simp add: cache_dom[OF assms(1)])
  have le: "h \<le> m" if "h \<in> dom (cache_get_by_height c)" for h
    using that bt_last_greatest[OF bt assms(2)] by (auto simp: cache_dom[OF assms(1)])
  then show "m = Max (dom (cache_get_by_height c))"
    using m by (intro Max_eqI[symmetric]) (simp_all add: cache_dom[OF assms(1)])
  show "(\<forall>h \<in> dom (cache_get_by_height c). h < k) \<longleftrightarrow> m < k" using m le by (meson le_less_trans)
qed

text \<open>
  C26: \<open>insert\<close> and \<open>confirm\<close> refine the operations of a partial map from heights to blocks: an insertion
  sets the height of the block and gives up the greatest height of a full cache, or changes nothing;
  \<open>confirm\<close> keeps the heights from the confirmed one on. Otherwise two of the blocks inserted have
  different heights and the same hash.
\<close>

theorem cache_refines:
  assumes reach: "cache_reach H n bs c"
  shows "heights_clash H (set (b # bs))
    \<or> cache_get_by_height (cache_insert H b c) =
        spec_insert (n \<le> length (ca_blocks c)) (ca_height c) b (cache_get_by_height c)
      \<and> cache_get_by_height (cache_confirm h c) = (\<lambda>k. if h \<le> k then cache_get_by_height c k else None)"
proof (rule or_unless, intro conjI)
  assume H: "\<not> heights_clash H (set (b # bs))"
  then have "\<not> heights_clash H (set bs)" using heights_clash_mono[of H "set bs" "set (b # bs)"] by auto
  then have ok: "cache_ok H c" and n: "ca_max_cache_size c = n" using cache_reach_ok[OF reach] by simp_all
  have new: "hash_new H b c" using hash_newI[OF H] cache_reach_blocks[OF reach] by auto
  show "cache_get_by_height (cache_confirm h c) = (\<lambda>k. if h \<le> k then cache_get_by_height c k else None)"
    by (rule ext) (rule lookup_confirm[OF ok])
  define d where "d = cache_see (block_height b) c"
  have d: "cache_ok H d" "ca_hash_heights d = ca_hash_heights c" "cache_full d = cache_full c"
      "cache_full c \<longleftrightarrow> n \<le> length (ca_blocks c)"
    using cache_see_ok[OF ok] n by (simp_all add: d_def cache_see_def cache_full_def)
  have d': "cache_get_by_height d = cache_get_by_height c" by (simp only: d_def lookup_see)
  have put: "cache_get_by_height (cache_put H b (cache_make_room d))
      = (cache_get_by_height (cache_make_room d))(block_height b \<mapsto> b)"
    using lookup_put[OF cache_make_room_ok(1)[OF d(1)]] hash_new_room[OF new, of "block_height b"] by (simp add: d_def)
  show "cache_get_by_height (cache_insert H b c) =
      spec_insert (n \<le> length (ca_blocks c)) (ca_height c) b (cache_get_by_height c)"
  proof (cases "bt_last (ca_hash_heights c)")
    case None
    have "dom (cache_get_by_height c) = {}" using None by (simp add: cache_dom[OF ok])
    moreover have "cache_max_entry c = (0, 0)" by (simp only: cache_max_entry_def None option.case)
    ultimately show ?thesis
      using put d d' lookup_make_room[OF d(1)] None
      unfolding cache_insert_eq d_def[symmetric] spec_insert_def by (simp del: bt_last_None)
  next
    case (Some e)
    then obtain m x where e: "bt_last (ca_hash_heights c) = Some (m, x)" by (cases e) auto
    have "dom (cache_get_by_height c) \<noteq> {}" "m = Max (dom (cache_get_by_height c))"
      "(\<forall>h \<in> dom (cache_get_by_height c). h < block_height b) \<longleftrightarrow> m < block_height b"
      using cache_max_key[OF ok e] by blast+
    moreover have "fst (cache_max_entry c) = m" by (simp add: cache_max_entry_def e)
    ultimately show ?thesis
      using put d d' lookup_make_room[OF d(1)] e
      unfolding cache_insert_eq d_def[symmetric] spec_insert_def by simp
  qed
qed

theorem cache_refines_witness:
  "cache_get_by_height (cache_insert sample_block_hash (sample_block 8 0) (cache_new sample_block_hash (sample_block 7 0) 2)) 8
     = Some (sample_block 8 0)"
proof -
  have "length (ca_blocks (cache_new sample_block_hash (sample_block 7 0) 2)) = 1"
      "ca_height (cache_new sample_block_hash (sample_block 7 0) 2) = 7"
    by (simp_all add: cache_new_def cache_insert_def sample_block_def genesis_def content_genesis_def Let_def)
  then show ?thesis
    using cache_refines[OF cache_reach.new[of sample_block_hash 2 "sample_block 7 0"], of "sample_block 8 0"]
    by (simp add: spec_insert_def sample_block_def sample_block_hash_ok)
qed

text \<open>
  C28: when a full cache knows no height but the confirmed one, the node starves: no insertion of later
  blocks ever makes the next block available. The cache gets full of blocks without a height because a
  second block of a height replaces the entry of the first in the index but not its block.
\<close>

theorem full_cache_starves:
  assumes "ca_max_cache_size c \<le> length (ca_blocks c)" "map fst (ca_hash_heights c) = [ca_height c]"
    "\<forall>b \<in> set bs. ca_height c < block_height b"
  shows "get_next_commit_block (fold (cache_insert H) bs c) = None"
proof -
  have "\<exists>m. fold (cache_insert H) bs c = c\<lparr>ca_max_height := m\<rparr>"
    using assms
  proof (induction bs arbitrary: c)
    case Nil
    show ?case by (rule exI[of _ "ca_max_height c"]) simp
  next
    case (Cons b bs)
    obtain x where x: "ca_hash_heights c = [(ca_height c, x)]" using Cons.prems(2) by (cases "ca_hash_heights c") auto
    have "\<not> block_height b < ca_height c" using Cons.prems(3) by auto
    then have "cache_insert H b c = c\<lparr>ca_max_height := max (block_height b) (ca_max_height c)\<rparr>"
      using Cons.prems(1,3) x
      by (simp add: cache_insert_eq cache_full_def cache_max_entry_def bt_last_def cache_see_def)
    then show ?case using Cons.IH[of "c\<lparr>ca_max_height := max (block_height b) (ca_max_height c)\<rparr>"] Cons.prems by auto
  qed
  then obtain m where "fold (cache_insert H) bs c = c\<lparr>ca_max_height := m\<rparr>" by blast
  moreover obtain x where "ca_hash_heights c = [(ca_height c, x)]" using assms(2) by (cases "ca_hash_heights c") auto
  ultimately show ?thesis by (simp add: get_next_commit_block_def cache_get_by_height_def)
qed

definition starved_cache :: block_cache where
  "starved_cache =
     fold (cache_insert sample_block_hash) [sample_block 9 0, sample_block 8 2]
       (cache_confirm 8 (fold (cache_insert sample_block_hash) [sample_block 8 0, sample_block 8 1]
          (cache_new sample_block_hash (sample_block 7 0) 3)))"

theorem full_cache_starves_witness:
  "cache_reach sample_block_hash 3
      [sample_block 8 2, sample_block 9 0, sample_block 8 1, sample_block 8 0, sample_block 7 0] starved_cache
    \<and> get_next_commit_block (fold (cache_insert sample_block_hash) [sample_block 9 0, sample_block 10 0] starved_cache) = None"
proof
  show "cache_reach sample_block_hash 3
      [sample_block 8 2, sample_block 9 0, sample_block 8 1, sample_block 8 0, sample_block 7 0] starved_cache"
    unfolding starved_cache_def fold.simps comp_def id_def by (intro cache_reach.intros)
  have "ca_max_cache_size starved_cache = 3 \<and> length (ca_blocks starved_cache) = 3
      \<and> map fst (ca_hash_heights starved_cache) = [8] \<and> ca_height starved_cache = 8"
    by (simp add: starved_cache_def cache_new_def cache_insert_def cache_confirm_def drop_height_def
        cache_remove_def bt_remove_def bt_last_def Let_def sample_block_def genesis_def content_genesis_def
        sample_block_hash_def)
  then show "get_next_commit_block
      (fold (cache_insert sample_block_hash) [sample_block 9 0, sample_block 10 0] starved_cache) = None"
    by (intro full_cache_starves) (simp_all add: sample_block_def)
qed

end
