(* ===== verification/Node_Validate.thy ===== *)
theory Node_Validate
  imports Node_Block
begin

text \<open>
  Validation of transactions and blocks and the insertion of a block into the tree of notes:
  \<open>pkg/node/src/utxo.rs\<close>, \<open>BlockContent::validate\<close> of \<open>block.rs\<close> and \<open>node/block.rs\<close>.
  \<open>root_hash_with\<close> hashes through the cache of the tree behind a lock; the cache never changes a
  hash (\<open>simple_cache_transparent\<close>), and a caller that only validates drops it here.
\<close>

section \<open>Transactions (utxo.rs)\<close>

definition RECENT_ROOT_COUNT :: u64 where "RECENT_ROOT_COUNT = 64"

definition MERKLE_TREE_DEPTH :: nat where "MERKLE_TREE_DEPTH = 161"

definition of_store :: "('e store_error + 'a) option \<Rightarrow> ('e node_error + 'a) option" where
  "of_store r = map_option (map_sum BlockStoreError id) r"

text \<open>The heights whose roots are recent: \<open>height.next()\<close> wraps, \<open>saturating_sub\<close> does not.\<close>

definition recent_heights :: "u64 \<Rightarrow> u64 bound \<times> u64 bound" where
  "recent_heights height =
     (let next_block = height + 1
      in (Included (if next_block < RECENT_ROOT_COUNT then 0 else next_block - RECENT_ROOT_COUNT),
          Excluded next_block))"

definition recent_roots ::
  "('db, 'e) node_env \<Rightarrow> 'db \<Rightarrow> u64 \<Rightarrow> ('e node_error + element list) option" where
  "recent_roots E db height =
     collect_results
       (map (\<lambda>r. try_bind (of_store r) (\<lambda>(_, b). Some (Inr (bs_root_hash (bc_state (b_content (into_block b)))))))
          (store_list (kv E) (format_impl E) db (recent_heights height) LowestToHighest))"

fun check_input_leaves ::
  "('v, 'c) smirk_tree \<Rightarrow> crypto_hash \<Rightarrow> element list \<Rightarrow> 'e node_error + unit" where
  "check_input_leaves tree hash [] = Inr ()"
| "check_input_leaves tree hash (leaf # ls) =
     (if leaf \<ge> MODULUS then Inl (InvalidElementSize leaf)
      else if leaf \<noteq> ZERO \<and> contains_element tree leaf then Inl (NoteAlreadySpent leaf hash)
      else check_input_leaves tree hash ls)"

fun check_output_leaves :: "('v, 'c) smirk_tree \<Rightarrow> element list \<Rightarrow> 'e node_error + unit" where
  "check_output_leaves tree [] = Inr ()"
| "check_output_leaves tree (leaf # ls) =
     (if leaf \<ge> MODULUS then Inl (InvalidElementSize leaf)
      else if leaf \<noteq> ZERO \<and> contains_element tree leaf then Inl (OutputNoteExists leaf)
      else check_output_leaves tree ls)"

definition check_recent_root ::
  "('db, 'e) node_env \<Rightarrow> utxo_proof \<Rightarrow> u64 \<Rightarrow> 'db \<Rightarrow> ('e node_error + unit) option" where
  "check_recent_root E utxo height db =
     (if up_recent_root utxo = ZERO then Some (Inr ())
      else try_bind (recent_roots E db height) (\<lambda>roots.
        Some (if up_recent_root utxo \<notin> set roots \<and> \<not> is_prover (node_mode E)
              then Inl (UtxoRootIsNotRecentEnough (up_recent_root utxo) roots (utxo_hash (keccak E) utxo))
              else Inr ())))"

text \<open>\<open>None\<close>: the panic of \<open>verify\<close> on a proof it cannot read.\<close>

definition validate_txn ::
  "('db, 'e) node_env \<Rightarrow> utxo_proof \<Rightarrow> u64 \<Rightarrow> 'db \<Rightarrow> ('v, 'c) smirk_tree \<Rightarrow> ('e node_error + unit) option"
where
  "validate_txn E utxo height db tree =
     (case to_snark_witness utxo of WitnessV1 witness \<Rightarrow>
        (case snark_verify E witness of
           None \<Rightarrow> None
         | Some False \<Rightarrow> Some (Inl InvalidProof)
         | Some True \<Rightarrow>
             try_bind (check_recent_root E utxo height db) (\<lambda>_.
             try_bind (Some (check_input_leaves tree (utxo_hash (keccak E) utxo) (array2 (up_input_leaves utxo)))) (\<lambda>_.
             Some (check_output_leaves tree (array2 (up_output_leaves utxo)))))))"

section \<open>The content of a block (block.rs)\<close>

text \<open>The map \<open>txn_leaves\<close> after the leaves of one transaction.\<close>

fun add_txn_leaves ::
  "crypto_hash \<Rightarrow> element list \<Rightarrow> (element \<times> crypto_hash) list
     \<Rightarrow> 'e node_error + (element \<times> crypto_hash) list" where
  "add_txn_leaves hash [] m = Inr m"
| "add_txn_leaves hash (leaf # ls) m =
     (if leaf = ZERO then add_txn_leaves hash ls m
      else
        (case map_of m leaf of
           Some existing \<Rightarrow> Inl (LeafAlreadyInsertedInTheSameBlock leaf existing hash)
         | None \<Rightarrow> add_txn_leaves hash ls (AList.update leaf hash m)))"

fun validate_txns ::
  "('db, 'e) node_env \<Rightarrow> u64 \<Rightarrow> 'db \<Rightarrow> ('v, 'c) smirk_tree \<Rightarrow> utxo_proof list \<Rightarrow> (element \<times> crypto_hash) list
     \<Rightarrow> ('e node_error + (element \<times> crypto_hash) list) option" where
  "validate_txns E height db tree [] m = Some (Inr m)"
| "validate_txns E height db tree (txn # txns) m =
     try_bind (Some (add_txn_leaves (utxo_hash (keccak E) txn) (leaves txn) m)) (\<lambda>m.
     try_bind (validate_txn E txn height db tree) (\<lambda>_.
     validate_txns E height db tree txns m))"

definition validate_root ::
  "('db, 'e) node_env \<Rightarrow> (u64, simple_cache) smirk_tree \<Rightarrow> element list \<Rightarrow> element option" where
  "validate_root E tree els =
     (if els = [] then root_hash (poseidon E) tree
      else map_option fst (root_hash_with (poseidon E) (simple_hash (poseidon E)) MERKLE_TREE_DEPTH tree els))"

definition content_validate ::
  "('db, 'e) node_env \<Rightarrow> block_content \<Rightarrow> 'db \<Rightarrow> (u64, simple_cache) smirk_tree \<Rightarrow> ('e node_error + unit) option"
where
  "content_validate E c db tree =
     try_bind (validate_txns E (bh_height (bc_header c)) db tree (bs_txns (bc_state c)) []) (\<lambda>txn_leaves.
       (case validate_root E tree (map fst txn_leaves) of
          None \<Rightarrow> None
        | Some new_root_hash \<Rightarrow>
            Some (if new_root_hash \<noteq> bs_root_hash (bc_state c)
                  then Inl (InvalidBlockRoot new_root_hash (bs_root_hash (bc_state c)))
                  else Inr ())))"

section \<open>Blocks (node.rs, node/block.rs)\<close>

text \<open>\<open>None\<close>: the remainder by zero when there is no validator.\<close>

definition get_leader_for_block_height :: "('db, 'e) node_env \<Rightarrow> u64 \<Rightarrow> address option" where
  "get_leader_for_block_height E height =
     (let validators = validators_for_height E height
      in if validators = [] then None
         else Some (validators ! unat (height mod word_of_nat (length validators))))"

definition validate_block ::
  "('db, 'e) node_env \<Rightarrow> block \<Rightarrow> 'db \<Rightarrow> (u64, simple_cache) smirk_tree \<Rightarrow> ('e node_error + unit) option"
where
  "validate_block E b db tree =
     (if block_height b \<in> set (bad_blocks E) then Some (Inr ())
      else do {
        validator \<leftarrow> get_leader_for_block_height E (block_height b);
        (case recover E (b_signature b) (block_hash (keccak E) (borsh_header E) b) of
           None \<Rightarrow> Some (Inl InvalidBlockSignature)
         | Some signed_by \<Rightarrow>
             if signed_by \<noteq> validator then Some (Inl InvalidBlockSignature)
             else content_validate E (b_content b) db tree) })"

definition apply_block_to_tree ::
  "('db, 'e) node_env \<Rightarrow> (u64, 'db) persistent \<Rightarrow> block_state \<Rightarrow> u64 \<Rightarrow> bool
     \<Rightarrow> ((u64, 'db) persistent \<times> ('e node_error + unit)) option" where
  "apply_block_to_tree E notes_tree state current_height ignore_collisions =
     (let leaves = filter (\<lambda>e. e \<noteq> ZERO) (state_leaves state)
      in if \<not> ignore_collisions \<and> (\<exists>leaf \<in> set leaves. contains_element (ps_tree notes_tree) leaf) then None
         else
           (let leaves_with_height = map (\<lambda>e. (e, current_height)) leaves;
                entries = (if ignore_collisions
                           then filter (\<lambda>(leaf, _). \<not> contains_element (ps_tree notes_tree) leaf) leaves_with_height
                           else leaves_with_height)
            in case batch_from_entries MERKLE_TREE_DEPTH entries of
                 None \<Rightarrow> None
               | Some (Inl e) \<Rightarrow> Some (notes_tree, Inl (SmirkCollision e))
               | Some (Inr batch) \<Rightarrow>
                   map_option (map_prod id (map_sum SmirkError id))
                     (persistent_insert_batch (kv E) (smirk_format E) (poseidon E) MERKLE_TREE_DEPTH notes_tree batch)))"

end
