(* ===== verification/Node_Validate_Props.thy ===== *)
theory Node_Validate_Props
  imports Node_Validate Block_Store_Props Smirk_Props Smirk_Storage_Props
begin

text \<open>
  The properties of validation: what an accepted block guarantees, and that an accepted block, applied
  to the tree it was validated against, gives a tree with the root hash of its state.
\<close>

abbreviation nz :: "element list \<Rightarrow> element list" where
  "nz ls \<equiv> filter (\<lambda>e. e \<noteq> ZERO) ls"

lemma try_bind_ok: "try_bind m f = Some (Inr y) \<longleftrightarrow> (\<exists>x. m = Some (Inr x) \<and> f x = Some (Inr y))"
  by (auto simp: try_bind_def split: option.split sum.split)

lemma check_input_ok [simp]:
  "check_input_leaves tree h ls = (Inr () :: 'e node_error + unit)
   \<longleftrightarrow> (\<forall>l \<in> set ls. l < MODULUS \<and> (l \<noteq> ZERO \<longrightarrow> \<not> contains_element tree l))"
  by (induction ls) (auto simp: not_le)

lemma check_output_ok [simp]:
  "check_output_leaves tree ls = (Inr () :: 'e node_error + unit)
   \<longleftrightarrow> (\<forall>l \<in> set ls. l < MODULUS \<and> (l \<noteq> ZERO \<longrightarrow> \<not> contains_element tree l))"
  by (induction ls) (auto simp: not_le)

lemma validate_txn_ok:
  "validate_txn E t h db tree = Some (Inr ()) \<longleftrightarrow>
     snark_verify E \<lparr>sw_instances = [instances t], sw_proof = up_proof t\<rparr> = Some True
     \<and> check_recent_root E t h db = Some (Inr ())
     \<and> (\<forall>l \<in> set (leaves t). l < MODULUS \<and> (l \<noteq> ZERO \<longrightarrow> \<not> contains_element tree l))"
  by (auto simp: validate_txn_def to_snark_witness_def try_bind_ok leaves_def split: option.split bool.split)

lemma add_txn_leaves_ok:
  assumes "add_txn_leaves h ls m = (Inr m' :: 'e node_error + _)" "distinct (map fst m)"
  shows "map fst m' = map fst m @ nz ls \<and> distinct (map fst m')"
  using assms
proof (induction ls arbitrary: m)
  case (Cons l ls)
  show ?case
  proof (cases "l = ZERO")
    case True
    then have "add_txn_leaves h ls m = (Inr m' :: 'e node_error + _)" "nz (l # ls) = nz ls" using Cons.prems(1) by simp_all
    then show ?thesis using Cons.IH[OF _ Cons.prems(2)] by metis
  next
    case False
    then have l: "map_of m l = None" "add_txn_leaves h ls (m @ [(l, h)]) = (Inr m' :: 'e node_error + _)"
      using Cons.prems(1) by (auto simp: update_absent split: option.splits)
    have "distinct (map fst (m @ [(l, h)]))" using l(1) Cons.prems(2) by (simp add: map_of_eq_None_iff)
    moreover have "map fst (m @ [(l, h)]) @ nz ls = map fst m @ nz (l # ls)" using False by simp
    ultimately show ?thesis using Cons.IH[OF l(2)] by metis
  qed
qed simp

lemma validate_txns_ok:
  fixes E :: "('db, 'e) node_env"
  assumes "validate_txns E h db tree ts m = Some (Inr m')" "distinct (map fst m)"
  shows "map fst m' = map fst m @ nz (concat (map leaves ts)) \<and> distinct (map fst m')
    \<and> (\<forall>t \<in> set ts. validate_txn E t h db tree = Some (Inr ()))"
  using assms
proof (induction ts arbitrary: m)
  case (Cons t ts)
  obtain m1 where 1: "add_txn_leaves (utxo_hash (keccak E) t) (leaves t) m = (Inr m1 :: 'e node_error + _)"
    and t: "validate_txn E t h db tree = Some (Inr ())"
    and 2: "validate_txns E h db tree ts m1 = Some (Inr m')"
    using Cons.prems(1) by (auto simp: try_bind_ok)
  have d: "map fst m1 = map fst m @ nz (leaves t) \<and> distinct (map fst m1)"
    by (rule add_txn_leaves_ok[OF 1 Cons.prems(2)])
  then have "map fst m' = map fst m1 @ nz (concat (map leaves ts)) \<and> distinct (map fst m')
    \<and> (\<forall>t \<in> set ts. validate_txn E t h db tree = Some (Inr ()))"
    by (intro Cons.IH[OF 2]) blast
  moreover have "map fst m1 @ nz (concat (map leaves ts)) = map fst m @ nz (concat (map leaves (t # ts)))"
    using d by simp
  ultimately show ?case using t by (metis set_ConsD)
qed simp

text \<open>The non-null leaves of a block.\<close>

abbreviation block_leaves :: "block \<Rightarrow> element list" where
  "block_leaves b \<equiv> nz (state_leaves (bc_state (b_content b)))"

lemma content_validate_ok:
  assumes "content_validate E c db tree = Some (Inr ())"
  shows "distinct (nz (state_leaves (bc_state c)))"
    "t \<in> set (bs_txns (bc_state c)) \<Longrightarrow> validate_txn E t (bh_height (bc_header c)) db tree = Some (Inr ())"
    "validate_root E tree (nz (state_leaves (bc_state c))) = Some (bs_root_hash (bc_state c))"
proof -
  obtain m where m: "validate_txns E (bh_height (bc_header c)) db tree (bs_txns (bc_state c)) [] = Some (Inr m)"
    and r: "validate_root E tree (map fst m) = Some (bs_root_hash (bc_state c))"
    using assms by (auto simp: content_validate_def try_bind_ok split: option.splits if_splits)
  note ok = validate_txns_ok[OF m, simplified]
  then show "distinct (nz (state_leaves (bc_state c)))"
    "t \<in> set (bs_txns (bc_state c)) \<Longrightarrow> validate_txn E t (bh_height (bc_header c)) db tree = Some (Inr ())"
    by (auto simp: state_leaves_def)
  show "validate_root E tree (nz (state_leaves (bc_state c))) = Some (bs_root_hash (bc_state c))"
    using r ok by (simp add: state_leaves_def)
qed

lemma validate_block_content:
  assumes "validate_block E b db tree = Some (Inr ())" "block_height b \<notin> set (bad_blocks E)"
  shows "content_validate E (b_content b) db tree = Some (Inr ())"
    and "\<exists>leader. get_leader_for_block_height E (block_height b) = Some leader
           \<and> recover E (b_signature b) (block_hash (keccak E) (borsh_header E) b) = Some leader"
  using assms by (auto simp: validate_block_def Option.bind_eq_Some_conv split: option.splits if_splits)

lemma content_leaf_ok:
  assumes "content_validate E c db tree = Some (Inr ())" "l \<in> set (nz (state_leaves (bc_state c)))"
  shows "l < MODULUS" "\<not> contains_element tree l"
  using assms(2) content_validate_ok(2)[OF assms(1)] by (auto simp: state_leaves_def validate_txn_ok)

section \<open>Recent roots\<close>

definition root_of :: "block_format \<Rightarrow> element" where
  "root_of f = bs_root_hash (bc_state (b_content (into_block f)))"

lemma collect_roots:
  "collect_results (map (\<lambda>r. try_bind (of_store r) (\<lambda>(_, b). Some (Inr (root_of b)))) (block_items B hist hs))
     = Some (Inr (map (\<lambda>h. root_of (the (block_at B hist h))) hs))"
  by (induction hs) (simp_all add: of_store_def)

lemma recent_roots_spec:
  assumes "kv_ok (kv E) contents" "wire_ok (format_impl E)" "store_rep (format_impl E) ver hist (contents db)"
  shows "recent_roots E db height = Some (Inr (map (\<lambda>h. root_of (the (block_at (format_impl E) hist h)))
           (filter (in_range (recent_heights height)) (heights (format_impl E) hist))))"
proof -
  have items: "store_list (kv E) (format_impl E) db (recent_heights height) LowestToHighest =
      block_items (format_impl E) hist (filter (in_range (recent_heights height)) (heights (format_impl E) hist))"
    using store_lists(1)[OF assms, of "recent_heights height" LowestToHighest] by (simp add: directed_def)
  show ?thesis
    unfolding recent_roots_def root_of_def[symmetric] items by (rule collect_roots)
qed

section \<open>Applying a block\<close>

abbreviation note_tree_inv where
  "note_tree_inv E t \<equiv> tree_inv (poseidon E) (simple_cache_ok (poseidon E)) 160 t"

text \<open>No two different elements of the tree and the block share a slot.\<close>

definition slots_apart :: "element list \<Rightarrow> bool" where
  "slots_apart els \<longleftrightarrow> inj_on (\<lambda>e. lsb e 160) (set els)"

lemma depth_simps [simp]: "MERKLE_TREE_DEPTH = Suc 160"
  by (simp add: MERKLE_TREE_DEPTH_def)

lemma new_leaves_ok:
  assumes "slots_apart (map fst (t_entries t) @ els)" "distinct els" "NULL_HASH \<notin> set els"
    and "\<forall>l \<in> set els. \<not> contains_element t l"
  shows "free_in 160 t els" "keyed 160 els"
proof -
  have new: "set els \<inter> fst ` set (t_entries t) = {}"
    using assms(4) by (auto simp: contains_element_def map_of_eq_None_iff)
  show "keyed 160 els"
    using assms(1,2) unfolding slots_apart_def by (auto simp: distinct_map inj_on_Un)
  show "free_in 160 t els"
    unfolding free_in_def
  proof
    show "(\<lambda>e. lsb e 160) ` set (map fst (t_entries t)) \<inter> (\<lambda>e. lsb e 160) ` set els = {}"
      using assms(1) new unfolding slots_apart_def by (auto simp: inj_on_def)
  qed (rule assms(3))
qed

text \<open>The root hash of a tree with these entries.\<close>

abbreviation notes_root where
  "notes_root E els \<equiv> spec_root (poseidon E) 160 (slots 160 els)"

lemma validate_root_spec:
  assumes "note_tree_inv E t" "slots_apart (map fst (t_entries t) @ els)" "distinct els" "NULL_HASH \<notin> set els"
    and "\<forall>l \<in> set els. \<not> contains_element t l"
  shows "validate_root E t els = Some (notes_root E (map fst (t_entries t) @ els))"
proof (cases "els = []")
  case True
  then show ?thesis using root_hash_spec[OF assms(1)] by (simp add: validate_root_def)
next
  case False
  note new = new_leaves_ok[OF assms(2-5)]
  have "(160::nat) \<le> 256" by simp
  from simple.hash_with_spec[OF assms(1) this new] False show ?thesis
    by (auto simp: validate_root_def)
qed

lemma apply_block_ok:
  assumes kv: "kv_ok (kv E) contents" and W: "smirk_wire_ok (smirk_format E)"
    and p: "persist_inv (poseidon E) (smirk_format E) contents 160 p"
    and els: "els = filter (\<lambda>l. \<not> contains_element (ps_tree p) l) (nz (state_leaves state))"
    and apart: "slots_apart (map fst (t_entries (ps_tree p)) @ els)" "distinct els"
    and ignore: "ignore \<or> (\<forall>l \<in> set (nz (state_leaves state)). \<not> contains_element (ps_tree p) l)"
  shows "\<exists>p'. apply_block_to_tree E p state h ignore = Some (p', Inr ())
    \<and> persist_inv (poseidon E) (smirk_format E) contents 160 p'
    \<and> t_entries (ps_tree p') = add_entries (t_entries (ps_tree p)) (map (\<lambda>e. (e, h)) els)
    \<and> root_hash (poseidon E) (ps_tree p') = Some (notes_root E (map fst (t_entries (ps_tree p)) @ els))"
proof -
  have inv: "note_tree_inv E (ps_tree p)" using p by (simp add: persist_inv_def)
  have null: "NULL_HASH \<notin> set els" by (simp add: els NULL_HASH_def)
  have "\<forall>l \<in> set els. \<not> contains_element (ps_tree p) l" by (simp add: els)
  note new = new_leaves_ok[OF apart null this]
  have entries: "(if ignore
      then filter (\<lambda>(leaf, _). \<not> contains_element (ps_tree p) leaf) (map (\<lambda>e. (e, h)) (nz (state_leaves state)))
      else map (\<lambda>e. (e, h)) (nz (state_leaves state))) = map (\<lambda>e. (e, h)) els"
  proof (cases ignore)
    case True
    then show ?thesis by (simp add: els filter_map comp_def)
  next
    case False
    then have "els = nz (state_leaves state)" unfolding els using ignore by (intro filter_True) blast
    then show ?thesis using False by simp
  qed
  define es where "es = map (\<lambda>e. (e, h)) els"
  have fst_es: "map fst es = els" by (simp add: es_def comp_def)
  have k: "keyed (Suc 160 - 1) (map fst es)" using new(2) by (simp add: fst_es)
  obtain b where b: "batch_from_entries (Suc 160) es = Some (Inr b)" "batch_ok (Suc 160) b" "b_entries b = es"
    using insert_entries_ok[OF batch_new_ok, of "Suc 160" es] k
    by (auto simp: batch_from_entries_def batch_new_def batch_elements_def)
  have free: "free_in 160 (ps_tree p) (batch_elements b)"
    using new(1) by (simp add: batch_elements_def b(3) fst_es)
  have n: "(160::nat) \<le> 256" by simp
  obtain p' where p': "persistent_insert_batch (kv E) (smirk_format E) (poseidon E) (Suc 160) p b = Some (p', Inr ())"
      "persist_inv (poseidon E) (smirk_format E) contents 160 p'"
      "t_entries (ps_tree p') = add_entries (t_entries (ps_tree p)) (b_entries b)"
    using persistent_insert_inv[OF kv W n p b(2) free] by blast
  have "free_in 160 (ps_tree p) (map fst es)" "keyed 160 (map fst es)" using new by (simp_all only: fst_es)
  note ka = keys_after[OF inv this]
  have "slots 160 (map fst (t_entries (ps_tree p'))) = slots 160 (map fst (t_entries (ps_tree p)) @ els)"
    unfolding p'(3) b(3) fst_es[symmetric] by (rule slots_set[OF ka(3,2,1)])
  moreover have "note_tree_inv E (ps_tree p')" using p'(2) by (simp add: persist_inv_def)
  ultimately have root: "root_hash (poseidon E) (ps_tree p') = Some (notes_root E (map fst (t_entries (ps_tree p)) @ els))"
    using root_hash_spec by metis
  have guard: "\<not> (\<not> ignore \<and> (\<exists>leaf \<in> set (nz (state_leaves state)). contains_element (ps_tree p) leaf))"
    using ignore by blast
  have "apply_block_to_tree E p state h ignore = Some (p', Inr ())"
    unfolding apply_block_to_tree_def Let_def entries es_def[symmetric] depth_simps b(1)
    using guard p'(1) by simp
  then show ?thesis using p'(2,3) root b(3) by (auto simp: es_def)
qed

section \<open>The specification of an accepted block\<close>

lemma add_txn_leaves_total:
  "distinct (map fst m @ nz ls) \<Longrightarrow> \<exists>m'. add_txn_leaves h ls m = (Inr m' :: 'e node_error + _)"
proof (induction ls arbitrary: m)
  case (Cons l ls)
  show ?case
  proof (cases "l = ZERO")
    case False
    then have "map_of m l = None" using Cons.prems by (auto simp: map_of_eq_None_iff)
    moreover have "distinct (map fst (m @ [(l, h)]) @ nz ls)" using Cons.prems False by auto
    ultimately show ?thesis using Cons.IH[of "m @ [(l, h)]"] False by (simp add: update_absent)
  qed (use Cons in simp)
qed simp

lemma validate_txns_total:
  fixes E :: "('db, 'e) node_env"
  assumes "distinct (map fst m @ nz (concat (map leaves ts)))"
    and "\<forall>t \<in> set ts. validate_txn E t h db tree = Some (Inr ())"
  shows "\<exists>m'. validate_txns E h db tree ts m = Some (Inr m')"
  using assms
proof (induction ts arbitrary: m)
  case (Cons t ts)
  have "distinct (map fst m @ nz (leaves t))" using Cons.prems(1) by auto
  from add_txn_leaves_total[OF this] obtain m1 where 1: "add_txn_leaves (utxo_hash (keccak E) t) (leaves t) m
      = (Inr m1 :: 'e node_error + _)" by blast
  have "map fst m1 = map fst m @ nz (leaves t)" using add_txn_leaves_ok[OF 1] Cons.prems(1) by simp
  then have "distinct (map fst m1 @ nz (concat (map leaves ts)))" using Cons.prems(1) by simp
  from Cons.IH[OF this] Cons.prems(2) 1 show ?case by simp
qed simp

lemma content_validate_iff:
  "content_validate E c db tree = Some (Inr ()) \<longleftrightarrow>
     distinct (nz (state_leaves (bc_state c)))
     \<and> (\<forall>t \<in> set (bs_txns (bc_state c)). validate_txn E t (bh_height (bc_header c)) db tree = Some (Inr ()))
     \<and> validate_root E tree (nz (state_leaves (bc_state c))) = Some (bs_root_hash (bc_state c))"
    (is "?l \<longleftrightarrow> ?r")
proof
  assume ?l
  then show ?r using content_validate_ok[of E c db tree] by simp
next
  assume r: ?r
  then have "distinct (map fst ([] :: (element \<times> crypto_hash) list) @ nz (concat (map leaves (bs_txns (bc_state c)))))"
    by (simp add: state_leaves_def)
  from validate_txns_total[OF this, of E] r obtain m where
    m: "validate_txns E (bh_height (bc_header c)) db tree (bs_txns (bc_state c)) [] = Some (Inr m)" by blast
  have "map fst m = nz (state_leaves (bc_state c))" using validate_txns_ok[OF m] by (simp add: state_leaves_def)
  then show ?l using m r by (simp add: content_validate_def)
qed

definition recent_root_ok ::
  "('db, 'e) node_env \<Rightarrow> block_format list \<Rightarrow> u64 \<Rightarrow> utxo_proof \<Rightarrow> bool" where
  "recent_root_ok E hist height t \<longleftrightarrow>
     up_recent_root t = ZERO \<or> is_prover (node_mode E)
     \<or> (\<exists>h f. in_range (recent_heights height) h \<and> block_at (format_impl E) hist h = Some f
              \<and> up_recent_root t = root_of f)"

lemma check_recent_root_iff:
  assumes "kv_ok (kv E) contents" "wire_ok (format_impl E)" "store_rep (format_impl E) ver hist (contents db)"
  shows "check_recent_root E t height db = Some (Inr ()) \<longleftrightarrow> recent_root_ok E hist height t"
proof -
  have mem: "h \<in> set (heights (format_impl E) hist) \<longleftrightarrow> block_at (format_impl E) hist h \<noteq> None" for h
    using block_at_dom[of "format_impl E" hist] by (auto simp: heights_def domIff dom_def set_eq_iff)
  define rs where "rs = map (\<lambda>h. root_of (the (block_at (format_impl E) hist h)))
      (filter (in_range (recent_heights height)) (heights (format_impl E) hist))"
  have rs: "x \<in> set rs \<longleftrightarrow> (\<exists>h f. in_range (recent_heights height) h \<and> block_at (format_impl E) hist h = Some f
      \<and> x = root_of f)" for x
  proof
    assume "x \<in> set rs"
    then obtain h where h: "h \<in> set (heights (format_impl E) hist)" "in_range (recent_heights height) h"
        "x = root_of (the (block_at (format_impl E) hist h))" by (auto simp: rs_def)
    then show "\<exists>h f. in_range (recent_heights height) h \<and> block_at (format_impl E) hist h = Some f \<and> x = root_of f"
      using mem[of h] by auto
  next
    assume "\<exists>h f. in_range (recent_heights height) h \<and> block_at (format_impl E) hist h = Some f \<and> x = root_of f"
    then obtain h f where h: "in_range (recent_heights height) h" "block_at (format_impl E) hist h = Some f" "x = root_of f"
      by blast
    then have "h \<in> set (heights (format_impl E) hist)" using mem[of h] by simp
    then show "x \<in> set rs" using h unfolding rs_def by force
  qed
  show ?thesis
    unfolding check_recent_root_def recent_roots_spec[OF assms] rs_def[symmetric] recent_root_ok_def rs[symmetric]
    by simp
qed

lemma accepted_iff:
  assumes "kv_ok (kv E) contents" "wire_ok (format_impl E)" "store_rep (format_impl E) ver hist (contents db)"
    and "note_tree_inv E tree" "slots_apart (map fst (t_entries tree) @ block_leaves b)"
    and "block_height b \<notin> set (bad_blocks E)"
  shows "validate_block E b db tree = Some (Inr ()) \<longleftrightarrow>
     (\<exists>leader. get_leader_for_block_height E (block_height b) = Some leader
        \<and> recover E (b_signature b) (block_hash (keccak E) (borsh_header E) b) = Some leader)
     \<and> distinct (block_leaves b)
     \<and> (\<forall>t \<in> set (bs_txns (bc_state (b_content b))).
          snark_verify E \<lparr>sw_instances = [instances t], sw_proof = up_proof t\<rparr> = Some True
          \<and> recent_root_ok E hist (block_height b) t
          \<and> (\<forall>l \<in> set (leaves t). l < MODULUS \<and> (l \<noteq> ZERO \<longrightarrow> \<not> contains_element tree l)))
     \<and> bs_root_hash (bc_state (b_content b)) = notes_root E (map fst (t_entries tree) @ block_leaves b)"
proof -
  have signed: "validate_block E b db tree = Some (Inr ()) \<longleftrightarrow>
     (\<exists>leader. get_leader_for_block_height E (block_height b) = Some leader
        \<and> recover E (b_signature b) (block_hash (keccak E) (borsh_header E) b) = Some leader)
     \<and> content_validate E (b_content b) db tree = Some (Inr ())"
    using assms(6) by (auto simp: validate_block_def Option.bind_eq_Some_conv split: option.splits if_splits)
  have root: "validate_root E tree (block_leaves b) = Some (notes_root E (map fst (t_entries tree) @ block_leaves b))"
    if "distinct (block_leaves b)"
      and "\<forall>t \<in> set (bs_txns (bc_state (b_content b))). validate_txn E t (block_height b) db tree = Some (Inr ())"
    using that by (intro validate_root_spec[OF assms(4,5)]) (auto simp: NULL_HASH_def validate_txn_ok state_leaves_def)
  show ?thesis
    unfolding signed content_validate_iff
    using root unfolding validate_txn_ok check_recent_root_iff[OF assms(1-3)] by auto
qed

text \<open>
  C16: \<open>validate_block\<close> accepts a block, if it is not one of the configured bad blocks, exactly when the
  leader of its height signed its hash, no note occurs twice in it, every transaction has a valid proof,
  a recent root (or none) and canonical notes that are not in the tree, and the root hash of its state is
  that of the tree with its notes.
\<close>

theorem validate_block_iff:
  assumes "kv_ok (kv E) contents" "wire_ok (format_impl E)" "store_rep (format_impl E) ver hist (contents db)"
    and "note_tree_inv E tree" "slots_apart (map fst (t_entries tree) @ block_leaves b)"
    and "block_height b \<notin> set (bad_blocks E)"
  shows "validate_block E b db tree = Some (Inr ()) \<longleftrightarrow>
     (\<exists>leader. get_leader_for_block_height E (block_height b) = Some leader
        \<and> recover E (b_signature b) (block_hash (keccak E) (borsh_header E) b) = Some leader)
     \<and> distinct (block_leaves b)
     \<and> (\<forall>t \<in> set (bs_txns (bc_state (b_content b))).
          snark_verify E \<lparr>sw_instances = [instances t], sw_proof = up_proof t\<rparr> = Some True
          \<and> recent_root_ok E hist (block_height b) t
          \<and> (\<forall>l \<in> set (leaves t). l < MODULUS \<and> (l \<noteq> ZERO \<longrightarrow> \<not> contains_element tree l)))
     \<and> bs_root_hash (bc_state (b_content b)) = notes_root E (map fst (t_entries tree) @ block_leaves b)"
  by (rule accepted_iff[OF assms])

lemma accepted_applies:
  assumes "kv_ok (kv E) contents" "smirk_wire_ok (smirk_format E)"
    and "persist_inv (poseidon E) (smirk_format E) contents 160 p"
    and "validate_block E b db (ps_tree p) = Some (Inr ())" "block_height b \<notin> set (bad_blocks E)"
    and "slots_apart (map fst (t_entries (ps_tree p)) @ block_leaves b)"
  shows "\<exists>p'. apply_block_to_tree E p (bc_state (b_content b)) (block_height b) False = Some (p', Inr ())
    \<and> persist_inv (poseidon E) (smirk_format E) contents 160 p'
    \<and> map_of (t_entries (ps_tree p'))
        = map_of (t_entries (ps_tree p)) ++ map_of (map (\<lambda>e. (e, block_height b)) (block_leaves b))
    \<and> root_hash (poseidon E) (ps_tree p') = Some (bs_root_hash (bc_state (b_content b)))"
proof -
  note content = validate_block_content(1)[OF assms(4,5)]
  note d = content_validate_ok(1)[OF content] and r = content_validate_ok(3)[OF content]
  have new: "\<forall>l \<in> set (block_leaves b). \<not> contains_element (ps_tree p) l"
    using content_leaf_ok(2)[OF content] by blast
  have els: "block_leaves b = filter (\<lambda>l. \<not> contains_element (ps_tree p) l) (block_leaves b)"
    using new by (intro filter_True[symmetric]) blast
  have "note_tree_inv E (ps_tree p)" using assms(3) by (simp add: persist_inv_def)
  from validate_root_spec[OF this assms(6) d _ new] r have
    root: "notes_root E (map fst (t_entries (ps_tree p)) @ block_leaves b) = bs_root_hash (bc_state (b_content b))"
    by (simp add: NULL_HASH_def)
  have rev: "map_of (rev (map (\<lambda>e. (e, block_height b)) (block_leaves b)))
      = map_of (map (\<lambda>e. (e, block_height b)) (block_leaves b))"
    using d by (subst map_of_inject_set) (simp_all add: comp_def rev_map)
  obtain p' where p': "apply_block_to_tree E p (bc_state (b_content b)) (block_height b) False = Some (p', Inr ())"
    "persist_inv (poseidon E) (smirk_format E) contents 160 p'"
    "t_entries (ps_tree p') = add_entries (t_entries (ps_tree p)) (map (\<lambda>e. (e, block_height b)) (block_leaves b))"
    "root_hash (poseidon E) (ps_tree p') = Some (notes_root E (map fst (t_entries (ps_tree p)) @ block_leaves b))"
    using apply_block_ok[OF assms(1-3) els assms(6) d] new by blast
  show ?thesis
    using p' by (intro exI[of _ p']) (simp only: map_of_add_entries rev root simp_thms)
qed

text \<open>
  C17: a block that was accepted, and shares no slot with the tree, is applied to it without an error; the
  tree then has exactly the notes of the block more, with its height, and the root hash of its state.
\<close>

theorem accepted_block_applies:
  assumes "kv_ok (kv E) contents" "smirk_wire_ok (smirk_format E)"
    and "persist_inv (poseidon E) (smirk_format E) contents 160 p"
    and "validate_block E b db (ps_tree p) = Some (Inr ())" "block_height b \<notin> set (bad_blocks E)"
    and "slots_apart (map fst (t_entries (ps_tree p)) @ block_leaves b)"
  shows "\<exists>p'. apply_block_to_tree E p (bc_state (b_content b)) (block_height b) False = Some (p', Inr ())
    \<and> persist_inv (poseidon E) (smirk_format E) contents 160 p'
    \<and> map_of (t_entries (ps_tree p'))
        = map_of (t_entries (ps_tree p)) ++ map_of (map (\<lambda>e. (e, block_height b)) (block_leaves b))
    \<and> root_hash (poseidon E) (ps_tree p') = Some (bs_root_hash (bc_state (b_content b)))"
  by (rule accepted_applies[OF assms])

end
