(* ===== verification/Node_Sample.thy ===== *)
theory Node_Sample
  imports Node_Validate_Props
begin

text \<open>
  A concrete environment of a node, in which the hypotheses of the properties hold: a database in
  memory, a prefix-free encoding of blocks and transactions built from combinators, and toy
  cryptography. Nothing but the witnesses of the properties uses it.
\<close>

section \<open>Codecs\<close>

text \<open>An encoder and a decoder that returns the value and the bytes after it.\<close>

type_synonym 'a codec = "('a \<Rightarrow> bytes) \<times> (bytes \<Rightarrow> ('a \<times> bytes) option)"

definition codec_ok :: "'a codec \<Rightarrow> bool" where
  "codec_ok c \<longleftrightarrow> (\<forall>x rest. snd c (fst c x @ rest) = Some (x, rest))"

definition word_codec :: "nat \<Rightarrow> 'n::len word codec" where
  "word_codec k = (be_bytes k, \<lambda>bs. Some (from_be (take k bs), drop k bs))"

definition pair_codec :: "'a codec \<Rightarrow> 'b codec \<Rightarrow> ('a \<times> 'b) codec" where
  "pair_codec c d = (\<lambda>(x, y). fst c x @ fst d y,
     \<lambda>bs. do { (x, bs) \<leftarrow> snd c bs; (y, bs) \<leftarrow> snd d bs; Some ((x, y), bs) })"

definition map_codec :: "('a \<Rightarrow> 'b) \<Rightarrow> ('b \<Rightarrow> 'a) \<Rightarrow> 'b codec \<Rightarrow> 'a codec" where
  "map_codec f g c = (\<lambda>x. fst c (f x), \<lambda>bs. map_option (map_prod g id) (snd c bs))"

fun list_encode :: "('a \<Rightarrow> bytes) \<Rightarrow> 'a list \<Rightarrow> bytes" where
  "list_encode e [] = [0]"
| "list_encode e (x # xs) = 1 # e x @ list_encode e xs"

fun list_decode :: "nat \<Rightarrow> (bytes \<Rightarrow> ('a \<times> bytes) option) \<Rightarrow> bytes \<Rightarrow> ('a list \<times> bytes) option" where
  "list_decode (Suc n) d (b # bs) =
     (if b = 0 then Some ([], bs)
      else do { (x, bs) \<leftarrow> d bs; (xs, bs) \<leftarrow> list_decode n d bs; Some (x # xs, bs) })"
| "list_decode _ d bs = None"

definition list_codec :: "'a codec \<Rightarrow> 'a list codec" where
  "list_codec c = (list_encode (fst c), \<lambda>bs. list_decode (length bs) (snd c) bs)"

definition option_codec :: "'a codec \<Rightarrow> 'a option codec" where
  "option_codec c = map_codec (\<lambda>x. case x of None \<Rightarrow> [] | Some y \<Rightarrow> [y])
     (\<lambda>ys. case ys of [] \<Rightarrow> None | y # _ \<Rightarrow> Some y) (list_codec c)"

lemma word_codec_ok [intro]: "LENGTH('n::len) \<le> 8 * k \<Longrightarrow> codec_ok (word_codec k :: 'n word codec)"
  by (simp add: codec_ok_def word_codec_def from_be_bytes_gen)

lemma pair_codec_ok [intro]: "codec_ok c \<Longrightarrow> codec_ok d \<Longrightarrow> codec_ok (pair_codec c d)"
  by (simp add: codec_ok_def pair_codec_def)

lemma map_codec_ok [intro]: "codec_ok c \<Longrightarrow> (\<And>x. g (f x) = x) \<Longrightarrow> codec_ok (map_codec f g c)"
  by (simp add: codec_ok_def map_codec_def)

lemma list_codec_ok [intro]:
  assumes "codec_ok c"
  shows "codec_ok (list_codec c)"
proof -
  have "list_decode n (snd c) (list_encode (fst c) xs @ rest) = Some (xs, rest)"
    if "length (list_encode (fst c) xs) \<le> n" for n xs rest
    using that
  proof (induction xs arbitrary: n)
    case Nil
    then show ?case by (cases n) simp_all
  next
    case (Cons x xs)
    then obtain n' where n: "n = Suc n'" by (cases n) simp_all
    then show ?case using Cons assms by (simp add: codec_ok_def)
  qed
  then show ?thesis by (simp add: codec_ok_def list_codec_def)
qed

lemma option_codec_ok [intro]: "codec_ok c \<Longrightarrow> codec_ok (option_codec c)"
  unfolding option_codec_def by (rule map_codec_ok) (auto split: option.split)

section \<open>The encoding of blocks and transactions\<close>

definition element_codec :: "element codec" where "element_codec = word_codec 32"
definition u64_codec :: "u64 codec" where "u64_codec = word_codec 8"
definition bytes_codec :: "bytes codec" where "bytes_codec = list_codec (word_codec 1)"

definition utxo_codec :: "utxo_proof codec" where
  "utxo_codec = map_codec
     (\<lambda>u. (up_recent_root u, up_mb_hash u, up_mb_value u, up_input_leaves u, up_output_leaves u, up_proof u))
     (\<lambda>(r, h, v, i, out, p). \<lparr>up_recent_root = r, up_mb_hash = h, up_mb_value = v, up_input_leaves = i,
                             up_output_leaves = out, up_proof = p\<rparr>)
     (pair_codec element_codec (pair_codec element_codec (pair_codec element_codec
       (pair_codec (pair_codec element_codec element_codec)
         (pair_codec (pair_codec element_codec element_codec) bytes_codec)))))"

definition header_codec :: "block_header codec" where
  "header_codec = map_codec
     (\<lambda>h. (bh_height h, bh_last_block_hash h, bh_epoch_id h, bh_last_final_block_hash h, bh_approvals h))
     (\<lambda>(a, b, c, d, e). \<lparr>bh_height = a, bh_last_block_hash = b, bh_epoch_id = c, bh_last_final_block_hash = d,
                        bh_approvals = e\<rparr>)
     (pair_codec u64_codec (pair_codec element_codec (pair_codec u64_codec
       (pair_codec element_codec (list_codec bytes_codec)))))"

definition block_codec :: "block codec" where
  "block_codec = map_codec
     (\<lambda>b. (bc_header (b_content b), bs_root_hash (bc_state (b_content b)), bs_txns (bc_state (b_content b)),
           b_signature b))
     (\<lambda>(h, r, ts, s). \<lparr>b_content = \<lparr>bc_header = h, bc_state = \<lparr>bs_root_hash = r, bs_txns = ts\<rparr>\<rparr>, b_signature = s\<rparr>)
     (pair_codec header_codec (pair_codec element_codec (pair_codec (list_codec utxo_codec) bytes_codec)))"

definition format_codec :: "block_format codec" where
  "format_codec = map_codec
     (\<lambda>f. case f of BlockV1 b \<Rightarrow> (b, None) | BlockV2 b m \<Rightarrow> (b, Some (timestamp_unix_s m)))
     (\<lambda>(b, m). case m of None \<Rightarrow> BlockV1 b | Some t \<Rightarrow> BlockV2 b \<lparr>timestamp_unix_s = t\<rparr>)
     (pair_codec block_codec (option_codec (option_codec u64_codec)))"

definition txn_codec :: "txn_format codec" where
  "txn_codec = map_codec
     (\<lambda>f. case f of TxnV1 t m \<Rightarrow> (t, tm_block_height m, tm_block_time m, tm_block_hash m, tm_block_txn_index m))
     (\<lambda>(t, h, tm, x, i). TxnV1 t \<lparr>tm_block_height = h, tm_block_time = tm, tm_block_hash = x, tm_block_txn_index = i\<rparr>)
     (pair_codec utxo_codec (pair_codec u64_codec (pair_codec (option_codec u64_codec)
       (pair_codec element_codec (word_codec 4)))))"

lemma simple_codecs_ok [intro]: "codec_ok element_codec" "codec_ok u64_codec" "codec_ok bytes_codec"
  unfolding element_codec_def u64_codec_def bytes_codec_def by (auto intro!: list_codec_ok word_codec_ok)

lemma utxo_codec_ok [intro]: "codec_ok utxo_codec"
  unfolding utxo_codec_def by (intro map_codec_ok pair_codec_ok simple_codecs_ok) simp

lemma header_codec_ok [intro]: "codec_ok header_codec"
  unfolding header_codec_def by (intro map_codec_ok pair_codec_ok list_codec_ok simple_codecs_ok) simp

lemma block_codec_ok [intro]: "codec_ok block_codec"
  unfolding block_codec_def
  by (intro map_codec_ok pair_codec_ok list_codec_ok header_codec_ok utxo_codec_ok simple_codecs_ok) simp

lemma format_codec_ok: "codec_ok format_codec"
  unfolding format_codec_def
  by (intro map_codec_ok pair_codec_ok block_codec_ok option_codec_ok simple_codecs_ok) (simp split: block_format.split)

lemma txn_codec_ok: "codec_ok txn_codec"
  unfolding txn_codec_def
  by (intro map_codec_ok pair_codec_ok utxo_codec_ok option_codec_ok simple_codecs_ok word_codec_ok)
    (simp_all split: txn_format.split)

section \<open>The environment\<close>

fun flat_key :: "key_format \<Rightarrow> bytes" where
  "flat_key (KeyV1 e) = 0 # be_bytes 32 e"
| "flat_key (KeyV2 (KeyElement e)) = 1 # be_bytes 32 e"
| "flat_key (KeyV2 (KeyKnownHash l r)) = 2 # be_bytes 32 l @ be_bytes 32 r"

definition flat_key_read :: "bytes \<Rightarrow> key_format" where
  "flat_key_read bs =
     (if hd bs = 0 then KeyV1 (from_be (tl bs)) else if hd bs = 1 then KeyV2 (KeyElement (from_be (tl bs)))
      else KeyV2 (KeyKnownHash (from_be (take 32 (tl bs))) (from_be (drop 32 (tl bs)))))"

fun flat_value :: "u64 value_format \<Rightarrow> bytes" where
  "flat_value (ValueV1 v) = 0 # be_bytes 8 v"
| "flat_value (ValueV2 (Metadata v)) = 1 # be_bytes 8 v"
| "flat_value (ValueV2 (ValueKnownHash h)) = 2 # be_bytes 32 h"

definition flat_value_read :: "bytes \<Rightarrow> u64 value_format" where
  "flat_value_read bs =
     (if hd bs = 0 then ValueV1 (from_be (tl bs)) else if hd bs = 1 then ValueV2 (Metadata (from_be (tl bs)))
      else ValueV2 (ValueKnownHash (from_be (tl bs))))"

definition run_codec :: "'a codec \<Rightarrow> bytes \<Rightarrow> unit + 'a" where
  "run_codec c bs = (case snd c bs of None \<Rightarrow> Inl () | Some (x, _) \<Rightarrow> Inr x)"

lemma run_codec_ok: "codec_ok c \<Longrightarrow> run_codec c (fst c x) = Inr x"
  unfolding codec_ok_def run_codec_def by (metis append_Nil2 case_prod_conv option.simps(5))

definition sample_env :: "(kv_contents, unit) node_env" where
  "sample_env =
     \<lparr>keccak = (\<lambda>bs. from_be (take 32 (drop 32 bs))), borsh_header = fst header_codec,
      recover = (\<lambda>_ _. Some 7), verify_proof = (\<lambda>_. Inr True), poseidon = (+), kv = memory_kv,
      smirk_format = \<lparr>kf_to_bytes = Inr \<circ> flat_key, kf_from_bytes = Inr \<circ> flat_key_read,
                      vf_to_bytes = Inr \<circ> flat_value, vf_from_bytes = Inr \<circ> flat_value_read\<rparr>,
      format_to_bytes = Inr \<circ> fst format_codec, format_from_bytes = run_codec format_codec,
      txn_format_to_bytes = Inr \<circ> fst txn_codec, txn_format_from_bytes = run_codec txn_codec,
      node_mode = NodeMode, bad_blocks = [3], block_txns_count = 6, safe_eth_height_offset = 64,
      validators_for_height = (\<lambda>_. [7]), local_address = 7, local_sign = (\<lambda>_. signature_default)\<rparr>"

lemma sample_env_simps [simp]:
  "keccak sample_env = (\<lambda>bs. from_be (take 32 (drop 32 bs)))" "borsh_header sample_env = fst header_codec"
  "recover sample_env = (\<lambda>_ _. Some 7)" "snark_verify sample_env = (\<lambda>_. Some True)" "poseidon sample_env = (+)"
  "kv sample_env = memory_kv" "node_mode sample_env = NodeMode" "bad_blocks sample_env = [3]"
  "block_txns_count sample_env = 6" "safe_eth_height_offset sample_env = 64"
  "validators_for_height sample_env = (\<lambda>_. [7])" "local_address sample_env = 7"
  "local_sign sample_env = (\<lambda>_. signature_default)"
  by (simp_all add: sample_env_def snark_verify_def fun_eq_iff)

lemma sample_kv_ok [simp]: "kv_ok (kv sample_env) store_contents"
  by simp

lemma sample_wire_ok [simp]: "wire_ok (format_impl sample_env)"
  using run_codec_ok[OF format_codec_ok] run_codec_ok[OF txn_codec_ok]
  by (simp add: wire_ok_def format_impl_def sample_env_def)

lemma sample_smirk_ok [simp]: "smirk_wire_ok (smirk_format sample_env)"
proof -
  have "flat_key_read (flat_key k) = k" for k
    by (cases k rule: flat_key.cases) (simp_all add: flat_key_read_def from_be_bytes_gen)
  moreover have "flat_value_read (flat_value v) = v" for v
    by (cases v rule: flat_value.cases) (simp_all add: flat_value_read_def from_be_bytes_gen)
  ultimately show ?thesis by (simp add: smirk_wire_ok_def sample_env_def)
qed

text \<open>Empty databases, and a transaction that mints the notes 5 and 6.\<close>

definition sample_tree :: "(u64, kv_contents) persistent" where
  "sample_tree = \<lparr>ps_tree = new_with_cache (Suc 160) simple_cache_new, ps_db = []\<rparr>"

definition sample_txn :: utxo_proof where
  "sample_txn = \<lparr>up_recent_root = 0, up_mb_hash = 0, up_mb_value = 0, up_input_leaves = (0, 0),
                 up_output_leaves = (5, 6), up_proof = []\<rparr>"

lemma sample_tree_inv [simp]: "persist_inv (+) (smirk_format sample_env) store_contents 160 sample_tree"
proof -
  have "db_rep (smirk_format sample_env) (+) [] []" by (simp add: db_rep_def)
  then show ?thesis
    using tree_inv_new[where cinv = "simple_cache_ok (+)" and c = simple_cache_new and n = 160 and hm = "(+)",
        OF simple_cache_new_ok]
    by (simp add: persist_inv_def new_with_cache_def sample_tree_def)
qed

lemma sample_tree_entries [simp]: "t_entries (ps_tree sample_tree) = []"
  by (simp add: sample_tree_def new_with_cache_def)

lemma sample_note_tree [simp]: "tree_inv (+) (simple_cache_ok (+)) 160 (ps_tree sample_tree)"
  using sample_tree_inv by (simp add: persist_inv_def)

definition minting_block :: "u64 \<Rightarrow> block" where
  "minting_block h = \<lparr>b_content = \<lparr>bc_header = bc_header content_genesis\<lparr>bh_height := h\<rparr>,
      bc_state = \<lparr>bs_root_hash = notes_root sample_env [5, 6], bs_txns = [sample_txn]\<rparr>\<rparr>, b_signature = signature_default\<rparr>"

lemma minting_block_simps [simp]:
  "block_height (minting_block h) = h" "block_leaves (minting_block h) = [5, 6]"
  "bs_root_hash (bc_state (b_content (minting_block h))) = notes_root sample_env [5, 6]"
  "bs_txns (bc_state (b_content (minting_block h))) = [sample_txn]"
  by (simp_all add: minting_block_def state_leaves_def leaves_def array2_def sample_txn_def content_genesis_def ZERO_def)

lemma sample_slots_apart [simp]: "slots_apart [5, 6]"
proof -
  have "lsb 5 160 \<noteq> lsb 6 160" by code_simp
  then show ?thesis by (simp add: slots_apart_def)
qed

text \<open>The block that mints 5 and 6 is accepted.\<close>

lemma sample_version_1: "store_rep (format_impl sample_env) (Some (be_bytes 4 (1 :: u32))) [] (store_contents version_1)"
  by simp

lemma sample_apart: "slots_apart (map fst (t_entries (ps_tree sample_tree)) @ block_leaves (minting_block h))"
  by simp

lemma small_canonical: "(5::element) < MODULUS" "(6::element) < MODULUS" "(0::element) < MODULUS"
  by (simp_all add: MODULUS_def)

lemma sample_txn_ok:
  "recent_root_ok E hist h sample_txn"
  "(\<forall>l \<in> set (leaves sample_txn). l < MODULUS \<and> (l \<noteq> ZERO \<longrightarrow> \<not> contains_element (ps_tree sample_tree) l))"
proof -
  show "recent_root_ok E hist h sample_txn" by (simp add: recent_root_ok_def sample_txn_def ZERO_def)
  have "set (leaves sample_txn) = {0, 5, 6}" by (auto simp: sample_txn_def leaves_def array2_def)
  then show "(\<forall>l \<in> set (leaves sample_txn). l < MODULUS \<and> (l \<noteq> ZERO \<longrightarrow> \<not> contains_element (ps_tree sample_tree) l))"
    using small_canonical by (simp add: contains_element_def)
qed

theorem validate_block_iff_witness:
  "validate_block sample_env (minting_block 1) version_1 (ps_tree sample_tree) = Some (Inr ())"
  using validate_block_iff[OF sample_kv_ok sample_wire_ok sample_version_1, of "ps_tree sample_tree" "minting_block 1"]
    sample_txn_ok(1)[of sample_env "[]" 1] sample_txn_ok(2) sample_apart[of 1]
  by (simp add: get_leader_for_block_height_def)

lemma minting_block_accepted:
  "h \<noteq> 3 \<Longrightarrow> validate_block sample_env (minting_block h) version_1 (ps_tree sample_tree) = Some (Inr ())"
  using accepted_iff[OF sample_kv_ok sample_wire_ok sample_version_1, of "ps_tree sample_tree" "minting_block h"]
    sample_txn_ok(1)[of sample_env "[]" h] sample_txn_ok(2) sample_apart[of h]
  by (simp add: get_leader_for_block_height_def)

theorem accepted_block_applies_witness:
  "\<exists>p'. apply_block_to_tree sample_env sample_tree (bc_state (b_content (minting_block 1))) 1 False = Some (p', Inr ())
     \<and> map_of (t_entries (ps_tree p')) 6 = Some 1
     \<and> root_hash (+) (ps_tree p') = Some (notes_root sample_env [5, 6])"
proof -
  have inv: "persist_inv (poseidon sample_env) (smirk_format sample_env) store_contents 160 sample_tree" by simp
  have good: "block_height (minting_block 1) \<notin> set (bad_blocks sample_env)" by simp
  show ?thesis
    using accepted_block_applies[OF sample_kv_ok sample_smirk_ok inv minting_block_accepted good sample_apart]
    by (auto simp: minting_block_simps)
qed

end
