(* ===== verification/Node_Core.thy ===== *)
theory Node_Core
  imports Doomslug Node_Validate Node_Cache Mempool
begin

text \<open>
  The node: \<open>node.rs\<close>, \<open>node/proposal.rs\<close>, \<open>node/transaction.rs\<close>, \<open>node/tick_worker.rs\<close>,
  \<open>node/load.rs\<close> and \<open>network.rs\<close> of \<open>pkg/node\<close>. The state behind the locks of \<open>NodeShared\<close> is the
  record \<open>node_state\<close>; what the node sends (to peers, to waiting requests, to listeners, to its own
  workers) is the list of its outputs. What it reads from Ethereum is a \<open>chain_view\<close>, what it reads
  from clocks and channels a \<open>moment\<close>. A function that awaits is one step; steps that
  interleave with it while it waits are not modelled. Only the tick changes the store; the tick and, in
  \<open>Node_Sync\<close>, a fast snapshot change the tree.
\<close>

section \<open>Messages (network.rs)\<close>

type_synonym snapshot_id = u64

datatype snapshot_kind = SlowSync | FastSync

record snapshot_request =
  sr_snapshot_id :: snapshot_id
  sr_from_height :: u64
  sr_to_height :: u64
  sr_kind :: snapshot_kind

record snapshot_accept =
  sa_snapshot_id :: snapshot_id
  sa_from_height :: u64
  sa_to_height :: u64
  sa_kind :: snapshot_kind

record snapshot_chunk_slow =
  ss_snapshot_id :: snapshot_id
  ss_chunk :: "block list"

record snapshot_chunk_fast =
  sf_snapshot_id :: snapshot_id
  sf_block :: "block option"
  sf_elements :: "element list"

datatype snapshot_chunk = ChunkSlow snapshot_chunk_slow | ChunkFast snapshot_chunk_fast

fun chunk_snapshot_id :: "snapshot_chunk \<Rightarrow> snapshot_id" where
  "chunk_snapshot_id (ChunkSlow sc) = ss_snapshot_id sc"
| "chunk_snapshot_id (ChunkFast sc) = sf_snapshot_id sc"

datatype network_event =
    EvApproval approval
  | EvBlock block
  | EvTransaction utxo_proof
  | EvSnapshotRequest snapshot_request
  | EvSnapshotOffer snapshot_id
  | EvSnapshotAccept snapshot_accept
  | EvSnapshotChunk snapshot_chunk

section \<open>The state (node.rs)\<close>

datatype sync_message =
    OutOfSync u64
  | SnapshotOffer peer_id snapshot_id
  | SnapshotChunk peer_id snapshot_chunk

datatype 'e node_output =
    Reply nat "'e node_error + block"
  | Notify nat block
  | SendAll network_event
  | SendTo peer_id network_event
  | ToSyncWorker sync_message
  | WakeTicker

record ('db, 'e) node_state =
  ns_block_store :: 'db
  ns_notes_tree :: "(u64, 'db) persistent"
  ns_mempool :: "(crypto_hash, utxo_proof, u64, element, nat) mempool_state"
  ns_block_cache :: block_cache
  ns_doomslug :: doomslug
  ns_last_commit :: "nat option"
  ns_listeners :: "nat list"
  ns_out :: "'e node_output list"

record moment =
  mo_now :: nat
  mo_wall :: nat
  mo_unix :: u64
  mo_listening :: "nat \<Rightarrow> bool"

record 'e chain_view =
  cv_block_number :: "'e + u64"
  cv_get_mint :: "u64 \<Rightarrow> element \<Rightarrow> 'e + bool"
  cv_has_burn :: "u64 \<Rightarrow> element \<Rightarrow> 'e + bool"

definition emit :: "'e node_output list \<Rightarrow> ('db, 'e) node_state \<Rightarrow> ('db, 'e) node_state" where
  "emit os s = s\<lparr>ns_out := ns_out s @ os\<rparr>"

abbreviation env_block_hash :: "('db, 'e) node_env \<Rightarrow> block \<Rightarrow> crypto_hash" where
  "env_block_hash E \<equiv> Node_Block.block_hash (keccak E) (borsh_header E)"

abbreviation note_tree :: "('db, 'e) node_state \<Rightarrow> (u64, simple_cache) smirk_tree" where
  "note_tree s \<equiv> ps_tree (ns_notes_tree s)"

definition node_height :: "('db, 'e) node_state \<Rightarrow> u64" where
  "node_height s = ca_height (ns_block_cache s)"

definition node_max_height :: "('db, 'e) node_state \<Rightarrow> u64" where
  "node_max_height s = ca_max_height (ns_block_cache s)"

definition is_validator_for_height :: "('db, 'e) node_env \<Rightarrow> u64 \<Rightarrow> bool" where
  "is_validator_for_height E height \<longleftrightarrow>
     node_mode E = ValidatorMode \<and> (\<exists>p \<in> set (validators_for_height E height). local_address E = p)"

text \<open>The siblings of each element, or the first element that is not in the tree; \<open>path_for\<close> may panic.\<close>

definition get_merkle_paths ::
  "('db, 'e) node_env \<Rightarrow> ('db, 'e) node_state \<Rightarrow> element list \<Rightarrow> ('e node_error + element list list) option" where
  "get_merkle_paths E s els =
     collect_results
       (map (\<lambda>e. if \<not> contains_element (note_tree s) e then Some (Inl (ElementNotInTree e))
                 else map_option (\<lambda>p. Inr (siblings_deepest_first MERKLE_TREE_DEPTH p))
                        (path_for (poseidon E) MERKLE_TREE_DEPTH (note_tree s) e))
         els)"

definition node_get_block ::
  "('db, 'e) node_env \<Rightarrow> ('db, 'e) node_state \<Rightarrow> u64 \<Rightarrow> ('e node_error + block_format option) option" where
  "node_get_block E s height = of_store (store_get (kv E) (format_impl E) (ns_block_store s) height)"

definition get_block_by_hash ::
  "('db, 'e) node_env \<Rightarrow> ('db, 'e) node_state \<Rightarrow> crypto_hash \<Rightarrow> ('e node_error + block_format option) option" where
  "get_block_by_hash E s hash =
     try_bind (of_store (get_block_height_by_hash (kv E) (ns_block_store s) hash)) (\<lambda>h. case h of
       None \<Rightarrow> Some (Inr None)
     | Some height \<Rightarrow> node_get_block E s height)"

definition get_txn ::
  "('db, 'e) node_env \<Rightarrow> ('db, 'e) node_state \<Rightarrow> crypto_hash
     \<Rightarrow> ('e node_error + (utxo_proof \<times> txn_metadata) option) option" where
  "get_txn E s hash =
     try_bind (of_store (get_txn_by_hash (kv E) (format_impl E) (ns_block_store s) hash)) (\<lambda>t.
       Some (Inr (map_option (\<lambda>f. case f of TxnV1 txn metadata \<Rightarrow> (txn, metadata)) t)))"

text \<open>The four lists of blocks: the items of the store without their keys.\<close>

definition fetch_blocks ::
  "('db, 'e) node_env \<Rightarrow> ('db, 'e) node_state \<Rightarrow> u64 bound \<times> u64 bound \<Rightarrow> block_list_order
     \<Rightarrow> ('e node_error + block_format) option list" where
  "fetch_blocks E s rng order =
     map (\<lambda>r. try_bind (of_store r) (\<lambda>(_, b). Some (Inr b)))
       (store_list (kv E) (format_impl E) (ns_block_store s) rng order)"

definition fetch_blocks_non_empty where
  "fetch_blocks_non_empty E s rng order =
     map (\<lambda>r. try_bind (of_store r) (\<lambda>(_, b). Some (Inr b)))
       (store_list_non_empty (kv E) (format_impl E) (ns_block_store s) rng order)"

definition fetch_blocks_paginated where
  "fetch_blocks_paginated E s cursor order limit =
     try_bind (of_store (store_list_paginated (kv E) (format_impl E) (ns_block_store s) cursor order limit))
       (\<lambda>items. Some (Inr (map (\<lambda>r. try_bind (of_store r) (\<lambda>(_, b). Some (Inr b))) items)))"

definition fetch_blocks_non_empty_paginated where
  "fetch_blocks_non_empty_paginated E s cursor order limit =
     try_bind (of_store (store_list_non_empty_paginated (kv E) (format_impl E) (ns_block_store s) cursor order limit))
       (\<lambda>items. Some (Inr (map (\<lambda>r. try_bind (of_store r) (\<lambda>(_, b). Some (Inr b))) items)))"

definition node_root_hash :: "('db, 'e) node_env \<Rightarrow> ('db, 'e) node_state \<Rightarrow> element option" where
  "node_root_hash E s = root_hash (poseidon E) (note_tree s)"

definition last_commit_time :: "('db, 'e) node_state \<Rightarrow> nat option" where
  "last_commit_time s = ns_last_commit s"

text \<open>\<open>now\<close> is the time of the clock in seconds.\<close>

definition estimate_block_time :: "u64 \<Rightarrow> u64 \<Rightarrow> u64 \<Rightarrow> u64" where
  "estimate_block_time now height max_height = now - (if max_height < height then 0 else max_height - height)"

text \<open>
  \<open>commit_stream\<close>: the listener it registers, and the items of the stream once the first block was
  committed; \<open>later\<close> are the blocks committed after it.
\<close>

definition commit_listen :: "nat \<Rightarrow> ('db, 'e) node_state \<Rightarrow> ('db, 'e) node_state" where
  "commit_listen listener s = s\<lparr>ns_listeners := ns_listeners s @ [listener]\<rparr>"

definition commit_stream ::
  "('db, 'e) node_env \<Rightarrow> ('db, 'e) node_state \<Rightarrow> u64 option \<Rightarrow> block \<Rightarrow> block list
     \<Rightarrow> ('e node_error + block) option list" where
  "commit_stream E s from_height first_commit later =
     (let rx_stream = map (\<lambda>b. Some (Inr b)) later
      in case from_height of
           None \<Rightarrow> Some (Inr first_commit) # rx_stream
         | Some height \<Rightarrow>
             (let blocks_before =
                    map (\<lambda>r. try_bind r (\<lambda>f. Some (Inr (into_block f))))
                      (fetch_blocks E s (Included height, Excluded (block_height first_commit)) LowestToHighest)
              in filter (\<lambda>r. case r of Some (Inr b) \<Rightarrow> height \<le> block_height b | _ \<Rightarrow> True)
                   (blocks_before @ Some (Inr first_commit) # rx_stream)))"

section \<open>Transactions (node/transaction.rs)\<close>

text \<open>\<open>overflowing_sub\<close>, with 0 when it overflows.\<close>

definition safe_eth_height :: "u64 \<Rightarrow> u64 \<Rightarrow> u64" where
  "safe_eth_height eth_block offset = (if eth_block < offset then 0 else eth_block - offset)"

definition check_mint_or_burn ::
  "('db, 'e) node_env \<Rightarrow> 'e chain_view \<Rightarrow> utxo_proof \<Rightarrow> 'e node_error + unit" where
  "check_mint_or_burn E C utxo =
     (case cv_block_number C of
        Inl e \<Rightarrow> Inl (FailedToGetEthBlockNumber e)
      | Inr eth_block \<Rightarrow>
          (let height = safe_eth_height eth_block (safe_eth_height_offset E);
               (i1, i2) = up_input_leaves utxo; (o1, o2) = up_output_leaves utxo
           in if i1 = ZERO \<and> i2 = ZERO \<and> o2 = ZERO then
                (case cv_get_mint C height o1 of
                   Inl e \<Rightarrow> Inl (Contracts e)
                 | Inr found \<Rightarrow> if found then Inr () else Inl (MintIsNotInTheContract o1))
              else if i2 = ZERO \<and> o1 = ZERO \<and> o2 = ZERO then
                (case cv_has_burn C height i1 of
                   Inl e \<Rightarrow> Inl (Contracts e)
                 | Inr found \<Rightarrow> if found then Inr () else Inl (BurnIsNotInTheContract i1))
              else Inl InvalidMintOrBurnLeaves))"

definition validate_transaction ::
  "('db, 'e) node_env \<Rightarrow> 'e chain_view \<Rightarrow> utxo_proof \<Rightarrow> ('db, 'e) node_state \<Rightarrow> ('e node_error + unit) option"
where
  "validate_transaction E C utxo s =
     (let is_mint_or_burn = up_mb_hash utxo \<noteq> ZERO \<and> up_mb_value utxo \<noteq> ZERO
      in try_bind (if is_mint_or_burn then Some (check_mint_or_burn E C utxo) else Some (Inr ())) (\<lambda>_.
           validate_txn E utxo (node_height s) (ns_block_store s) (note_tree s)))"

definition receive_transaction ::
  "('db, 'e) node_env \<Rightarrow> 'e chain_view \<Rightarrow> utxo_proof \<Rightarrow> ('db, 'e) node_state \<Rightarrow> ('db, 'e) node_state option" where
  "receive_transaction E C txn s =
     (case validate_transaction E C txn s of
        None \<Rightarrow> None
      | Some (Inl err) \<Rightarrow> Some s
      | Some (Inr _) \<Rightarrow>
          Some (s\<lparr>ns_mempool := mempool_add (utxo_hash (keccak E) txn) txn (leaves txn) (ns_mempool s)\<rparr>))"

text \<open>
  The loop of \<open>submit_transaction_and_wait\<close>: each round sees the chain and the node as they are then,
  and reads the number of the last Ethereum block again before it decides to wait on. \<open>Waiting\<close> is a
  loop that is still waiting after the rounds given.
\<close>

datatype 'e submit_result = Accepted | Refused "'e node_error" | Waiting

fun submit_loop ::
  "('db, 'e) node_env \<Rightarrow> utxo_proof \<Rightarrow> u64 option
     \<Rightarrow> ('e chain_view \<times> ('e + u64) \<times> ('db, 'e) node_state) list \<Rightarrow> 'e submit_result option" where
  "submit_loop E utxo started_at [] = Some Waiting"
| "submit_loop E utxo started_at ((C, block_number, s) # rounds) =
     (case validate_transaction E C utxo s of
        None \<Rightarrow> None
      | Some (Inr _) \<Rightarrow> Some Accepted
      | Some (Inl err) \<Rightarrow>
          (if (\<exists>key. err = MintIsNotInTheContract key) \<or> (\<exists>key. err = BurnIsNotInTheContract key) then
             (case block_number of
                Inl e \<Rightarrow> Some (Refused (FailedToGetEthBlockNumber e))
              | Inr current_eth_block \<Rightarrow>
                  (let started_waiting = (case started_at of None \<Rightarrow> current_eth_block | Some b \<Rightarrow> b);
                       waited_too_long = current_eth_block - started_waiting > safe_eth_height_offset E
                   in if safe_eth_height_offset E = 0 \<or> waited_too_long then Some (Refused err)
                      else submit_loop E utxo (Some started_waiting) rounds))
           else Some (Refused err)))"

text \<open>What \<open>submit_transaction_and_wait\<close> does once the loop ended; \<open>sender\<close> waits for the commit.\<close>

definition submit_accepted ::
  "('db, 'e) node_env \<Rightarrow> utxo_proof \<Rightarrow> nat \<Rightarrow> ('db, 'e) node_state \<Rightarrow> ('db, 'e) node_state" where
  "submit_accepted E utxo sender s =
     (let s = emit [SendAll (EvTransaction utxo)] s
      in s\<lparr>ns_mempool := mempool_add_wait (utxo_hash (keccak E) utxo) utxo (leaves utxo) sender (ns_mempool s)\<rparr>)"

section \<open>Proposals (node/proposal.rs)\<close>

definition commit_proposal ::
  "('db, 'e) node_env \<Rightarrow> moment \<Rightarrow> block \<Rightarrow> ('db, 'e) node_state
     \<Rightarrow> (('db, 'e) node_state \<times> ('e node_error + unit)) option" where
  "commit_proposal E m b s =
     (let state = bc_state (b_content b);
          height = block_height b;
          s = s\<lparr>ns_last_commit := Some (mo_now m)\<rparr>;
          keys = map (utxo_hash (keccak E)) (bs_txns state);
          leaves = filter (\<lambda>e. e \<noteq> ZERO) (state_leaves state);
          skip_validation = height \<in> set (bad_blocks E)
      in if \<exists>leaf \<in> set leaves. \<not> skip_validation \<and> contains_element (note_tree s) leaf then None
         else
           (case of_store (store_set (kv E) (format_impl E) (ns_block_store s)
                             (BlockV2 b \<lparr>timestamp_unix_s = Some (mo_unix m)\<rparr>)) of
              None \<Rightarrow> None
            | Some (Inl e) \<Rightarrow> Some (s, Inl e)
            | Some (Inr db) \<Rightarrow>
                (let s = s\<lparr>ns_block_store := db\<rparr>
                 in case apply_block_to_tree E (ns_notes_tree s) state height skip_validation of
                      None \<Rightarrow> None
                    | Some (tree, Inl e) \<Rightarrow> Some (s\<lparr>ns_notes_tree := tree\<rparr>, Inl e)
                    | Some (tree, Inr _) \<Rightarrow>
                        (let s = s\<lparr>ns_notes_tree := tree\<rparr>;
                             (mempool, sent) = mempool_commit height (map (\<lambda>k. (k, Inr b)) keys) (ns_mempool s);
                             s = emit (map (\<lambda>(sender, r). Reply sender r) sent) (s\<lparr>ns_mempool := mempool\<rparr>);
                             s = emit (map (\<lambda>l. Notify l b) (filter (mo_listening m) (ns_listeners s))) s
                         in Some (s\<lparr>ns_listeners := filter (mo_listening m) (ns_listeners s)\<rparr>, Inr ())))))"

text \<open>\<open>None\<close>: the panic in validator mode.\<close>

definition receive_proposal ::
  "('db, 'e) node_env \<Rightarrow> block \<Rightarrow> ('db, 'e) node_state \<Rightarrow> ('db, 'e) node_state option" where
  "receive_proposal E b s =
     (if node_mode E = ValidatorMode then None
      else
        (let keys = map (utxo_hash (keccak E)) (bs_txns (bc_state (b_content b)))
         in Some (s\<lparr>ns_block_cache := cache_insert (env_block_hash E) b (ns_block_cache s),
                    ns_mempool := lease_txns (block_height b) keys (ns_mempool s)\<rparr>)))"

text \<open>
  \<open>create_proposal\<close>. The transactions of the lease are validated one after the other, each with the
  chain as it is then; the first one that fails is the result.
\<close>

fun first_invalid ::
  "('db, 'e) node_env \<Rightarrow> (utxo_proof \<Rightarrow> 'e chain_view) \<Rightarrow> ('db, 'e) node_state
     \<Rightarrow> (crypto_hash \<times> utxo_proof) list \<Rightarrow> (utxo_proof \<times> 'e node_error) option option" where
  "first_invalid E C s [] = Some None"
| "first_invalid E C s ((_, txn) # utxos) =
     (case validate_transaction E (C txn) txn s of
        None \<Rightarrow> None
      | Some (Inl err) \<Rightarrow> Some (Some (txn, err))
      | Some (Inr _) \<Rightarrow> first_invalid E C s utxos)"

definition release_lease ::
  "u64 \<Rightarrow> (crypto_hash \<times> 'e node_error) list \<Rightarrow> ('db, 'e) node_state \<Rightarrow> ('db, 'e) node_state" where
  "release_lease height failed s =
     (let (mempool, sent) = mempool_commit height (map (\<lambda>(k, e). (k, Inl e)) failed) (ns_mempool s)
      in emit (map (\<lambda>(sender, r). Reply sender r) sent) (s\<lparr>ns_mempool := mempool\<rparr>))"

text \<open>Who is told about a proposal that does not validate.\<close>

definition failed_txns ::
  "('db, 'e) node_env \<Rightarrow> block \<Rightarrow> 'e node_error \<Rightarrow> (crypto_hash \<times> 'e node_error) list" where
  "failed_txns E b err =
     (case err of
        LeafAlreadyInsertedInTheSameBlock _ _ failing_txn_hash \<Rightarrow> [(failing_txn_hash, err)]
      | NoteAlreadySpent _ failing_txn_hash \<Rightarrow> [(failing_txn_hash, err)]
      | UtxoRootIsNotRecentEnough _ _ hash \<Rightarrow> [(hash, err)]
      | _ \<Rightarrow> map (\<lambda>t. (utxo_hash (keccak E) t, err)) (bs_txns (bc_state (b_content b))))"

definition to_block :: "('db, 'e) node_env \<Rightarrow> block_content \<Rightarrow> block" where
  "to_block E c =
     \<lparr>b_content = c, b_signature = local_sign E (Node_Block.content_hash (keccak E) (borsh_header E) c)\<rparr>"

definition proposal_content ::
  "u64 \<Rightarrow> crypto_hash \<Rightarrow> signature list \<Rightarrow> element \<Rightarrow> utxo_proof list \<Rightarrow> block_content" where
  "proposal_content height last_block_hash accepts root txns =
     \<lparr>bc_header = \<lparr>bh_height = height, bh_last_block_hash = last_block_hash, bh_epoch_id = 0,
                   bh_last_final_block_hash = last_block_hash, bh_approvals = accepts\<rparr>,
      bc_state = block_state_new root txns\<rparr>"

definition finish_proposal ::
  "('db, 'e) node_env \<Rightarrow> moment \<Rightarrow> u64 \<Rightarrow> block \<Rightarrow> ('db, 'e) node_state
     \<Rightarrow> (('db, 'e) node_state \<times> ('e node_error + block)) option" where
  "finish_proposal E m height b s =
     (case validate_block E b (ns_block_store s) (note_tree s) of
        None \<Rightarrow> None
      | Some (Inl err) \<Rightarrow> Some (release_lease height (failed_txns E b err) s, Inl err)
      | Some (Inr _) \<Rightarrow>
          (case commit_proposal E m b s of
             None \<Rightarrow> None
           | Some (s, Inl err) \<Rightarrow> Some (s, Inl err)
           | Some (s, Inr _) \<Rightarrow>
               (let s = s\<lparr>ns_block_cache := cache_insert (env_block_hash E) b (ns_block_cache s)\<rparr>;
                    s = s\<lparr>ns_block_cache := cache_confirm height (ns_block_cache s)\<rparr>
                in Some (emit [SendAll (EvBlock b)] s, Inr b))))"

definition create_proposal ::
  "('db, 'e) node_env \<Rightarrow> (utxo_proof \<Rightarrow> 'e chain_view) \<Rightarrow> moment \<Rightarrow> crypto_hash \<Rightarrow> u64 \<Rightarrow> signature list
     \<Rightarrow> ('db, 'e) node_state \<Rightarrow> (('db, 'e) node_state \<times> ('e node_error + block)) option" where
  "create_proposal E C m last_block_hash height accepts s =
     (case lease_batch height (block_txns_count E) (ns_mempool s) of
        None \<Rightarrow> None
      | Some (utxos, mempool) \<Rightarrow>
          (let s = s\<lparr>ns_mempool := mempool\<rparr>
           in case first_invalid E C s utxos of
                None \<Rightarrow> None
              | Some (Some (txn, err)) \<Rightarrow>
                  (let hash = utxo_hash (keccak E) txn
                   in Some (release_lease height [(hash, err)] s, Inl (InvalidTransaction hash)))
              | Some None \<Rightarrow>
                  (let txns = map snd utxos;
                       leaves = filter (\<lambda>leaf. leaf \<noteq> ZERO) (concat (map leaves txns))
                   in case validate_root E (note_tree s) leaves of
                        None \<Rightarrow> None
                      | Some new_root_hash \<Rightarrow>
                          finish_proposal E m height
                            (to_block E (proposal_content height last_block_hash accepts new_root_hash txns)) s)))"

section \<open>The tick (node/tick_worker.rs)\<close>

datatype 'a run = Finished 'a | Panicked | OutOfFuel

text \<open>The loop that commits what can be committed; the result tells whether it ended without an error.\<close>

fun tick_loop ::
  "nat \<Rightarrow> ('db, 'e) node_env \<Rightarrow> (block \<Rightarrow> moment) \<Rightarrow> ('db, 'e) node_state \<Rightarrow> (('db, 'e) node_state \<times> bool) run" where
  "tick_loop 0 E M s = OutOfFuel"
| "tick_loop (Suc fuel) E M s =
     (case get_next_commit_block (ns_block_cache s) of
        None \<Rightarrow> Finished (s, True)
      | Some b \<Rightarrow>
          (case validate_block E b (ns_block_store s) (note_tree s) of
             None \<Rightarrow> Panicked
           | Some (Inl err) \<Rightarrow>
               tick_loop fuel E M (s\<lparr>ns_block_cache := cache_remove (env_block_hash E b) (ns_block_cache s)\<rparr>)
           | Some (Inr _) \<Rightarrow>
               (case commit_proposal E (M b) b
                       (s\<lparr>ns_block_cache := cache_confirm (block_height b) (ns_block_cache s)\<rparr>) of
                  None \<Rightarrow> Panicked
                | Some (s, Inl err) \<Rightarrow> Finished (s, False)
                | Some (s, Inr _) \<Rightarrow> tick_loop fuel E M s)))"

definition handle_out_of_sync :: "('db, 'e) node_state \<Rightarrow> ('db, 'e) node_state" where
  "handle_out_of_sync s = emit [ToSyncWorker (OutOfSync (node_max_height s))] s"

text \<open>The seconds until the next tick, if it is scheduled.\<close>

definition follower_tick ::
  "nat \<Rightarrow> ('db, 'e) node_env \<Rightarrow> (block \<Rightarrow> moment) \<Rightarrow> ('db, 'e) node_state
     \<Rightarrow> (('db, 'e) node_state \<times> nat option) run" where
  "follower_tick fuel E M s =
     (case tick_loop fuel E M s of
        Panicked \<Rightarrow> Panicked
      | OutOfFuel \<Rightarrow> OutOfFuel
      | Finished (s, False) \<Rightarrow> Finished (s, None)
      | Finished (s, True) \<Rightarrow>
          (case is_out_of_sync (ns_block_cache s) of
             None \<Rightarrow> Panicked
           | Some True \<Rightarrow> Finished (handle_out_of_sync s, Some 5)
           | Some False \<Rightarrow> Finished (s, if node_mode E = ValidatorMode then Some 60 else None)))"

definition leader_tick ::
  "('db, 'e) node_env \<Rightarrow> (utxo_proof \<Rightarrow> 'e chain_view) \<Rightarrow> moment \<Rightarrow> ('db, 'e) node_state
     \<Rightarrow> (('db, 'e) node_state \<times> nat option) run" where
  "leader_tick E C m s =
     (let target_height = node_height s + 1
      in case cache_hash (ns_block_cache s) of
           None \<Rightarrow> Panicked
         | Some last_confirmed \<Rightarrow>
             (case to_approval_validated (keccak E) (\<lambda>_. local_sign E) (\<lambda>_. local_address E) ()
                     (new_endorsement last_confirmed (unat target_height)) of
                None \<Rightarrow> Panicked
              | Some approval \<Rightarrow>
                  (case create_proposal E C m last_confirmed target_height [av_signature approval] s of
                     None \<Rightarrow> Panicked
                   | Some (s, _) \<Rightarrow> Finished (s, Some 1))))"

definition tick ::
  "nat \<Rightarrow> ('db, 'e) node_env \<Rightarrow> (utxo_proof \<Rightarrow> 'e chain_view) \<Rightarrow> moment \<Rightarrow> (block \<Rightarrow> moment) \<Rightarrow> ('db, 'e) node_state
     \<Rightarrow> (('db, 'e) node_state \<times> nat option) run" where
  "tick fuel E C m M s =
     (if \<not> is_validator_for_height E (node_height s + 1) then follower_tick fuel E M s else leader_tick E C m s)"

section \<open>Approvals (node.rs)\<close>

definition send_accept ::
  "('db, 'e) node_env \<Rightarrow> approval_content \<Rightarrow> ('db, 'e) node_state \<Rightarrow> ('db, 'e) node_state option" where
  "send_accept E content s =
     (if node_mode E \<noteq> ValidatorMode then Some s
      else do {
        out_of_sync \<leftarrow> is_out_of_sync (ns_block_cache s);
        if out_of_sync then Some s
        else do {
          approval \<leftarrow> to_approval (keccak E) (\<lambda>_. local_sign E) () content;
          Some (emit [SendAll (EvApproval approval)] s) } })"

definition validator_stakes :: "('db, 'e) node_env \<Rightarrow> nat \<Rightarrow> (approval_stake \<times> bool) list" where
  "validator_stakes E height =
     map (\<lambda>a. (\<lparr>st_validator = a, stake_this_epoch = 1, stake_next_epoch = 1\<rparr>, False))
       (validators_for_height E (word_of_nat height))"

definition receive_accept ::
  "('db, 'e) node_env \<Rightarrow> moment \<Rightarrow> approval \<Rightarrow> ('db, 'e) node_state
     \<Rightarrow> (('db, 'e) node_state \<times> ('e node_error + unit)) option" where
  "receive_accept E m message s =
     (if node_mode E \<noteq> ValidatorMode then Some (s, Inr ())
      else do {
        let target_height = ac_target_height (ap_content message);
        leader \<leftarrow> get_leader_for_block_height E (word_of_nat target_height);
        if leader \<noteq> local_address E then Some (s, Inr ())
        else do {
          approval \<leftarrow> approval_try_from (keccak E) (recover E) message;
          (case approval of
             Inl _ \<Rightarrow> Some (s, Inl DoomslugError)
           | Inr approval \<Rightarrow> do {
               ds \<leftarrow> on_approval (mo_wall m) (mo_now m) approval (validator_stakes E target_height) (ns_doomslug s);
               Some (s\<lparr>ns_doomslug := ds\<rparr>, Inr ()) }) } })"

section \<open>Loading (node/load.rs)\<close>

text \<open>
  The directories: whether the one of the blocks is there, opening both databases and renaming them;
  after a reset the directories are those of a second disk.
\<close>

record ('db, 'e) disk =
  dk_store_present :: "'e + bool"
  dk_open_store :: "bool \<Rightarrow> 'e + 'db"
  dk_open_smirk :: "'e + 'db"
  dk_rename_db :: "'e + unit"
  dk_rename_smirk :: "'e + unit"

record 'db loaded_data =
  ld_block_store :: 'db
  ld_persistent_tree :: "(u64, 'db) persistent"
  ld_block :: block

definition of_smirk :: "('e storage_error + 'a) option \<Rightarrow> ('e node_error + 'a) option" where
  "of_smirk r = map_option (map_sum SmirkError id) r"

definition load_smirk ::
  "('db, 'e) node_env \<Rightarrow> ('db, 'e) disk \<Rightarrow> ('e node_error + (u64, 'db) persistent) option" where
  "load_smirk E D = of_smirk (persistent_load (kv E) (smirk_format E) (poseidon E) MERKLE_TREE_DEPTH (dk_open_smirk D))"

definition load_store :: "('db, 'e) node_env \<Rightarrow> ('db, 'e) disk \<Rightarrow> ('e node_error + 'db) option" where
  "load_store E D = of_store (create_or_load (kv E) (dk_store_present D) (dk_open_store D))"

definition reset_db_and_smirk :: "bool \<Rightarrow> bool \<Rightarrow> ('db, 'e) disk \<Rightarrow> 'e node_error + unit" where
  "reset_db_and_smirk db smirk D =
     (case (if db then dk_rename_db D else Inr ()) of
        Inl e \<Rightarrow> Inl (IoError e)
      | Inr _ \<Rightarrow> (case (if smirk then dk_rename_smirk D else Inr ()) of Inl e \<Rightarrow> Inl (IoError e) | Inr _ \<Rightarrow> Inr ()))"

text \<open>The block of a height; \<open>None\<close> is also the \<open>unwrap\<close> of a block that is not there.\<close>

definition expect_block :: "('db, 'e) node_env \<Rightarrow> 'db \<Rightarrow> u64 \<Rightarrow> ('e node_error + block) option" where
  "expect_block E db height =
     try_bind (of_store (store_get (kv E) (format_impl E) db height)) (\<lambda>b.
       map_option (\<lambda>f. Inr (into_block f)) b)"

definition recover_tree ::
  "('db, 'e) node_env \<Rightarrow> (u64, 'db) persistent \<Rightarrow> block \<Rightarrow> u64 \<Rightarrow> ('e node_error + (u64, 'db) persistent) option" where
  "recover_tree E tree b max_height =
     (case apply_block_to_tree E tree (bc_state (b_content b)) max_height (max_height \<in> set (bad_blocks E)) of
        None \<Rightarrow> None
      | Some (_, Inl e) \<Rightarrow> Some (Inl e)
      | Some (tree, Inr _) \<Rightarrow>
          (case root_hash (poseidon E) (ps_tree tree) of
             None \<Rightarrow> None
           | Some root \<Rightarrow> if root = bs_root_hash (bc_state (b_content b)) then Some (Inr tree) else None))"

definition load_db_and_smirk ::
  "('db, 'e) node_env \<Rightarrow> ('db, 'e) disk \<Rightarrow> ('db, 'e) disk \<Rightarrow> ('e node_error + 'db loaded_data) option" where
  "load_db_and_smirk E D D' =
     try_bind (load_store E D) (\<lambda>db.
     try_bind (load_smirk E D) (\<lambda>tree.
     try_bind (of_store (get_max_height (kv E) db)) (\<lambda>max_height. case max_height of
       None \<Rightarrow>
         try_bind (Some (reset_db_and_smirk False True D)) (\<lambda>_.
         try_bind (load_smirk E D') (\<lambda>tree.
         Some (Inr \<lparr>ld_block_store = db, ld_persistent_tree = tree, ld_block = genesis\<rparr>)))
     | Some max_height \<Rightarrow>
         try_bind (expect_block E db max_height) (\<lambda>b.
         (case root_hash (poseidon E) (ps_tree tree) of
            None \<Rightarrow> None
          | Some root \<Rightarrow>
              if root = bs_root_hash (bc_state (b_content b))
              then Some (Inr \<lparr>ld_block_store = db, ld_persistent_tree = tree, ld_block = b\<rparr>)
              else
                try_bind (expect_block E db (max_height - 1)) (\<lambda>previous_block.
                if root = bs_root_hash (bc_state (b_content previous_block))
                then
                  try_bind (recover_tree E tree b max_height) (\<lambda>tree.
                  Some (Inr \<lparr>ld_block_store = db, ld_persistent_tree = tree, ld_block = b\<rparr>))
                else
                  try_bind (Some (reset_db_and_smirk True True D)) (\<lambda>_.
                  try_bind (load_store E D') (\<lambda>db.
                  try_bind (load_smirk E D') (\<lambda>tree.
                  Some (Inr \<lparr>ld_block_store = db, ld_persistent_tree = tree, ld_block = genesis\<rparr>))))))))))"

text \<open>
  \<open>Node::new\<close>, up to the start of the network: the store is migrated, the cache starts at the block.
  Durations are in nanoseconds. \<open>MAX_BLOCK_PRODUCTION_DELAY\<close> is documented in milliseconds and read as
  seconds.
\<close>

definition MIN_BLOCK_PRODUCTION_DELAY :: nat where "MIN_BLOCK_PRODUCTION_DELAY = 600"

definition MAX_BLOCK_PRODUCTION_DELAY :: nat where "MAX_BLOCK_PRODUCTION_DELAY = 2000"

definition MAX_BLOCK_WAIT_DELAY :: nat where "MAX_BLOCK_WAIT_DELAY = 6000"

definition from_millis :: "nat \<Rightarrow> nat" where "from_millis d = d * 10 ^ 6"

definition from_secs :: "nat \<Rightarrow> nat" where "from_secs d = d * 10 ^ 9"

definition node_doomslug :: "nat \<Rightarrow> block \<Rightarrow> doomslug" where
  "node_doomslug real initial_block =
     doomslug_new real (unat (block_height initial_block))
       (from_millis MIN_BLOCK_PRODUCTION_DELAY) (from_secs MAX_BLOCK_PRODUCTION_DELAY)
       (from_secs MAX_BLOCK_PRODUCTION_DELAY div 10) (from_millis MAX_BLOCK_WAIT_DELAY) TwoThirds"

definition node_new ::
  "nat \<Rightarrow> ('db, 'e) node_env \<Rightarrow> nat \<Rightarrow> ('db, 'e) disk \<Rightarrow> ('db, 'e) disk
     \<Rightarrow> ('e node_error + ('db, 'e) node_state) option option" where
  "node_new fuel E real D D' =
     (case load_db_and_smirk E D D' of
        None \<Rightarrow> Some None
      | Some (Inl e) \<Rightarrow> Some (Some (Inl e))
      | Some (Inr ld) \<Rightarrow>
          (case migrate fuel (kv E) (format_impl E) (ld_block_store ld) of
             None \<Rightarrow> None
           | Some None \<Rightarrow> Some None
           | Some (Some (Inl e)) \<Rightarrow> Some (Some (Inl (BlockStoreError e)))
           | Some (Some (Inr db)) \<Rightarrow>
               Some (Some (Inr \<lparr>ns_block_store = db, ns_notes_tree = ld_persistent_tree ld,
                 ns_mempool = mempool_default, ns_block_cache = cache_new (env_block_hash E) (ld_block ld) 10000,
                 ns_doomslug = node_doomslug real (ld_block ld), ns_last_commit = None, ns_listeners = [],
                 ns_out = []\<rparr>))))"

text \<open>Because of that the delay before a skip is the greatest one from the start.\<close>

lemma skip_delay_constant: "get_delay (timer (node_doomslug real b)) n = from_millis MAX_BLOCK_WAIT_DELAY"
  by (simp add: node_doomslug_def doomslug_new_def get_delay_def from_millis_def from_secs_def
      MAX_BLOCK_WAIT_DELAY_def MAX_BLOCK_PRODUCTION_DELAY_def)

end
