(* ===== verification/Node_Core_Props.thy ===== *)
theory Node_Core_Props
  imports Node_Core Node_Sample
begin

text \<open>
  The node as a whole: what its state stands for, a chain of blocks of which each was accepted after the
  ones before it; a tick of a follower commits what can be committed and ends, or panics on a block with a
  proof that cannot be read.
\<close>

section \<open>The chain\<close>

text \<open>
  The notes and the blocks a statement is about: what the node has and what it receives. Of the notes the
  invariant asks that they have different slots, that is, differ in the 160 bits a slot is made of.
\<close>

record seen =
  un_notes :: "element set"
  un_blocks :: "block set"

definition seen_le :: "seen \<Rightarrow> seen \<Rightarrow> bool" where
  "seen_le U W \<longleftrightarrow> un_notes U \<subseteq> un_notes W \<and> un_blocks U \<subseteq> un_blocks W"

definition slots_clash :: "element set \<Rightarrow> bool" where
  "slots_clash N \<longleftrightarrow> \<not> inj_on (\<lambda>e. lsb e 160) N"

text \<open>
  The environment: a database that never fails and keeps what is written, and encodings that can be read
  back.
\<close>

definition env_base :: "('db, 'e) node_env \<Rightarrow> ('db \<Rightarrow> kv_contents) \<Rightarrow> bool" where
  "env_base E contents \<longleftrightarrow>
     kv_ok (kv E) contents \<and> wire_ok (format_impl E) \<and> smirk_wire_ok (smirk_format E)"

definition env_ok :: "('db, 'e) node_env \<Rightarrow> ('db \<Rightarrow> kv_contents) \<Rightarrow> seen \<Rightarrow> bool" where
  "env_ok E contents U \<longleftrightarrow> env_base E contents \<and> \<not> slots_clash (un_notes U)"

lemma env_okD:
  assumes "env_ok E contents U"
  shows "kv_ok (kv E) contents" "wire_ok (format_impl E)" "smirk_wire_ok (smirk_format E)"
    "inj_on (\<lambda>e. lsb e 160) (un_notes U)"
  using assms by (simp_all add: env_ok_def env_base_def slots_clash_def)

abbreviation fmt_height :: "block_format \<Rightarrow> u64" where
  "fmt_height f \<equiv> block_height (into_block f)"

abbreviation fmt_leaves :: "block_format \<Rightarrow> element list" where
  "fmt_leaves f \<equiv> block_leaves (into_block f)"

text \<open>The newest block first, each one higher than the one before it.\<close>

fun chained :: "block_format list \<Rightarrow> bool" where
  "chained (f # g # hist) \<longleftrightarrow> fmt_height f = fmt_height g + 1 \<and> fmt_height g < fmt_height f \<and> chained (g # hist)"
| "chained _ \<longleftrightarrow> True"

definition extends :: "block \<Rightarrow> block_format list \<Rightarrow> bool" where
  "extends b hist \<longleftrightarrow> (hist \<noteq> [] \<longrightarrow> block_height b = fmt_height (hd hist) + 1 \<and> fmt_height (hd hist) < block_height b)"

definition chain_notes :: "block_format list \<Rightarrow> element list" where
  "chain_notes hist = concat (map fmt_leaves hist)"

lemma chain_notes_simps [simp]:
  "chain_notes [] = []" "chain_notes (f # hist) = fmt_leaves f @ chain_notes hist"
  by (simp_all add: chain_notes_def)

text \<open>What validation accepts, in terms of the chain alone.\<close>

definition accepted :: "('db, 'e) node_env \<Rightarrow> block_format list \<Rightarrow> block \<Rightarrow> bool" where
  "accepted E hist b \<longleftrightarrow>
     (\<exists>leader. get_leader_for_block_height E (block_height b) = Some leader
        \<and> recover E (b_signature b) (env_block_hash E b) = Some leader)
     \<and> distinct (block_leaves b)
     \<and> (\<forall>t \<in> set (bs_txns (bc_state (b_content b))).
          snark_verify E \<lparr>sw_instances = [instances t], sw_proof = up_proof t\<rparr> = Some True
          \<and> recent_root_ok E hist (block_height b) t
          \<and> (\<forall>l \<in> set (leaves t). l < MODULUS \<and> (l \<noteq> ZERO \<longrightarrow> l \<notin> set (chain_notes hist))))
     \<and> bs_root_hash (bc_state (b_content b)) = notes_root E (chain_notes hist @ block_leaves b)"

text \<open>Each block of the chain was accepted after the blocks before it.\<close>

fun valid_chain :: "('db, 'e) node_env \<Rightarrow> block_format list \<Rightarrow> bool" where
  "valid_chain E [] \<longleftrightarrow> True"
| "valid_chain E (f # hist) \<longleftrightarrow> accepted E hist (into_block f) \<and> valid_chain E hist"

definition chain_inv ::
  "('db, 'e) node_env \<Rightarrow> ('db \<Rightarrow> kv_contents) \<Rightarrow> seen \<Rightarrow> bytes option \<Rightarrow> block_format list
     \<Rightarrow> 'db \<Rightarrow> (u64, 'db) persistent \<Rightarrow> bool" where
  "chain_inv E contents U ver hist db p \<longleftrightarrow>
     store_rep (format_impl E) ver hist (contents db)
     \<and> persist_inv (poseidon E) (smirk_format E) contents 160 p
     \<and> set (map fst (t_entries (ps_tree p))) = set (chain_notes hist)
     \<and> distinct (chain_notes hist) \<and> set (chain_notes hist) \<subseteq> un_notes U
     \<and> chained hist \<and> valid_chain E hist \<and> (\<forall>f \<in> set hist. fmt_height f \<notin> set (bad_blocks E))
     \<and> (hist \<noteq> [] \<longrightarrow> root_hash (poseidon E) (ps_tree p) = Some (root_of (hd hist)))"

lemma chain_invD:
  assumes "chain_inv E contents U ver hist db p"
  shows "store_rep (format_impl E) ver hist (contents db)"
    "persist_inv (poseidon E) (smirk_format E) contents 160 p"
    "set (map fst (t_entries (ps_tree p))) = set (chain_notes hist)"
    "distinct (chain_notes hist)" "set (chain_notes hist) \<subseteq> un_notes U" "chained hist"
    "hist \<noteq> [] \<Longrightarrow> root_hash (poseidon E) (ps_tree p) = Some (root_of (hd hist))"
    "f \<in> set hist \<Longrightarrow> fmt_height f \<notin> set (bad_blocks E)" "valid_chain E hist"
  using assms by (simp_all add: chain_inv_def)

lemma chain_note_tree: "chain_inv E contents U ver hist db p \<Longrightarrow> note_tree_inv E (ps_tree p)"
  by (simp add: chain_inv_def persist_inv_def)

lemma chain_apart:
  assumes "env_ok E contents U" "chain_inv E contents U ver hist db p" "set els \<subseteq> un_notes U"
  shows "slots_apart (map fst (t_entries (ps_tree p)) @ els)"
proof -
  have "set (map fst (t_entries (ps_tree p)) @ els) \<subseteq> un_notes U"
    using chain_invD(3,5)[OF assms(2)] assms(3) by simp
  then show ?thesis unfolding slots_apart_def by (rule inj_on_subset[OF env_okD(4)[OF assms(1)]])
qed

lemma keyed_apart: "slots_apart els \<Longrightarrow> distinct els \<Longrightarrow> keyed 160 els"
  unfolding slots_apart_def distinct_map by blast

lemma chain_contains:
  assumes "chain_inv E contents U ver hist db p"
  shows "contains_element (ps_tree p) e \<longleftrightarrow> e \<in> set (chain_notes hist)"
proof -
  have "map_of (t_entries (ps_tree p)) e = None \<longleftrightarrow> e \<notin> fst ` set (t_entries (ps_tree p))" by (rule map_of_eq_None_iff)
  also have "fst ` set (t_entries (ps_tree p)) = set (chain_notes hist)" using chain_invD(3)[OF assms] by simp
  finally show ?thesis by (simp add: contains_element_def del: not_None_eq)
qed

lemma validate_accepted:
  assumes E: "env_ok E contents U" and inv: "chain_inv E contents U ver hist db p"
    and U: "set (block_leaves b) \<subseteq> un_notes U" and good: "block_height b \<notin> set (bad_blocks E)"
  shows "validate_block E b db (ps_tree p) = Some (Inr ()) \<longleftrightarrow> accepted E hist b"
proof -
  note ch = chain_invD[OF inv] and env = env_okD[OF E]
  let ?keys = "map fst (t_entries (ps_tree p))"
  have apart: "slots_apart (?keys @ block_leaves b)" by (rule chain_apart[OF E inv U])
  have apart': "slots_apart (chain_notes hist @ block_leaves b)"
    using apart ch(3) by (simp add: slots_apart_def)
  have keyed: "keyed 160 ?keys" using chain_note_tree[OF inv] by (simp add: tree_inv_def)
  then have dk: "distinct ?keys" unfolding distinct_map[of "\<lambda>e. lsb e 160"] by blast
  have root: "notes_root E (?keys @ block_leaves b) = notes_root E (chain_notes hist @ block_leaves b)"
    if new: "distinct (block_leaves b)" "set (block_leaves b) \<inter> set (chain_notes hist) = {}"
  proof -
    have "distinct (?keys @ block_leaves b)" "distinct (chain_notes hist @ block_leaves b)"
      using new dk ch(3,4) by auto
    note keyed_apart[OF apart this(1)] keyed_apart[OF apart' this(2)]
    then have "slots 160 (?keys @ block_leaves b) = slots 160 (chain_notes hist @ block_leaves b)"
      by (rule slots_set) (use ch(3) in simp)
    then show ?thesis by simp
  qed
  have none: "set (block_leaves b) \<inter> set (chain_notes hist) = {}"
    if "\<forall>t \<in> set (bs_txns (bc_state (b_content b))). \<forall>l \<in> set (leaves t). l \<noteq> ZERO \<longrightarrow> l \<notin> set (chain_notes hist)"
    using that by (auto simp: state_leaves_def)
  show ?thesis
    unfolding accepted_iff[OF env(1,2) ch(1) chain_note_tree[OF inv] apart good] accepted_def chain_contains[OF inv]
    using root none by auto
qed

text \<open>The store and the tree after a commit, for the block that is stored.\<close>

lemma chain_extend:
  assumes E: "env_ok E contents U" and inv: "chain_inv E contents U ver hist db p"
    and valid: "validate_block E b db (ps_tree p) = Some (Inr ())" "block_height b \<notin> set (bad_blocks E)"
    and U: "set (block_leaves b) \<subseteq> un_notes U" and ext: "extends b hist" and f: "into_block f = b"
  shows "\<exists>db' p'. store_set (kv E) (format_impl E) db f = Some (Inr db')
    \<and> apply_block_to_tree E p (bc_state (b_content b)) (block_height b) False = Some (p', Inr ())
    \<and> chain_inv E contents U ver (f # hist) db' p'
    \<and> store_rep (format_impl E) ver (f # hist) (contents db')"
proof -
  note env = env_okD[OF E] and ch = chain_invD[OF inv]
  obtain db' where db': "store_set (kv E) (format_impl E) db f = Some (Inr db')"
    "store_rep (format_impl E) ver (f # hist) (contents db')"
    using store_set_rep[OF env(1,2) ch(1)] by blast
  obtain p' where p': "apply_block_to_tree E p (bc_state (b_content b)) (block_height b) False = Some (p', Inr ())"
    "persist_inv (poseidon E) (smirk_format E) contents 160 p'"
    "map_of (t_entries (ps_tree p'))
        = map_of (t_entries (ps_tree p)) ++ map_of (map (\<lambda>e. (e, block_height b)) (block_leaves b))"
    "root_hash (poseidon E) (ps_tree p') = Some (bs_root_hash (bc_state (b_content b)))"
    using accepted_applies[OF env(1,3) ch(2) valid chain_apart[OF E inv U]] by blast
  note content = validate_block_content(1)[OF valid]
  have new: "set (block_leaves b) \<inter> set (chain_notes hist) = {}"
    using content_leaf_ok(2)[OF content] ch(3) by (auto simp: contains_element_def map_of_eq_None_iff)
  have keys: "set (map fst (t_entries (ps_tree p'))) = set (chain_notes (f # hist))"
  proof -
    have "dom (map_of (t_entries (ps_tree p')))
        = dom (map_of (t_entries (ps_tree p))) \<union> dom (map_of (map (\<lambda>e. (e, block_height b)) (block_leaves b)))"
      unfolding p'(3) by (simp add: Un_commute)
    then show ?thesis using ch(3) f by (simp add: dom_map_of_conv_image_fst image_image Un_commute)
  qed
  have "fmt_height f = fmt_height g + 1 \<and> fmt_height g < fmt_height f" if "hist = g # r" for g r
  proof -
    have "hist \<noteq> []" "hd hist = g" using that by simp_all
    then show ?thesis using ext unfolding extends_def f by blast
  qed
  note step = this
  have "chained (f # hist)"
  proof (cases hist)
    case (Cons g r)
    then show ?thesis using step[OF Cons] ch(6) unfolding Cons chained.simps by blast
  qed simp
  then have "chain_inv E contents U ver (f # hist) db' p'"
    unfolding chain_inv_def
    using db'(2) p'(2,4) keys content_validate_ok(1)[OF content] new ch(4,5,8,9) U f valid(2)
      validate_accepted[OF E inv U valid(2)] valid(1) by (simp add: root_of_def)
  then show ?thesis using db' p'(1) by blast
qed

section \<open>When validation panics\<close>

text \<open>
  Validation panics on a proof that cannot be read, and for nothing else when there are leaders.
\<close>

definition proof_readable :: "('db, 'e) node_env \<Rightarrow> utxo_proof \<Rightarrow> bool" where
  "proof_readable E t \<longleftrightarrow> snark_verify E \<lparr>sw_instances = [instances t], sw_proof = up_proof t\<rparr> \<noteq> None"

definition proofs_readable :: "('db, 'e) node_env \<Rightarrow> block \<Rightarrow> bool" where
  "proofs_readable E b \<longleftrightarrow> (\<forall>t \<in> set (bs_txns (bc_state (b_content b))). proof_readable E t)"

definition has_leaders :: "('db, 'e) node_env \<Rightarrow> bool" where
  "has_leaders E \<longleftrightarrow> (\<forall>h. validators_for_height E h \<noteq> [])"

lemma check_recent_root_total:
  assumes "kv_ok (kv E) contents" "wire_ok (format_impl E)" "store_rep (format_impl E) ver hist (contents db)"
  shows "check_recent_root E t h db \<noteq> None"
  by (simp add: check_recent_root_def recent_roots_spec[OF assms])

lemma try_bind_None: "try_bind m f = None \<longleftrightarrow> m = None \<or> (\<exists>x. m = Some (Inr x) \<and> f x = None)"
  by (auto simp: try_bind_def split: option.split sum.split)

lemma validate_txn_total:
  assumes "kv_ok (kv E) contents" "wire_ok (format_impl E)" "store_rep (format_impl E) ver hist (contents db)"
    and "proof_readable E t"
  shows "validate_txn E t h db tree \<noteq> None"
proof
  assume "validate_txn E t h db tree = None"
  then have "check_recent_root E t h db = None"
    using assms(4) by (auto simp: validate_txn_def to_snark_witness_def try_bind_None proof_readable_def
      split: option.splits bool.splits)
  then show False using check_recent_root_total[OF assms(1-3)] by blast
qed

lemma validate_txns_no_panic:
  assumes "kv_ok (kv E) contents" "wire_ok (format_impl E)" "store_rep (format_impl E) ver hist (contents db)"
    and "\<forall>t \<in> set ts. proof_readable E t"
  shows "validate_txns E h db tree ts m \<noteq> None"
  using assms(4)
proof (induction ts arbitrary: m)
  case (Cons t ts)
  show ?case
  proof
    assume "validate_txns E h db tree (t # ts) m = None"
    then show False using validate_txn_total[OF assms(1-3), of t h tree] Cons by (auto simp: try_bind_None)
  qed
qed simp

lemma content_validate_total:
  assumes E: "env_ok E contents U" and inv: "chain_inv E contents U ver hist db p"
    and U: "set (nz (state_leaves (bc_state c))) \<subseteq> un_notes U"
    and read: "\<forall>t \<in> set (bs_txns (bc_state c)). proof_readable E t"
  shows "content_validate E c db (ps_tree p) \<noteq> None"
proof
  assume panic: "content_validate E c db (ps_tree p) = None"
  note env = env_okD[OF E] and ch = chain_invD[OF inv]
  obtain r where r: "validate_txns E (bh_height (bc_header c)) db (ps_tree p) (bs_txns (bc_state c)) [] = Some r"
    using validate_txns_no_panic[OF env(1,2) ch(1) read, of "bh_height (bc_header c)" "ps_tree p" "[]"] by blast
  obtain m where "r = Inr m"
    using panic r by (cases r) (simp_all add: content_validate_def)
  then have m: "validate_txns E (bh_height (bc_header c)) db (ps_tree p) (bs_txns (bc_state c)) [] = Some (Inr m)"
    using r by simp
  have r: "validate_root E (ps_tree p) (map fst m) = None"
    using panic m by (simp add: content_validate_def split: option.splits)
  note ok = validate_txns_ok[OF m, simplified]
  have els: "map fst m = nz (state_leaves (bc_state c))" using ok by (simp add: state_leaves_def)
  have "validate_root E (ps_tree p) (nz (state_leaves (bc_state c)))
      = Some (notes_root E (map fst (t_entries (ps_tree p)) @ nz (state_leaves (bc_state c))))"
    using ok by (intro validate_root_spec[OF chain_note_tree[OF inv] chain_apart[OF E inv U]])
      (auto simp: NULL_HASH_def validate_txn_ok state_leaves_def)
  then show False using r els by simp
qed

lemma validate_block_total:
  assumes "env_ok E contents U" "chain_inv E contents U ver hist db p" "set (block_leaves b) \<subseteq> un_notes U" "has_leaders E"
    and "proofs_readable E b"
  shows "validate_block E b db (ps_tree p) \<noteq> None"
proof
  assume "validate_block E b db (ps_tree p) = None"
  then have "content_validate E (b_content b) db (ps_tree p) = None"
    using assms(4) by (auto simp: validate_block_def get_leader_for_block_height_def has_leaders_def Let_def
      split: option.splits if_splits)
  then show False using content_validate_total[OF assms(1-3)] assms(5) unfolding proofs_readable_def by blast
qed

section \<open>Commits\<close>

lemma of_store_simps [simp]: "of_store (Some (Inr x)) = Some (Inr x)" "of_store (Some (Inl e)) = Some (Inl (BlockStoreError e))"
  by (simp_all add: of_store_def)

definition committed :: "moment \<Rightarrow> block \<Rightarrow> block_format" where
  "committed m b = BlockV2 b \<lparr>timestamp_unix_s = Some (mo_unix m)\<rparr>"

lemma committed_block [simp]: "into_block (committed m b) = b"
  by (simp add: committed_def)

lemma commit_loop_txns: "set (mp_txns (fst (commit_loop l krs m))) \<subseteq> set (mp_txns m)"
proof (induction l krs m rule: commit_loop.induct)
  case (2 lease key result rest m)
  obtain m1 s1 where 1: "commit_key lease key result m = (m1, s1)" by fastforce
  have "mp_txns m1 = AList.delete key (mp_txns m)" using 1 by (auto simp: commit_key_def Let_def)
  then have "set (mp_txns m1) \<subseteq> set (mp_txns m)" by (auto simp: AList.delete_eq)
  moreover have "set (mp_txns (fst (commit_loop lease rest m1))) \<subseteq> set (mp_txns m1)"
    using 2[OF _ ] 1 by (simp add: 1)
  ultimately show ?case by (simp add: 1 Let_def case_prod_beta subset_trans)
qed simp

lemma mempool_commit_txns: "set (mp_txns (fst (mempool_commit l krs m))) \<subseteq> set (mp_txns m)"
  using commit_loop_txns[of l krs m] by (auto simp: mempool_commit_def mempool_free_def Let_def split: prod.splits)

lemma commit_ok:
  fixes E :: "('db, 'e) node_env"
  assumes E: "env_ok E contents U" and inv: "chain_inv E contents U ver hist (ns_block_store s) (ns_notes_tree s)"
    and valid: "validate_block E b (ns_block_store s) (note_tree s) = Some (Inr ())" "block_height b \<notin> set (bad_blocks E)"
    and U: "set (block_leaves b) \<subseteq> un_notes U" and ext: "extends b hist"
  shows "\<exists>s'. commit_proposal E m b s = Some (s', Inr ())
    \<and> chain_inv E contents U ver (committed m b # hist) (ns_block_store s') (ns_notes_tree s')
    \<and> ns_block_cache s' = ns_block_cache s \<and> set (mp_txns (ns_mempool s')) \<subseteq> set (mp_txns (ns_mempool s))
    \<and> store_set (kv E) (format_impl E) (ns_block_store s) (committed m b) = Some (Inr (ns_block_store s'))"
proof -
  obtain db' p' where new: "store_set (kv E) (format_impl E) (ns_block_store s) (committed m b) = Some (Inr db')"
    "apply_block_to_tree E (ns_notes_tree s) (bc_state (b_content b)) (block_height b) False = Some (p', Inr ())"
    "chain_inv E contents U ver (committed m b # hist) db' p'"
    using chain_extend[OF E inv valid U ext, of "committed m b"] by auto
  have none: "\<not> (\<exists>leaf \<in> set (block_leaves b). contains_element (note_tree s) leaf)"
    using content_leaf_ok(2)[OF validate_block_content(1)[OF valid]] by blast
  define mp where "mp = mempool_commit (block_height b) (map (\<lambda>k. (k, Inr b :: 'e node_error + block)) (map (utxo_hash (keccak E))
      (bs_txns (bc_state (b_content b))))) (ns_mempool s)"
  obtain mp1 sent where mp1: "mp = (mp1, sent)" by (cases mp)
  have sub: "set (mp_txns mp1) \<subseteq> set (mp_txns (ns_mempool s))"
    using mempool_commit_txns[of "block_height b" "map (\<lambda>k. (k, Inr b :: 'e node_error + block)) (map (utxo_hash (keccak E))
      (bs_txns (bc_state (b_content b))))" "ns_mempool s"] mp1 unfolding mp_def by simp
  show ?thesis
    using new sub none valid(2) mp1[unfolded mp_def]
    by (auto simp: commit_proposal_def Let_def committed_def emit_def)
qed

section \<open>The invariant of the node\<close>

definition block_allowed :: "('db, 'e) node_env \<Rightarrow> seen \<Rightarrow> block \<Rightarrow> bool" where
  "block_allowed E U b \<longleftrightarrow> b \<in> un_blocks U \<and> set (block_leaves b) \<subseteq> un_notes U \<and> block_height b \<notin> set (bad_blocks E)"

definition txn_allowed :: "seen \<Rightarrow> utxo_proof \<Rightarrow> bool" where
  "txn_allowed U t \<longleftrightarrow> set (nz (leaves t)) \<subseteq> un_notes U"

definition node_inv ::
  "('db, 'e) node_env \<Rightarrow> ('db \<Rightarrow> kv_contents) \<Rightarrow> seen \<Rightarrow> bytes option \<Rightarrow> block_format list
     \<Rightarrow> ('db, 'e) node_state \<Rightarrow> bool" where
  "node_inv E contents U ver hist s \<longleftrightarrow>
     chain_inv E contents U ver hist (ns_block_store s) (ns_notes_tree s)
     \<and> cache_ok (env_block_hash E) (ns_block_cache s)
     \<and> (\<forall>e \<in> set (ca_blocks (ns_block_cache s)). block_allowed E U (snd e))
     \<and> (\<forall>e \<in> set (mp_txns (ns_mempool s)). txn_allowed U (mt_txn (snd e)))
     \<and> (hist \<noteq> [] \<longrightarrow> fmt_height (hd hist) = node_height s)"

lemma node_invD:
  assumes "node_inv E contents U ver hist s"
  shows "chain_inv E contents U ver hist (ns_block_store s) (ns_notes_tree s)"
    "cache_ok (env_block_hash E) (ns_block_cache s)"
    "\<forall>e \<in> set (ca_blocks (ns_block_cache s)). block_allowed E U (snd e)"
    "\<forall>e \<in> set (mp_txns (ns_mempool s)). txn_allowed U (mt_txn (snd e))"
    "hist \<noteq> [] \<Longrightarrow> fmt_height (hd hist) = node_height s"
  using assms by (simp_all add: node_inv_def)

text \<open>The invariant holds of whatever else is seen.\<close>

lemma chain_inv_mono:
  assumes "chain_inv E contents U ver hist db p" "seen_le U W"
  shows "chain_inv E contents W ver hist db p"
proof -
  have "set (chain_notes hist) \<subseteq> un_notes W"
    using chain_invD(5)[OF assms(1)] assms(2) unfolding seen_le_def by (metis order_trans)
  then show ?thesis using assms(1) unfolding chain_inv_def by blast
qed

lemma block_allowed_mono: "block_allowed E U b \<Longrightarrow> seen_le U W \<Longrightarrow> block_allowed E W b"
  unfolding block_allowed_def seen_le_def by blast

lemma txn_allowed_mono: "txn_allowed U t \<Longrightarrow> seen_le U W \<Longrightarrow> txn_allowed W t"
  unfolding txn_allowed_def seen_le_def by blast

lemma node_inv_mono:
  assumes "node_inv E contents U ver hist s" "seen_le U W"
  shows "node_inv E contents W ver hist s"
proof -
  note inv = node_invD[OF assms(1)]
  have "chain_inv E contents W ver hist (ns_block_store s) (ns_notes_tree s)" by (rule chain_inv_mono[OF inv(1) assms(2)])
  moreover have "\<forall>e \<in> set (ca_blocks (ns_block_cache s)). block_allowed E W (snd e)"
    by (rule ballI, rule block_allowed_mono[OF inv(3)[rule_format] assms(2)])
  moreover have "\<forall>e \<in> set (mp_txns (ns_mempool s)). txn_allowed W (mt_txn (snd e))"
    by (rule ballI, rule txn_allowed_mono[OF inv(4)[rule_format] assms(2)])
  ultimately show ?thesis using inv(2,5) by (simp only: node_inv_def simp_thms) blast
qed

lemma node_inv_cached: "node_inv E contents U ver hist s \<Longrightarrow> cached (ns_block_cache s) \<subseteq> un_blocks U"
  unfolding node_inv_def block_allowed_def cached_def by blast

lemma node_inv_blocks:
  assumes "node_inv E contents U ver hist s" "cached (ns_block_cache s) \<subseteq> B"
  shows "node_inv E contents (U\<lparr>un_blocks := B\<rparr>) ver hist s"
proof -
  note inv = node_invD[OF assms(1)]
  have "chain_inv E contents (U\<lparr>un_blocks := B\<rparr>) ver hist (ns_block_store s) (ns_notes_tree s)"
    using inv(1) by (simp add: chain_inv_def)
  moreover have "\<forall>e \<in> set (ca_blocks (ns_block_cache s)). block_allowed E (U\<lparr>un_blocks := B\<rparr>) (snd e)"
    using inv(3) assms(2) unfolding block_allowed_def cached_def by auto
  moreover have "\<forall>e \<in> set (mp_txns (ns_mempool s)). txn_allowed (U\<lparr>un_blocks := B\<rparr>) (mt_txn (snd e))"
    using inv(4) by (simp add: txn_allowed_def)
  ultimately show ?thesis using inv(2,5) by (simp only: node_inv_def simp_thms) blast
qed

text \<open>What the loop of the tick works off: the heights above the confirmed one.\<close>

definition pending :: "block_cache \<Rightarrow> nat" where
  "pending c = card {e \<in> set (ca_hash_heights c). ca_height c < fst e}"

lemma pending_le: "pending c \<le> length (ca_hash_heights c)"
proof -
  have "pending c \<le> card (set (ca_hash_heights c))" unfolding pending_def by (rule card_mono) auto
  then show ?thesis using card_length[of "ca_hash_heights c"] by simp
qed

lemma less_add_one: "(h::u64) \<le> h + 1 \<Longrightarrow> h < h + 1"
  by (simp add: order.strict_iff_order)

lemma next_commit_block:
  assumes "cache_ok H c" "get_next_commit_block c = Some b"
  shows "block_height b = ca_height c + 1" "ca_height c < block_height b"
    and "map_of (ca_blocks c) (H b) = Some b" "(block_height b, H b) \<in> set (ca_hash_heights c)"
proof -
  have get: "cache_get_by_height c (ca_height c + 1) = Some b" using assms(2) by (simp add: get_next_commit_block_def)
  then show h: "block_height b = ca_height c + 1" using cache_lookup(1)[OF assms(1)] by blast
  show "ca_height c < block_height b"
    using cache_lookup(1)[OF assms(1) get] h less_add_one[of "ca_height c"] by simp
  obtain x where x: "map_of (ca_hash_heights c) (ca_height c + 1) = Some x" "map_of (ca_blocks c) x = Some b"
    using get by (auto simp: cache_get_by_height_def split: option.splits)
  have "H b = x" using cache_repD(5)[of H c x b] assms(1) x(2) by (simp add: cache_ok_def)
  then show "map_of (ca_blocks c) (H b) = Some b" "(block_height b, H b) \<in> set (ca_hash_heights c)"
    using x h map_of_SomeD[OF x(1)] by simp_all
qed

lemma pending_remove:
  assumes "cache_ok H c" "get_next_commit_block c = Some b"
  shows "pending (cache_remove (H b) c) < pending c"
proof -
  note b = next_commit_block[OF assms]
  have "{e \<in> set (ca_hash_heights (cache_remove (H b) c)). ca_height (cache_remove (H b) c) < fst e}
      \<subset> {e \<in> set (ca_hash_heights c). ca_height c < fst e}" (is "?A \<subset> ?B")
  proof -
    have "?A \<subseteq> ?B" "(block_height b, H b) \<notin> ?A" "(block_height b, H b) \<in> ?B"
      using b(2,3,4) by (auto simp: cache_remove_def set_bt_remove)
    then show ?thesis by blast
  qed
  then show ?thesis unfolding pending_def by (intro psubset_card_mono) auto
qed

lemma pending_confirm:
  assumes "cache_ok H c" "get_next_commit_block c = Some b"
  shows "pending (cache_confirm (block_height b) c) < pending c"
proof -
  note b = next_commit_block[OF assms]
  have rep: "cache_rep H c" using assms(1) by (simp add: cache_ok_def)
  have "{e \<in> set (ca_hash_heights (cache_confirm (block_height b) c)). ca_height (cache_confirm (block_height b) c) < fst e}
      \<subset> {e \<in> set (ca_hash_heights c). ca_height c < fst e}" (is "?A \<subset> ?B")
  proof -
    have "?A \<subseteq> ?B" "(block_height b, H b) \<notin> ?A" "(block_height b, H b) \<in> ?B"
      unfolding cache_confirm_set(2,3)[OF rep] using b(2,4) by auto
    then show ?thesis by blast
  qed
  then show ?thesis unfolding pending_def by (intro psubset_card_mono) auto
qed


section \<open>The loop of a tick\<close>

lemma next_commit_allowed:
  assumes "node_inv E contents U ver hist s" "get_next_commit_block (ns_block_cache s) = Some b"
  shows "set (block_leaves b) \<subseteq> un_notes U" "block_height b \<notin> set (bad_blocks E)" "extends b hist"
    "b \<in> cached (ns_block_cache s)"
proof -
  note inv = node_invD[OF assms(1)]
  note b = next_commit_block[OF inv(2) assms(2)]
  have "block_allowed E U b" using inv(3) map_of_SomeD[OF b(3)] by fastforce
  then show "set (block_leaves b) \<subseteq> un_notes U" "block_height b \<notin> set (bad_blocks E)"
    unfolding block_allowed_def by blast+
  show "b \<in> cached (ns_block_cache s)" using map_of_SomeD[OF b(3)] by (force simp: cached_def)
  show "extends b hist"
    unfolding extends_def using inv(5) b(1,2) by (simp add: node_height_def)
qed

lemma node_inv_cache:
  assumes "node_inv E contents U ver hist s" "cache_ok (env_block_hash E) c"
    "set (ca_blocks c) \<subseteq> set (ca_blocks (ns_block_cache s))" "hist \<noteq> [] \<Longrightarrow> ca_height c = node_height s"
  shows "node_inv E contents U ver hist (s\<lparr>ns_block_cache := c\<rparr>)"
  using assms by (auto simp: node_inv_def node_height_def)

text \<open>A block of the cache that does not validate is dropped.\<close>

lemma drop_invalid:
  assumes "node_inv E contents U ver hist s" "get_next_commit_block (ns_block_cache s) = Some b"
  shows "node_inv E contents U ver hist (s\<lparr>ns_block_cache := cache_remove (env_block_hash E b) (ns_block_cache s)\<rparr>)"
    "node_height (s\<lparr>ns_block_cache := cache_remove (env_block_hash E b) (ns_block_cache s)\<rparr>) = node_height s"
proof -
  have h: "ca_height (cache_remove (env_block_hash E b) (ns_block_cache s)) = node_height s"
    by (simp add: node_height_def cache_remove_def split: option.split)
  show "node_inv E contents U ver hist (s\<lparr>ns_block_cache := cache_remove (env_block_hash E b) (ns_block_cache s)\<rparr>)"
    by (rule node_inv_cache[OF assms(1) cache_remove_ok[OF node_invD(2)[OF assms(1)]] ca_blocks_remove h])
  show "node_height (s\<lparr>ns_block_cache := cache_remove (env_block_hash E b) (ns_block_cache s)\<rparr>) = node_height s"
    using h by (simp add: node_height_def)
qed

lemma confirm_commit:
  assumes E: "env_ok E contents U" and inv: "node_inv E contents U ver hist s"
    and b: "get_next_commit_block (ns_block_cache s) = Some b"
    and valid: "validate_block E b (ns_block_store s) (note_tree s) = Some (Inr ())"
  shows "\<exists>s'. commit_proposal E m b (s\<lparr>ns_block_cache := cache_confirm (block_height b) (ns_block_cache s)\<rparr>) = Some (s', Inr ())
    \<and> node_inv E contents U ver (committed m b # hist) s'
    \<and> ns_block_cache s' = cache_confirm (block_height b) (ns_block_cache s)"
proof -
  note allowed = next_commit_allowed[OF inv b] and inv' = node_invD[OF inv]
  let ?s = "s\<lparr>ns_block_cache := cache_confirm (block_height b) (ns_block_cache s)\<rparr>"
  obtain s' where s': "commit_proposal E m b ?s = Some (s', Inr ())"
    "chain_inv E contents U ver (committed m b # hist) (ns_block_store s') (ns_notes_tree s')"
    "ns_block_cache s' = cache_confirm (block_height b) (ns_block_cache s)"
    "set (mp_txns (ns_mempool s')) \<subseteq> set (mp_txns (ns_mempool s))"
    using commit_ok[OF E _ _ allowed(2,1,3), of ver ?s m] inv'(1) valid by auto
  have rep: "cache_rep (env_block_hash E) (ns_block_cache s)" using inv'(2) by (simp add: cache_ok_def)
  have "node_inv E contents U ver (committed m b # hist) s'"
    unfolding node_inv_def s'(3)
    using s'(2,4) cache_confirm_ok[OF inv'(2)] inv'(3,4) ca_blocks_confirm[of "block_height b" "ns_block_cache s"]
      cache_confirm_set(3)[OF rep] s'(3)
    by (auto simp: node_height_def)
  then show ?thesis using s'(1,3) by blast
qed

definition commits :: "(block \<Rightarrow> moment) \<Rightarrow> block list \<Rightarrow> block_format list" where
  "commits M bs = rev (map (\<lambda>b. committed (M b) b) bs)"

lemma commits_simps [simp]: "commits M [] = []" "commits M (b # bs) = commits M bs @ [committed (M b) b]"
  by (simp_all add: commits_def)

text \<open>
  The loop ends with the chain of the blocks it committed on top, or with the panic of the validation of a
  cached block with an unreadable proof.
\<close>

definition tick_done ::
  "('db, 'e) node_env \<Rightarrow> ('db \<Rightarrow> kv_contents) \<Rightarrow> seen \<Rightarrow> bytes option \<Rightarrow> block_format list \<Rightarrow> (block \<Rightarrow> moment)
     \<Rightarrow> ('db, 'e) node_state \<Rightarrow> (('db, 'e) node_state \<times> bool) run \<Rightarrow> bool" where
  "tick_done E contents U ver hist M s r \<longleftrightarrow>
     (\<exists>s' bs. r = Finished (s', True)
        \<and> node_inv E contents U ver (commits M bs @ hist) s'
        \<and> get_next_commit_block (ns_block_cache s') = None
        \<and> node_height s' = node_height s + of_nat (length bs)
        \<and> set bs \<subseteq> cached (ns_block_cache s))"

lemma tick_loop_ok:
  assumes E: "env_ok E contents U" "has_leaders E"
    and "node_inv E contents U ver hist s" "pending (ns_block_cache s) < fuel"
  shows "tick_done E contents U ver hist M s (tick_loop fuel E M s)
    \<or> tick_loop fuel E M s = Panicked \<and> (\<exists>b \<in> cached (ns_block_cache s). \<not> proofs_readable E b)"
  using assms(3,4)
proof (induction fuel arbitrary: s hist)
  case (Suc fuel)
  note inv = Suc.prems(1) and inv' = node_invD[OF Suc.prems(1)]
  show ?case
  proof (cases "get_next_commit_block (ns_block_cache s)")
    case None
    then show ?thesis using inv unfolding tick_done_def by (intro disjI1 exI[of _ s] exI[of _ "[]"]) simp
  next
    case (Some b)
    note allowed = next_commit_allowed[OF inv Some]
    show ?thesis
    proof (cases "validate_block E b (ns_block_store s) (note_tree s)")
      case None
      then have "\<not> proofs_readable E b" using validate_block_total[OF E(1) inv'(1) allowed(1) E(2)] by blast
      then show ?thesis using None Some allowed(4) by auto
    next
      case r: (Some r)
      show ?thesis
      proof (cases r)
        case (Inl err)
        let ?s = "s\<lparr>ns_block_cache := cache_remove (env_block_hash E b) (ns_block_cache s)\<rparr>"
        have "pending (ns_block_cache ?s) < fuel"
          using pending_remove[OF inv'(2) Some] Suc.prems(2) by simp
        from Suc.IH[OF drop_invalid(1)[OF inv Some] this] show ?thesis
          using Some r Inl drop_invalid(2)[OF inv Some] cached_remove[of "env_block_hash E b" "ns_block_cache s"]
          unfolding tick_done_def by simp blast
      next
        case (Inr u)
        have valid: "validate_block E b (ns_block_store s) (note_tree s) = Some (Inr ())" using r Inr by simp
        obtain s' where s': "commit_proposal E (M b) b (s\<lparr>ns_block_cache := cache_confirm (block_height b) (ns_block_cache s)\<rparr>)
            = Some (s', Inr ())"
          "node_inv E contents U ver (committed (M b) b # hist) s'"
          "ns_block_cache s' = cache_confirm (block_height b) (ns_block_cache s)"
          using confirm_commit[OF E(1) inv Some valid, of "M b"] by blast
        have sub: "cached (ns_block_cache s') \<subseteq> cached (ns_block_cache s)" unfolding s'(3) by (rule cached_confirm)
        have fuel: "pending (ns_block_cache s') < fuel"
          using pending_confirm[OF inv'(2) Some] Suc.prems(2) unfolding s'(3) by simp
        have step: "tick_loop (Suc fuel) E M s = tick_loop fuel E M s'" using Some valid s'(1) by simp
        have h: "node_height s' = node_height s + 1"
          using node_invD(5)[OF s'(2)] next_commit_block(1)[OF inv'(2) Some] by (simp add: node_height_def)
        show ?thesis
        proof (cases "tick_done E contents U ver (committed (M b) b # hist) M s' (tick_loop fuel E M s')")
          case True
          then obtain s2 bs where "tick_loop fuel E M s' = Finished (s2, True)"
            "node_inv E contents U ver (commits M bs @ committed (M b) b # hist) s2"
            "get_next_commit_block (ns_block_cache s2) = None" "node_height s2 = node_height s' + of_nat (length bs)"
            "set bs \<subseteq> cached (ns_block_cache s')" unfolding tick_done_def by blast
          then have "tick_done E contents U ver hist M s (tick_loop (Suc fuel) E M s)"
            unfolding tick_done_def step using h sub allowed(4) by (intro exI[of _ s2] exI[of _ "b # bs"]) auto
          then show ?thesis ..
        next
          case False
          then show ?thesis using Suc.IH[OF s'(2) fuel] sub unfolding step by blast
        qed
      qed
    qed
  qed
qed simp

lemma tick_loop_readable:
  assumes "env_ok E contents U" "has_leaders E" "node_inv E contents U ver hist s" "pending (ns_block_cache s) < fuel"
    and "\<forall>b \<in> cached (ns_block_cache s). proofs_readable E b"
  shows "tick_done E contents U ver hist M s (tick_loop fuel E M s)"
  using tick_loop_ok[OF assms(1-4)] assms(5) by blast

end
