(* ===== verification/Node_Reach.thy ===== *)
theory Node_Reach
  imports Node_Core_Props
begin

text \<open>
  What the operations of the node keep: the invariant of the node after the messages it receives, the
  transactions it serves and its ticks, of a follower and of a leader. The tick commits all it can and
  ends, or panics on a proof that cannot be read.
\<close>

section \<open>Ticks\<close>

text \<open>
  A tick has as much fuel as there are heights in the cache. A leader's height must not overflow and must
  not be one of the bad blocks, whose validation is skipped.
\<close>

definition tick_fuel :: "('db, 'e) node_state \<Rightarrow> nat" where
  "tick_fuel s = Suc (length (ca_hash_heights (ns_block_cache s)))"

definition next_height_ok :: "('db, 'e) node_env \<Rightarrow> ('db, 'e) node_state \<Rightarrow> bool" where
  "next_height_ok E s \<longleftrightarrow> node_height s < node_height s + 1 \<and> node_height s + 1 \<notin> set (bad_blocks E)"

section \<open>Steps that do not touch the chain\<close>

lemma node_inv_same:
  assumes "node_inv E contents U ver hist s"
    and "ns_block_store s' = ns_block_store s" "ns_notes_tree s' = ns_notes_tree s"
    and "ns_block_cache s' = ns_block_cache s"
    and "\<forall>e \<in> set (mp_txns (ns_mempool s')). e \<in> set (mp_txns (ns_mempool s)) \<or> txn_allowed U (mt_txn (snd e))"
  shows "node_inv E contents U ver hist s'"
  using assms by (auto simp: node_inv_def node_height_def)

definition sent_blocks :: "('db, 'e) node_state \<Rightarrow> block set" where
  "sent_blocks s = {b. SendAll (EvBlock b) \<in> set (ns_out s)}"

lemma emit_simps [simp]:
  "ns_block_store (emit os s) = ns_block_store s" "ns_notes_tree (emit os s) = ns_notes_tree s"
  "ns_block_cache (emit os s) = ns_block_cache s" "ns_mempool (emit os s) = ns_mempool s"
  by (simp_all add: emit_def)

lemma lease_txns_txns [simp]: "mp_txns (lease_txns l ks m) = mp_txns m"
  by (induction l ks m rule: lease_txns.induct) simp_all

lemma add_inner_txns:
  "set (mp_txns (mempool_add_inner k t cs sd m)) \<subseteq> insert (k, \<lparr>mt_txn = t, mt_sender = sd, mt_changes = cs\<rparr>) (set (mp_txns m))"
  using set_update_subset[of k "\<lparr>mt_txn = t, mt_sender = sd, mt_changes = cs\<rparr>" "mp_txns m"]
  by (auto simp: mempool_add_inner_def)

lemma lease_loop_txns:
  "lease_loop mtxns l n pool leased txns discard conflict = Some (pool', leased', txns', discard') \<Longrightarrow>
   set txns' \<subseteq> set txns \<union> {(k, mt_txn t) |k t. (k, t) \<in> set mtxns}"
proof (induction mtxns l n pool leased txns discard conflict rule: lease_loop.induct)
  case (2 mtxns lease max_count key pool leased txns discard conflict)
  then obtain t where t: "map_of mtxns key = Some t" by (cases "map_of mtxns key") simp_all
  then have mem: "(key, t) \<in> set mtxns" by (rule map_of_SomeD)
  show ?case
  proof (cases "\<exists>c \<in> set (mt_changes t). c \<in> set conflict")
    case True
    then show ?thesis using "2.IH"(1)[OF t True] "2.prems" t by simp
  next
    case False
    note ih = "2.IH"(2)[OF t False refl refl]
    show ?thesis using ih "2.prems" t mem False by (cases "max_count \<le> Suc (length txns)") (auto simp: Let_def)
  qed
qed simp

lemma lease_batch_txns:
  assumes "lease_batch l n m = Some (utxos, m')"
  shows "mp_txns m' = mp_txns m" "set utxos \<subseteq> {(k, mt_txn t) |k t. (k, t) \<in> set (mp_txns m)}"
proof -
  obtain pool leased discard where loop: "lease_loop (mp_txns m) l n (mp_pool m) (mp_leased m) [] [] []
      = Some (pool, leased, utxos, discard)" and m': "m' = m\<lparr>mp_pool := pool @ discard, mp_leased := leased\<rparr>"
    using assms by (auto simp: lease_batch_def Option.bind_eq_Some_conv)
  show "mp_txns m' = mp_txns m" by (simp add: m')
  show "set utxos \<subseteq> {(k, mt_txn t) |k t. (k, t) \<in> set (mp_txns m)}"
    using lease_loop_txns[OF loop] by simp
qed

lemma release_lease_keeps:
  "node_inv E contents U ver hist s \<Longrightarrow> node_inv E contents U ver hist (release_lease h failed s)"
proof (erule node_inv_same)
  have "set (mp_txns (ns_mempool (release_lease h failed s))) \<subseteq> set (mp_txns (ns_mempool s))"
    using mempool_commit_txns[of h "map (\<lambda>(k, e). (k, Inl e)) failed" "ns_mempool s"]
    by (simp add: release_lease_def case_prod_unfold Let_def)
  then show "\<forall>e \<in> set (mp_txns (ns_mempool (release_lease h failed s))).
      e \<in> set (mp_txns (ns_mempool s)) \<or> txn_allowed U (mt_txn (snd e))" by blast
qed (simp_all add: release_lease_def case_prod_unfold Let_def)

section \<open>Each step keeps the invariant\<close>

lemma receive_proposal_keeps:
  assumes clash: "\<not> heights_clash (env_block_hash E) (un_blocks U)" and inv: "node_inv E contents U ver hist s"
    and b: "block_allowed E U b" and step: "receive_proposal E b s = Some s'"
  shows "node_inv E contents U ver hist s'"
proof -
  note inv' = node_invD[OF inv]
  let ?c = "cache_insert (env_block_hash E) b (ns_block_cache s)"
  have "hash_new (env_block_hash E) b (ns_block_cache s)"
    using hash_newI[OF clash node_inv_cached[OF inv]] b by (simp add: block_allowed_def)
  note ok = cache_insert_ok[OF inv'(2) this]
  have "ca_height ?c = node_height s"
    by (simp add: node_height_def cache_insert_eq cache_put_def cache_make_room_def cache_see_def cache_remove_def
        split: option.split)
  then have "node_inv E contents U ver hist (s\<lparr>ns_block_cache := ?c\<rparr>)"
    using inv b ok
      ca_blocks_insert[of "env_block_hash E" b "ns_block_cache s"]
    by (auto simp: node_inv_def node_height_def)
  then show ?thesis
    by (rule node_inv_same) (use step in \<open>auto simp: receive_proposal_def Let_def split: if_splits\<close>)
qed

lemma receive_transaction_keeps:
  assumes "node_inv E contents U ver hist s" "txn_allowed U t" "receive_transaction E C t s = Some s'"
  shows "node_inv E contents U ver hist s'"
  using assms(1)
proof (rule node_inv_same)
  show "\<forall>e \<in> set (mp_txns (ns_mempool s')). e \<in> set (mp_txns (ns_mempool s)) \<or> txn_allowed U (mt_txn (snd e))"
    using assms(2,3) add_inner_txns[of "utxo_hash (keccak E) t" t "leaves t" None "ns_mempool s"]
    by (auto simp: receive_transaction_def mempool_add_def split: option.splits sum.splits)
qed (use assms(3) in \<open>auto simp: receive_transaction_def split: option.splits sum.splits\<close>)

lemma submit_accepted_keeps:
  assumes "node_inv E contents U ver hist s" "txn_allowed U t"
  shows "node_inv E contents U ver hist (submit_accepted E t sender s)"
  using assms(1)
proof (rule node_inv_same)
  show "\<forall>e \<in> set (mp_txns (ns_mempool (submit_accepted E t sender s))).
      e \<in> set (mp_txns (ns_mempool s)) \<or> txn_allowed U (mt_txn (snd e))"
    using assms(2) add_inner_txns[of "utxo_hash (keccak E) t" t "leaves t" "Some sender" "ns_mempool s"]
    by (auto simp: submit_accepted_def mempool_add_wait_def)
qed (simp_all add: submit_accepted_def Let_def)

lemma receive_accept_state:
  assumes "receive_accept E m a s = Some (s', r)"
  shows "s' = s \<or> (\<exists>ds. s' = s\<lparr>ns_doomslug := ds\<rparr>)"
proof -
  obtain x where "node_mode E = ValidatorMode \<longrightarrow> approval_try_from (keccak E) (recover E) a = Some x \<or> s' = s"
    using assms by (cases "approval_try_from (keccak E) (recover E) a")
      (auto simp: receive_accept_def Let_def Option.bind_eq_Some_conv split: if_splits)
  then show ?thesis
    using assms by (cases x) (auto simp: receive_accept_def Let_def Option.bind_eq_Some_conv split: if_splits)
qed

lemma receive_accept_keeps:
  assumes "node_inv E contents U ver hist s" "receive_accept E m a s = Some (s', r)"
  shows "node_inv E contents U ver hist s'"
  by (rule node_inv_same[OF assms(1)]) (use receive_accept_state[OF assms(2)] in auto)

lemma send_accept_keeps:
  "node_inv E contents U ver hist s \<Longrightarrow> send_accept E content s = Some s' \<Longrightarrow> node_inv E contents U ver hist s'"
  by (erule node_inv_same) (auto simp: send_accept_def Option.bind_eq_Some_conv split: if_splits)

lemma follower_tick_keeps:
  assumes E: "env_ok E contents U" "has_leaders E" and inv: "node_inv E contents U ver hist s"
    and step: "follower_tick (tick_fuel s) E M s = Finished (s', delay)"
  shows "\<exists>new. node_inv E contents U ver (new @ hist) s'"
proof -
  have fuel: "pending (ns_block_cache s) < tick_fuel s" using pending_le[of "ns_block_cache s"] by (simp add: tick_fuel_def)
  have "tick_loop (tick_fuel s) E M s \<noteq> Panicked" using step by (auto simp: follower_tick_def)
  then obtain s2 bs where s2: "tick_loop (tick_fuel s) E M s = Finished (s2, True)"
    "node_inv E contents U ver (commits M bs @ hist) s2"
    using tick_loop_ok[OF E inv fuel, of M] unfolding tick_done_def by blast
  have "node_inv E contents U ver (commits M bs @ hist) s'"
    by (rule node_inv_same[OF s2(2)])
      (use step s2(1) in \<open>auto simp: follower_tick_def handle_out_of_sync_def split: option.splits bool.splits if_splits\<close>)
  then show ?thesis by blast
qed


text \<open>The leader commits the proposal it just made, and starts its cache from it.\<close>

lemma finish_proposal_keeps:
  assumes E: "env_ok E contents U" and inv: "node_inv E contents U ver hist s" and next_ok: "next_height_ok E s"
    and h: "height = node_height s + 1" "block_height b = height" and U: "set (block_leaves b) \<subseteq> un_notes U"
    and clash: "\<not> heights_clash (env_block_hash E) (un_blocks U)" and sent: "sent_blocks s' \<subseteq> un_blocks U"
    and step: "finish_proposal E m height b s = Some (s', r)"
  shows "\<exists>new. node_inv E contents U ver (new @ hist) s'"
proof (cases "validate_block E b (ns_block_store s) (note_tree s)")
  case None
  then show ?thesis using step by (simp add: finish_proposal_def)
next
  case (Some v)
  show ?thesis
  proof (cases v)
    case (Inl err)
    then have "s' = release_lease height (failed_txns E b err) s" using step Some by (simp add: finish_proposal_def)
    then show ?thesis using release_lease_keeps[OF inv] by (metis append_Nil)
  next
    case (Inr u)
    note inv' = node_invD[OF inv]
    have valid: "validate_block E b (ns_block_store s) (note_tree s) = Some (Inr ())" using Some Inr by simp
    have good: "block_height b \<notin> set (bad_blocks E)" using next_ok h by (simp add: next_height_ok_def)
    have ext: "extends b hist"
      using inv'(5) next_ok h unfolding extends_def next_height_ok_def by simp
    obtain s2 where s2: "commit_proposal E m b s = Some (s2, Inr ())"
      "chain_inv E contents U ver (committed m b # hist) (ns_block_store s2) (ns_notes_tree s2)"
      "ns_block_cache s2 = ns_block_cache s" "set (mp_txns (ns_mempool s2)) \<subseteq> set (mp_txns (ns_mempool s))"
      using commit_ok[OF E inv'(1) valid good U ext, of m] by blast
    let ?i = "cache_insert (env_block_hash E) b (ns_block_cache s)"
    have s': "s' = emit [SendAll (EvBlock b)] (s2\<lparr>ns_block_cache := cache_confirm height ?i\<rparr>)"
      using step valid s2(1,3) by (simp add: finish_proposal_def Let_def)
    have bU: "b \<in> un_blocks U" using sent unfolding s' by (simp add: sent_blocks_def emit_def) blast
    have "hash_new (env_block_hash E) b (ns_block_cache s)" by (rule hash_newI[OF clash node_inv_cached[OF inv] bU])
    then have ins: "cache_ok (env_block_hash E) ?i" by (rule cache_insert_ok[OF inv'(2)])
    then have rep: "cache_rep (env_block_hash E) ?i" by (simp add: cache_ok_def)
    have "block_allowed E U b" using U good bU by (simp add: block_allowed_def)
    then have "\<forall>e \<in> set (ca_blocks (cache_confirm height ?i)). block_allowed E U (snd e)"
      using inv'(3) ca_blocks_confirm[of height ?i] ca_blocks_insert[of "env_block_hash E" b "ns_block_cache s"] by force
    then have "node_inv E contents U ver (committed m b # hist) s'"
      unfolding node_inv_def s'
      using s2(2,4) cache_confirm_ok[OF ins, of height] cache_confirm_set(3)[OF rep, of height] inv'(4) h(2)
      by (auto simp: node_height_def)
    then show ?thesis by (metis append_Cons append_Nil)
  qed
qed

lemma create_proposal_keeps:
  assumes E: "env_ok E contents U" and inv: "node_inv E contents U ver hist s" and next_ok: "next_height_ok E s"
    and clash: "\<not> heights_clash (env_block_hash E) (un_blocks U)" and sent: "sent_blocks s' \<subseteq> un_blocks U"
    and step: "create_proposal E C m parent (node_height s + 1) accepts s = Some (s', r)"
  shows "\<exists>new. node_inv E contents U ver (new @ hist) s'"
proof -
  let ?h = "node_height s + 1"
  obtain utxos pool where lease: "lease_batch ?h (block_txns_count E) (ns_mempool s) = Some (utxos, pool)"
    using step by (auto simp: create_proposal_def split: option.splits)
  define t where "t = s\<lparr>ns_mempool := pool\<rparr>"
  note txns = lease_batch_txns[OF lease]
  have t: "node_inv E contents U ver hist t" "next_height_ok E t" "node_height t = node_height s"
    using inv next_ok txns(1) by (auto intro: node_inv_same simp: t_def next_height_ok_def node_height_def)
  obtain inval where i: "first_invalid E C t utxos = Some inval"
    using step lease by (auto simp: create_proposal_def t_def Let_def split: option.splits)
  show ?thesis
  proof (cases inval)
    case (Some p)
    obtain txn err where "p = (txn, err)" by fastforce
    then have "s' = release_lease ?h [(utxo_hash (keccak E) txn, err)] t"
      using step lease i Some unfolding t_def by (simp add: create_proposal_def Let_def)
    then show ?thesis using release_lease_keeps[OF t(1)] by (metis append_Nil)
  next
    case None
    obtain root where root: "finish_proposal E m ?h
        (to_block E (proposal_content ?h parent accepts root (map snd utxos))) t = Some (s', r)"
      using step lease i None unfolding t_def by (auto simp: create_proposal_def Let_def split: option.splits)
    have "set (nz (leaves u)) \<subseteq> un_notes U" if u: "u \<in> set (map snd utxos)" for u
    proof -
      obtain k x where kx: "(k, x) \<in> set (mp_txns (ns_mempool s))" "u = mt_txn x" using txns(2) u by auto
      then have "txn_allowed U u" using node_invD(4)[OF inv] by force
      then show ?thesis by (simp add: txn_allowed_def)
    qed
    then have "set (block_leaves (to_block E (proposal_content ?h parent accepts root (map snd utxos)))) \<subseteq> un_notes U"
      by (force simp: to_block_def proposal_content_def block_state_new_def state_leaves_def)
    then show ?thesis
      using finish_proposal_keeps[OF E t(1,2) _ _ _ clash sent root] t(3) by (simp add: to_block_def proposal_content_def)
  qed
qed

lemma leader_tick_keeps:
  assumes E: "env_ok E contents U" and inv: "node_inv E contents U ver hist s" and next_ok: "next_height_ok E s"
    and clash: "\<not> heights_clash (env_block_hash E) (un_blocks U)" and sent: "sent_blocks s' \<subseteq> un_blocks U"
    and step: "leader_tick E C m s = Finished (s', delay)"
  shows "\<exists>new. node_inv E contents U ver (new @ hist) s'"
proof -
  obtain parent accepts r where "create_proposal E C m parent (node_height s + 1) accepts s = Some (s', r)"
    using step by (auto simp: leader_tick_def Let_def split: option.splits)
  then show ?thesis by (rule create_proposal_keeps[OF E inv next_ok clash sent])
qed

lemma tick_keeps:
  assumes "env_ok E contents U" "has_leaders E" "node_inv E contents U ver hist s"
    and "next_height_ok E s" "\<not> heights_clash (env_block_hash E) (un_blocks U)" "sent_blocks s' \<subseteq> un_blocks U"
    and "tick (tick_fuel s) E C m M s = Finished (s', delay)"
  shows "\<exists>new. node_inv E contents U ver (new @ hist) s'"
  using follower_tick_keeps[OF assms(1-3)] leader_tick_keeps[OF assms(1,3-6)] assms(7)
  by (auto simp: tick_def split: if_splits)

section \<open>The tick\<close>

text \<open>
  C18: a tick commits all it can and ends, or meets a proof it cannot read. With as many rounds as there
  are heights in the cache, and one more, the loop of the tick has committed blocks of the cache, one height each,
  and the cache has no next block; the store, the tree and the cache then stand for the chain with these
  blocks on top. The loop never fails with an error and never runs on; it panics only when a block of the
  cache has a transaction whose proof \<open>verify\<close> cannot read. The databases do not fail, each height has a
  leader, and the notes of the chain and of the cached blocks have different slots.
\<close>

theorem tick_commits:
  assumes "env_ok E contents U" "has_leaders E" "node_inv E contents U ver hist s"
  shows "(\<exists>s' bs. tick_loop (tick_fuel s) E M s = Finished (s', True)
      \<and> set bs \<subseteq> cached (ns_block_cache s)
      \<and> node_inv E contents U ver (commits M bs @ hist) s'
      \<and> get_next_commit_block (ns_block_cache s') = None
      \<and> node_height s' = node_height s + of_nat (length bs))
    \<or> tick_loop (tick_fuel s) E M s = Panicked
      \<and> (\<exists>b \<in> cached (ns_block_cache s). \<exists>t \<in> set (bs_txns (bc_state (b_content b))).
           snark_verify E \<lparr>sw_instances = [instances t], sw_proof = up_proof t\<rparr> = None)"
proof -
  have "pending (ns_block_cache s) < tick_fuel s" using pending_le[of "ns_block_cache s"] by (simp add: tick_fuel_def)
  note loop = tick_loop_ok[OF assms this, of M]
  show ?thesis
  proof (cases "tick_done E contents U ver hist M s (tick_loop (tick_fuel s) E M s)")
    case True
    then show ?thesis unfolding tick_done_def by blast
  next
    case False
    then obtain b t where "tick_loop (tick_fuel s) E M s = Panicked" "b \<in> cached (ns_block_cache s)"
        "t \<in> set (bs_txns (bc_state (b_content b)))" "\<not> proof_readable E t"
      using loop unfolding proofs_readable_def by blast
    then show ?thesis unfolding proof_readable_def not_not by (intro disjI2 conjI bexI)
  qed
qed

section \<open>Concrete inputs\<close>

text \<open>A node with empty databases and no blocks, whose cache starts at the genesis block.\<close>

definition sample_state :: "(kv_contents, unit) node_state" where
  "sample_state = \<lparr>ns_block_store = version_1, ns_notes_tree = sample_tree, ns_mempool = mempool_default,
     ns_block_cache = cache_new (env_block_hash sample_env) genesis 10000, ns_doomslug = node_doomslug 0 genesis,
     ns_last_commit = None, ns_listeners = [], ns_out = []\<rparr>"

definition sample_notes :: seen where
  "sample_notes = \<lparr>un_notes = {5, 6, 7, 8}, un_blocks = UNIV\<rparr>"

lemma sample_hash: "env_block_hash sample_env b = ucast (block_height b)"
proof -
  have "env_block_hash sample_env b = from_be (be_bytes 32 (ucast (block_height b) :: u256))"
    by (simp add: Node_Block.block_hash_def Node_Block.content_hash_def)
  then show ?thesis by (simp add: from_be_bytes_gen)
qed

lemma sample_env_hash: "\<not> heights_clash (env_block_hash sample_env) B"
proof -
  have "ucast (ucast h :: u256) = h" for h :: u64
    by (rule bit_word_eqI) (simp add: bit_simps)
  then show ?thesis unfolding heights_clash_def sample_hash by metis
qed

lemma sample_keyed: "keyed 160 [5, 6, 7, 8]"
  by code_simp

lemma sample_env_ok: "env_ok sample_env store_contents sample_notes"
proof -
  have "inj_on (\<lambda>e. lsb e 160) (set [5, 6, 7, 8])" using sample_keyed by (simp only: distinct_map)
  then show ?thesis by (simp add: env_ok_def env_base_def slots_clash_def sample_notes_def)
qed

lemma sample_leaders: "has_leaders sample_env"
  by (simp add: has_leaders_def)

lemma sample_node_inv:
  "node_inv sample_env store_contents sample_notes (Some (be_bytes 4 (1 :: u32))) [] sample_state"
proof -
  have c: "cache_ok (env_block_hash sample_env) (ns_block_cache sample_state)"
    by (simp add: sample_state_def cache_new_ok)
  have b: "ca_blocks (ns_block_cache sample_state) = [(env_block_hash sample_env genesis, genesis)]"
    by (simp add: sample_state_def cache_new_def cache_insert_def Let_def)
  show ?thesis
    unfolding node_inv_def
    using c by (simp add: b) (simp add: chain_inv_def sample_state_def mempool_default_def block_allowed_def sample_notes_def genesis_def content_genesis_def state_leaves_def)
qed


definition sample_moment :: moment where
  "sample_moment = \<lparr>mo_now = 0, mo_wall = 0, mo_unix = 1700000000, mo_listening = (\<lambda>_. False)\<rparr>"

definition sample_view :: "unit chain_view" where
  "sample_view = \<lparr>cv_block_number = Inr 100, cv_get_mint = (\<lambda>_ _. Inr True), cv_has_burn = (\<lambda>_ _. Inr True)\<rparr>"

text \<open>The node after it received the block that mints 5 and 6.\<close>

definition sample_state_1 :: "(kv_contents, unit) node_state" where
  "sample_state_1 = the (receive_proposal sample_env (minting_block 1) sample_state)"

lemma sample_state_1: "receive_proposal sample_env (minting_block 1) sample_state = Some sample_state_1"
  by (simp add: sample_state_1_def receive_proposal_def Let_def)

lemma sample_cache_1:
  "ns_block_cache sample_state_1 = \<lparr>ca_height = 0, ca_max_height = 1, ca_blocks = [(0, genesis), (1, minting_block 1)],
     ca_hash_heights = [(0, 0), (1, 1)], ca_max_cache_size = 10000\<rparr>"
proof -
  have "block_height genesis = 0" by (simp add: genesis_def content_genesis_def)
  then show ?thesis
    by (simp add: sample_state_1_def receive_proposal_def Let_def sample_state_def cache_new_def cache_insert_def
        sample_hash[simplified] bt_last_def)
qed

lemma sample_allowed: "block_allowed sample_env sample_notes (minting_block 1)"
  by (simp add: block_allowed_def sample_notes_def)

lemma sample_node_inv_1:
  "node_inv sample_env store_contents sample_notes (Some (be_bytes 4 (1 :: u32))) [] sample_state_1"
  by (rule receive_proposal_keeps[OF sample_env_hash sample_node_inv sample_allowed sample_state_1])

lemma sample_next: "get_next_commit_block (ns_block_cache sample_state_1) = Some (minting_block 1)"
  by (simp add: sample_cache_1 get_next_commit_block_def cache_get_by_height_def)

theorem tick_commits_witness:
  "get_next_commit_block (ns_block_cache sample_state_1) = Some (minting_block 1)
   \<and> (\<exists>s'. tick_loop 3 sample_env (\<lambda>_. sample_moment) sample_state_1 = Finished (s', True)
        \<and> get_next_commit_block (ns_block_cache s') = None)"
proof -
  have "tick_fuel sample_state_1 = 3" by (simp add: tick_fuel_def sample_cache_1)
  then show ?thesis
    using tick_commits[OF sample_env_ok sample_leaders sample_node_inv_1, of "\<lambda>_. sample_moment"] sample_next
    by (simp only: sample_env_simps option.distinct simp_thms) blast
qed

lemma sample_store_1: "ns_block_store sample_state_1 = version_1" "note_tree sample_state_1 = ps_tree sample_tree"
  by (simp_all add: sample_state_1_def receive_proposal_def Let_def sample_state_def)

text \<open>A commit broadcasts no block.\<close>

lemma commit_sent: "commit_proposal E m b s = Some (s', r) \<Longrightarrow> sent_blocks s' = sent_blocks s"
  by (auto simp: commit_proposal_def Let_def sent_blocks_def emit_def split: option.splits sum.splits if_splits prod.splits)

lemma sample_tick:
  "\<exists>s'. tick (tick_fuel sample_state_1) sample_env C m M (emit [WakeTicker] sample_state_1) = Finished (s', None)
     \<and> node_height s' = 1 \<and> sent_blocks s' = {}"
proof -
  let ?s = "emit [WakeTicker] sample_state_1"
  have inv: "node_inv sample_env store_contents sample_notes (Some (be_bytes 4 (1 :: u32))) [] ?s"
    by (rule node_inv_same[OF sample_node_inv_1]) simp_all
  have next_block: "get_next_commit_block (ns_block_cache ?s) = Some (minting_block 1)" using sample_next by simp
  have valid: "validate_block sample_env (minting_block 1) (ns_block_store ?s) (note_tree ?s) = Some (Inr ())"
    by (simp add: sample_store_1 minting_block_accepted)
  obtain s' where s': "commit_proposal sample_env (M (minting_block 1)) (minting_block 1)
      (?s\<lparr>ns_block_cache := cache_confirm 1 (ns_block_cache ?s)\<rparr>) = Some (s', Inr ())"
    "ns_block_cache s' = cache_confirm 1 (ns_block_cache ?s)"
    using confirm_commit[OF sample_env_ok inv next_block valid, of "M (minting_block 1)"] by auto
  have cache: "ns_block_cache s' = \<lparr>ca_height = 1, ca_max_height = 1, ca_blocks = [(1, minting_block 1)],
     ca_hash_heights = [(1, 1)], ca_max_cache_size = 10000\<rparr>"
    by (simp add: s'(2) sample_cache_1 cache_confirm_def drop_height_def bt_remove_def)
  have sent: "sent_blocks s' = {}"
    unfolding commit_sent[OF s'(1)]
    by (simp add: sent_blocks_def emit_def sample_state_1_def receive_proposal_def Let_def sample_state_def)
  have "tick_fuel sample_state_1 = Suc (Suc (Suc 0))" by (simp add: tick_fuel_def sample_cache_1)
  then have loop: "tick_loop (tick_fuel sample_state_1) sample_env M ?s = Finished (s', True)"
    using next_block valid s'(1) by (simp add: cache get_next_commit_block_def cache_get_by_height_def)
  moreover have "is_out_of_sync (ns_block_cache s') = Some False"
    by (simp add: cache is_out_of_sync_def bt_last_def height_range_def)
  moreover have "node_height ?s = 0" by (simp add: node_height_def sample_cache_1)
  ultimately show ?thesis using sent
    by (simp add: tick_def is_validator_for_height_def follower_tick_def node_height_def cache)
qed

end
