(* ===== verification/Node_Recovery.thy ===== *)
theory Node_Recovery
  imports Node_Reach
begin

text \<open>
  Restarts: \<open>Node::new\<close> on the databases that a crash leaves behind. A commit writes the block to the
  block store first and to the tree second, so a crash leaves both, only the first or none of them.
\<close>

section \<open>The last blocks of a chain\<close>

lemma chained_heights: "chained (f # hist) \<Longrightarrow> g \<in> set hist \<Longrightarrow> fmt_height g < fmt_height f"
proof (induction hist arbitrary: f)
  case (Cons h hist)
  then have "fmt_height h < fmt_height f" "g = h \<or> fmt_height g < fmt_height h" by auto
  then show ?case by auto
qed simp

lemma format_height [simp]: "blk_height (format_impl E) f = fmt_height f"
  by (simp add: format_impl_def)

lemma chain_max_height:
  assumes "chained (f # hist)"
  shows "max_height_of (format_impl E) (f # hist) = Some (fmt_height f)"
proof -
  have "Max (insert (fmt_height f) (fmt_height ` set hist)) = fmt_height f"
    using chained_heights[OF assms] by (intro Max_eqI) (auto intro: less_imp_le)
  then show ?thesis by (simp add: max_height_of_def)
qed

lemma of_store_Some [simp]: "of_store (Some r) = Some (map_sum BlockStoreError id r)"
  by (cases r) (simp_all add: of_store_def)

lemma expect_block_at:
  assumes "kv_ok (kv E) contents" "wire_ok (format_impl E)" "store_rep (format_impl E) ver hist (contents db)"
  shows "expect_block E db h = map_option (\<lambda>f. Inr (into_block f)) (block_at (format_impl E) hist h)"
  by (simp add: expect_block_def store_reads[OF assms] try_bind_def)

section \<open>The directories after a crash\<close>

definition opened :: "'db \<Rightarrow> 'db \<Rightarrow> ('db, 'e) disk \<Rightarrow> ('db, 'e) disk" where
  "opened db smirk D = D\<lparr>dk_store_present := Inr True, dk_open_store := (\<lambda>_. Inr db), dk_open_smirk := Inr smirk\<rparr>"

lemma load_store_opened: "load_store E (opened db smirk D) = Some (Inr db)"
  by (simp add: load_store_def opened_def create_or_load_def try_bind_def of_rocksdb_def)

text \<open>The tree is loaded with its entries.\<close>

lemma load_smirk_opened:
  assumes E: "env_ok E contents U" and inv: "chain_inv E contents U ver hist db p"
  shows "\<exists>q. load_smirk E (opened db' (ps_db p) D) = Some (Inr q) \<and> chain_inv E contents U ver hist db q
    \<and> t_entries (ps_tree q) = t_entries (ps_tree p) \<and> root_hash (poseidon E) (ps_tree q) = root_hash (poseidon E) (ps_tree p)"
proof -
  have n: "(160::nat) \<le> 256" by simp
  from persistent_load_ok[OF env_okD(1,3)[OF E] n chain_invD(2)[OF inv]] obtain q where
    q: "persistent_load (kv E) (smirk_format E) (poseidon E) (Suc 160) (Inr (ps_db p)) = Some (Inr q)"
    "persist_inv (poseidon E) (smirk_format E) contents 160 q" "t_entries (ps_tree q) = t_entries (ps_tree p)"
    "root_hash (poseidon E) (ps_tree q) = root_hash (poseidon E) (ps_tree p)" by blast
  then have "chain_inv E contents U ver hist db q" using inv by (simp add: chain_inv_def)
  then show ?thesis using q by (intro exI[of _ q]) (simp add: load_smirk_def of_smirk_def opened_def)
qed

definition recovers ::
  "('db, 'e) node_env \<Rightarrow> ('db \<Rightarrow> kv_contents) \<Rightarrow> seen \<Rightarrow> bytes option \<Rightarrow> block_format list
     \<Rightarrow> ('e node_error + 'db loaded_data) option \<Rightarrow> bool" where
  "recovers E contents U ver hist r \<longleftrightarrow>
     (\<exists>ld. r = Some (Inr ld) \<and> chain_inv E contents U ver hist (ld_block_store ld) (ld_persistent_tree ld)
       \<and> hist \<noteq> [] \<and> ld_block ld = into_block (hd hist))"

text \<open>A tree with the root hash of the last block.\<close>

lemma load_in_step:
  assumes E: "env_ok E contents U" and inv: "chain_inv E contents U ver (f # hist) db p"
  shows "recovers E contents U ver (f # hist) (load_db_and_smirk E (opened db (ps_db p) D) D')"
proof -
  note env = env_okD[OF E] and ch = chain_invD[OF inv]
  obtain q where q: "load_smirk E (opened db (ps_db p) D) = Some (Inr q)" "chain_inv E contents U ver (f # hist) db q"
    using load_smirk_opened[OF E inv] by blast
  have root: "root_hash (poseidon E) (ps_tree q) = Some (root_of f)" using chain_invD(7)[OF q(2)] by simp
  have max: "get_max_height (kv E) db = Some (Inr (Some (fmt_height f)))"
    by (simp add: get_max_height_rep[OF env(1) ch(1)] chain_max_height[OF ch(6)])
  have "expect_block E db (fmt_height f) = Some (Inr (into_block f))"
    by (simp add: expect_block_at[OF env(1,2) ch(1)] block_at_def)
  then show ?thesis
    using q max root by (simp add: recovers_def load_db_and_smirk_def load_store_opened try_bind_def root_of_def)
qed

text \<open>Validation depends on the entries of the tree only.\<close>

lemma validate_block_entries:
  assumes E: "env_ok E contents U" and p: "chain_inv E contents U ver hist db p" and q: "chain_inv E contents U ver hist db q"
    and eq: "t_entries (ps_tree q) = t_entries (ps_tree p)" and U: "set (block_leaves b) \<subseteq> un_notes U"
    and good: "block_height b \<notin> set (bad_blocks E)"
  shows "validate_block E b db (ps_tree q) = Some (Inr ()) \<longleftrightarrow> validate_block E b db (ps_tree p) = Some (Inr ())"
proof -
  note env = env_okD[OF E]
  note iff = accepted_iff[OF env(1,2) _ chain_note_tree chain_apart[OF E _ U] good]
  show ?thesis
    unfolding iff[OF chain_invD(1)[OF p] p p] iff[OF chain_invD(1)[OF q] q q] by (simp add: eq contains_element_def)
qed

text \<open>A tree one block behind the store: the block is applied again.\<close>

lemma load_behind:
  assumes E: "env_ok E contents U" and inv: "chain_inv E contents U ver (g # hist) db p"
    and valid: "validate_block E b db (ps_tree p) = Some (Inr ())" "block_height b \<notin> set (bad_blocks E)"
    and U: "set (block_leaves b) \<subseteq> un_notes U" and ext: "extends b (g # hist)" and f: "into_block f = b"
    and stored: "store_set (kv E) (format_impl E) db f = Some (Inr db')"
    and root: "root_of g \<noteq> root_of f"
  shows "recovers E contents U ver (f # g # hist) (load_db_and_smirk E (opened db' (ps_db p) D) D')"
proof -
  note env = env_okD[OF E]
  obtain q where q: "load_smirk E (opened db' (ps_db p) D) = Some (Inr q)" "chain_inv E contents U ver (g # hist) db q"
    "t_entries (ps_tree q) = t_entries (ps_tree p)" using load_smirk_opened[OF E inv] by blast
  have valid_q: "validate_block E b db (ps_tree q) = Some (Inr ())"
    using validate_block_entries[OF E inv q(2,3) U valid(2)] valid(1) by blast
  obtain p' where p': "apply_block_to_tree E q (bc_state (b_content b)) (block_height b) False = Some (p', Inr ())"
    "chain_inv E contents U ver (f # g # hist) db' p'"
    using chain_extend[OF E q(2) valid_q valid(2) U ext f] stored by auto
  note ch = chain_invD[OF p'(2)]
  have roots: "root_hash (poseidon E) (ps_tree q) = Some (root_of g)"
    "root_hash (poseidon E) (ps_tree p') = Some (root_of f)"
    using chain_invD(7)[OF q(2)] ch(7) by simp_all
  have h: "fmt_height f = fmt_height g + 1" "fmt_height g < fmt_height f"
    using ch(6) unfolding chained.simps by blast+
  have max: "get_max_height (kv E) db' = Some (Inr (Some (fmt_height f)))"
    by (simp add: get_max_height_rep[OF env(1) ch(1)] chain_max_height[OF ch(6)])
  have blocks: "expect_block E db' (fmt_height f) = Some (Inr b)"
    "expect_block E db' (fmt_height f - 1) = Some (Inr (into_block g))"
    using h by (auto simp: expect_block_at[OF env(1,2) ch(1)] block_at_def f)
  have "recover_tree E q b (fmt_height f) = Some (Inr p')"
    using p'(1) roots(2) valid(2) by (simp add: recover_tree_def f root_of_def)
  then show ?thesis
    using q(1) max blocks roots root p'(2) f
    by (simp add: recovers_def load_db_and_smirk_def load_store_opened try_bind_def root_of_def)
qed


section \<open>The node that starts\<close>

text \<open>\<open>Node::new\<close> starts a node for the chain \<open>hist\<close>; of its blocks the node has the last one.\<close>

definition restarts ::
  "('db, 'e) node_env \<Rightarrow> ('db \<Rightarrow> kv_contents) \<Rightarrow> seen \<Rightarrow> block_format list \<Rightarrow> nat
     \<Rightarrow> ('db, 'e) disk \<Rightarrow> ('db, 'e) disk \<Rightarrow> bool" where
  "restarts E contents U hist real D D' \<longleftrightarrow>
     (\<exists>s. node_new 2 E real D D' = Some (Some (Inr s))
        \<and> node_inv E contents (U\<lparr>un_blocks := {into_block (hd hist)}\<rparr>) (Some (be_bytes 4 LATEST_VERSION)) hist s
        \<and> node_height s = fmt_height (hd hist))"

lemma migrate_latest:
  assumes "kv_ok K contents" "store_rep B (Some (be_bytes 4 LATEST_VERSION)) hist (contents db)"
  shows "migrate (Suc fuel) K B db = Some (Some (Inr db))"
proof -
  have "store_version K db = Some (Inr 1)"
    using assms(2)
    by (simp add: store_version_def kv_okD(2)[OF assms(1)] of_rocksdb_def store_rep_def read_int_def LATEST_VERSION_def
        from_be_bytes_gen)
  then show ?thesis by simp
qed

lemma restart:
  assumes E: "env_ok E contents U"
    and rec: "recovers E contents U (Some (be_bytes 4 LATEST_VERSION)) hist (load_db_and_smirk E D D')"
  shows "restarts E contents U hist real D D'"
proof -
  obtain ld where ld: "load_db_and_smirk E D D' = Some (Inr ld)"
    "chain_inv E contents U (Some (be_bytes 4 LATEST_VERSION)) hist (ld_block_store ld) (ld_persistent_tree ld)"
    "hist \<noteq> []" "ld_block ld = into_block (hd hist)"
    using rec by (auto simp: recovers_def)
  note ch = chain_invD[OF ld(2)]
  let ?c = "cache_new (env_block_hash E) (ld_block ld) 10000"
  let ?s = "\<lparr>ns_block_store = ld_block_store ld, ns_notes_tree = ld_persistent_tree ld,
      ns_mempool = mempool_default, ns_block_cache = ?c, ns_doomslug = node_doomslug real (ld_block ld),
      ns_last_commit = None, ns_listeners = [], ns_out = []\<rparr> :: ('a, 'b) node_state"
  have new: "node_new 2 E real D D' = Some (Some (Inr ?s))"
    using ld(1) migrate_latest[OF env_okD(1)[OF E] ch(1), of 1] by (simp add: node_new_def numeral_2_eq_2)
  have "cache_ok (env_block_hash E) ?c" by (rule cache_new_ok)
  moreover have "ca_height ?c = fmt_height (hd hist)" "ca_blocks ?c = [(env_block_hash E (ld_block ld), ld_block ld)]"
    using ld(4) by (simp_all add: cache_new_def cache_insert_def Let_def)
  ultimately have cache: "cache_ok (env_block_hash E) ?c" "ca_height ?c = fmt_height (hd hist)"
    "ca_blocks ?c = [(env_block_hash E (ld_block ld), ld_block ld)]" by blast+
  let ?U = "U\<lparr>un_blocks := {into_block (hd hist)}\<rparr>"
  have "block_allowed E ?U (ld_block ld)"
    using ch(5,8) ld(3,4) by (cases hist) (auto simp: block_allowed_def)
  moreover have "chain_inv E contents ?U (Some (be_bytes 4 LATEST_VERSION)) hist (ld_block_store ld) (ld_persistent_tree ld)"
    using ld(2) by (simp add: chain_inv_def)
  ultimately have "node_inv E contents ?U (Some (be_bytes 4 LATEST_VERSION)) hist ?s"
    unfolding node_inv_def using cache by (simp add: node_height_def mempool_default_def)
  then show ?thesis using new cache(2) unfolding restarts_def by (intro exI[of _ ?s]) (simp add: node_height_def)
qed

lemma chain_inv_tree:
  assumes "chain_inv E contents U ver hist db p" "persist_inv (poseidon E) (smirk_format E) contents 160 q"
    and "fst ` set (t_entries (ps_tree q)) = set (chain_notes hist)"
    and "root_hash (poseidon E) (ps_tree q) = Some (root_of (hd hist))"
  shows "chain_inv E contents U ver hist db q"
  using assms by (simp add: chain_inv_def)

text \<open>
  C11: recovery. The node has a chain of at least one block and crashes in the commit of the next one, a
  block that changes the root hash when it has notes. Wherever it crashes, before the block store has the
  block, between the block store and the tree, or after both, the next start of the node succeeds without
  a reset, and gives a node for the chain without the block in the first case and with it in the others.
  The databases do not fail, and the notes have different slots. For the commit of the first block of a
  chain this does not hold: a crash between the block store and the tree stops every later start.
\<close>

theorem crash_recovery:
  assumes "env_ok E contents U" "node_inv E contents U (Some (be_bytes 4 LATEST_VERSION)) hist s" "hist \<noteq> []"
    and "get_next_commit_block (ns_block_cache s) = Some b"
    and "validate_block E b (ns_block_store s) (note_tree s) = Some (Inr ())"
    and "block_leaves b \<noteq> [] \<Longrightarrow> root_of (hd hist) \<noteq> bs_root_hash (bc_state (b_content b))"
  shows "\<exists>s'. commit_proposal E m b s = Some (s', Inr ())
    \<and> restarts E contents U hist real (opened (ns_block_store s) (ps_db (ns_notes_tree s)) D) D'
    \<and> restarts E contents U (committed m b # hist) real (opened (ns_block_store s') (ps_db (ns_notes_tree s)) D) D'
    \<and> restarts E contents U (committed m b # hist) real (opened (ns_block_store s') (ps_db (ns_notes_tree s')) D) D'"
proof -
  let ?v = "Some (be_bytes 4 LATEST_VERSION)"
  note inv = node_invD[OF assms(2)] and allowed = next_commit_allowed[OF assms(2,4)]
  note start = restart[OF assms(1)]
  obtain g r where hist: "hist = g # r" using assms(3) by (cases hist) auto
  obtain s' where s': "commit_proposal E m b s = Some (s', Inr ())"
    "chain_inv E contents U ?v (committed m b # hist) (ns_block_store s') (ns_notes_tree s')"
    "store_set (kv E) (format_impl E) (ns_block_store s) (committed m b) = Some (Inr (ns_block_store s'))"
    using commit_ok[OF assms(1) inv(1) assms(5) allowed(2,1,3), of m] by blast
  have none: "recovers E contents U ?v hist
      (load_db_and_smirk E (opened (ns_block_store s) (ps_db (ns_notes_tree s)) D) D')"
    using load_in_step[OF assms(1) inv(1)[unfolded hist]] by (simp add: hist)
  have both: "recovers E contents U ?v (committed m b # hist)
      (load_db_and_smirk E (opened (ns_block_store s') (ps_db (ns_notes_tree s')) D) D')"
    by (rule load_in_step[OF assms(1) s'(2)])
  have half: "recovers E contents U ?v (committed m b # hist)
      (load_db_and_smirk E (opened (ns_block_store s') (ps_db (ns_notes_tree s)) D) D')"
  proof (cases "root_of g = root_of (committed m b)")
    case True
    then have "block_leaves b = []" using assms(6) by (auto simp: hist root_of_def)
    then have "chain_inv E contents U ?v (committed m b # hist) (ns_block_store s') (ns_notes_tree s)"
      using chain_invD(2,3)[OF inv(1)] chain_invD(7)[OF inv(1) assms(3)] True
      by (intro chain_inv_tree[OF s'(2)]) (simp_all add: hist)
    then show ?thesis by (rule load_in_step[OF assms(1)])
  next
    case False
    show ?thesis
      unfolding hist
      by (rule load_behind[OF assms(1) inv(1)[unfolded hist] assms(5) allowed(2,1) allowed(3)[unfolded hist]
            committed_block s'(3) False])
  qed
  show ?thesis using s'(1) start[OF none] start[OF half] start[OF both] by blast
qed



section \<open>Concrete inputs\<close>

text \<open>With addition as the hash of two nodes, the root hash of a tree is the sum of its elements.\<close>

lemma spec_root_upd:
  fixes f :: "bool list \<Rightarrow> element"
  shows "length q = n \<Longrightarrow> spec_root (+) n (f(q := v)) = spec_root (+) n f + (v - f q)"
proof (induction q arbitrary: n f)
  case (Cons b q)
  then obtain k where n: "n = Suc k" "length q = k" by auto
  have upd: "(\<lambda>p. (f(b # q := v)) (c # p)) = (if c = b then (\<lambda>p. f (b # p))(q := v) else (\<lambda>p. f (c # p)))" for c
    by (auto simp: fun_eq_iff)
  have ih: "spec_root (+) k ((\<lambda>p. f (b # p))(q := v)) = spec_root (+) k (\<lambda>p. f (b # p)) + (v - f (b # q))"
    by (rule Cons.IH[OF n(2)])
  show ?case
    unfolding n(1) spec_root.simps upd if_distrib[of "spec_root (+) k"] ih by (cases b) (simp_all only: simp_thms if_True if_False ac_simps)
qed simp

lemma empty_spec_sum [simp]: "empty_spec (+) n = 0"
  by (induction n) (simp_all add: element_consts)

lemma spec_root_sum:
  "keyed n els \<Longrightarrow> n \<le> 256 \<Longrightarrow> spec_root (+) n (slots n els) = sum_list els"
proof (induction els)
  case Nil
  then show ?case by (simp add: slots_def spec_root_null)
next
  case (Cons e els)
  have upd: "slots n (e # els) = (slots n els)(lsb e n := e)"
    by (simp add: slots_def slot_upd_def fun_eq_iff)
  have "lsb e n \<notin> (\<lambda>e. lsb e n) ` set els" using Cons.prems(1) by simp
  then have free: "slots n els (lsb e n) = 0"
    unfolding slots_def by (subst slot_upd_free) (simp_all add: element_consts)
  have "length (lsb e n) = n" using Cons.prems(2) by simp
  note root = spec_root_upd[OF this, of "slots n els" e]
  have "keyed n els" using Cons.prems(1) by simp
  from Cons.IH[OF this Cons.prems(2)] show ?case unfolding upd root free by simp
qed

lemma sample_roots: "notes_root sample_env [5, 6] = 11" "notes_root sample_env [5, 6, 7, 8] = 26"
  "notes_root sample_env [] = 0"
  using spec_root_sum[OF sample_keyed] spec_root_sum[of 160 "[5, 6]"] spec_root_sum[of 160 "[]"] sample_keyed by simp_all

definition sample_disk :: "(kv_contents, unit) disk" where
  "sample_disk = \<lparr>dk_store_present = Inr True, dk_open_store = (\<lambda>_. Inr []), dk_open_smirk = Inr [],
     dk_rename_db = Inr (), dk_rename_smirk = Inr ()\<rparr>"

lemma sample_valid_1:
  "validate_block sample_env (minting_block 1) (ns_block_store sample_state_1) (note_tree sample_state_1) = Some (Inr ())"
  by (simp add: sample_store_1 minting_block_accepted)


text \<open>A second block, which mints 7 and 8.\<close>

definition second_block :: block where
  "second_block = \<lparr>b_content = \<lparr>bc_header = bc_header content_genesis\<lparr>bh_height := 2\<rparr>,
      bc_state = \<lparr>bs_root_hash = notes_root sample_env [5, 6, 7, 8], bs_txns = [sample_txn\<lparr>up_output_leaves := (7, 8)\<rparr>]\<rparr>\<rparr>,
      b_signature = signature_default\<rparr>"

lemma second_block_simps [simp]:
  "block_height second_block = 2" "block_leaves second_block = [7, 8]"
  "bs_root_hash (bc_state (b_content second_block)) = notes_root sample_env [5, 6, 7, 8]"
  "bs_txns (bc_state (b_content second_block)) = [sample_txn\<lparr>up_output_leaves := (7, 8)\<rparr>]"
  by (simp_all add: second_block_def state_leaves_def leaves_def array2_def sample_txn_def content_genesis_def ZERO_def)

lemma second_block_valid:
  assumes inv: "chain_inv sample_env store_contents sample_notes ver [committed m (minting_block 1)] db p"
  shows "validate_block sample_env second_block db (ps_tree p) = Some (Inr ())"
proof -
  note ch = chain_invD[OF inv]
  let ?keys = "map fst (t_entries (ps_tree p))"
  have keys: "set ?keys = {5, 6}" using ch(3) by simp
  have U: "set (block_leaves second_block) \<subseteq> un_notes sample_notes" by (simp add: sample_notes_def)
  note apart = chain_apart[OF sample_env_ok inv U]
  have "keyed 160 ?keys" using chain_note_tree[OF inv] by (simp add: tree_inv_def)
  then have "distinct ?keys" unfolding distinct_map[of "\<lambda>e. lsb e 160"] by blast
  then have "keyed 160 (?keys @ [7, 8])"
    using apart keys by (subst distinct_map) (auto simp: slots_apart_def)
  then have "slots 160 (?keys @ [7, 8]) = slots 160 [5, 6, 7, 8]"
    using keys by (intro slots_set[OF _ sample_keyed]) auto
  moreover have "\<forall>l \<in> set (leaves (sample_txn\<lparr>up_output_leaves := (7, 8)\<rparr>)).
      l < MODULUS \<and> (l \<noteq> ZERO \<longrightarrow> \<not> contains_element (ps_tree p) l)"
  proof -
    have "\<not> contains_element (ps_tree p) 7" "\<not> contains_element (ps_tree p) 8"
      using keys by (auto simp: contains_element_def map_of_eq_None_iff)
    moreover have "set (leaves (sample_txn\<lparr>up_output_leaves := (7, 8)\<rparr>)) = {0, 7, 8}"
      by (auto simp: sample_txn_def leaves_def array2_def)
    moreover have "(7::element) < MODULUS" "(8::element) < MODULUS" "(0::element) < MODULUS" by (simp_all add: MODULUS_def)
    ultimately show ?thesis by (simp add: ZERO_def)
  qed
  moreover have "recent_root_ok sample_env [committed m (minting_block 1)] 2 (sample_txn\<lparr>up_output_leaves := (7, 8)\<rparr>)"
    by (simp add: recent_root_ok_def sample_txn_def ZERO_def)
  ultimately show ?thesis
    using accepted_iff[OF sample_kv_ok sample_wire_ok ch(1) chain_note_tree[OF inv] apart]
    by (simp add: get_leader_for_block_height_def)
qed

text \<open>The node after it committed the first block, and after it received the second one.\<close>

lemma sample_at_1:
  "\<exists>s. node_inv sample_env store_contents sample_notes (Some (be_bytes 4 LATEST_VERSION))
      [committed sample_moment (minting_block 1)] s
    \<and> ns_block_cache s = \<lparr>ca_height = 1, ca_max_height = 1, ca_blocks = [(1, minting_block 1)],
                          ca_hash_heights = [(1, 1)], ca_max_cache_size = 10000\<rparr>"
proof -
  obtain s where s: "node_inv sample_env store_contents sample_notes (Some (be_bytes 4 LATEST_VERSION))
      [committed sample_moment (minting_block 1)] s"
    "ns_block_cache s = cache_confirm 1 (ns_block_cache sample_state_1)"
    using confirm_commit[OF sample_env_ok sample_node_inv_1 sample_next sample_valid_1, of sample_moment]
    by (auto simp: LATEST_VERSION_def)
  have "ns_block_cache s = \<lparr>ca_height = 1, ca_max_height = 1, ca_blocks = [(1, minting_block 1)],
     ca_hash_heights = [(1, 1)], ca_max_cache_size = 10000\<rparr>"
    by (simp add: s(2) sample_cache_1 cache_confirm_def drop_height_def bt_remove_def)
  then show ?thesis using s(1) by blast
qed

lemma second_block_allowed: "block_allowed sample_env sample_notes second_block"
  by (simp add: block_allowed_def sample_notes_def)

lemma sample_committed:
  "\<exists>s. node_inv sample_env store_contents sample_notes (Some (be_bytes 4 LATEST_VERSION))
      [committed sample_moment (minting_block 1)] s
    \<and> get_next_commit_block (ns_block_cache s) = Some second_block"
proof -
  obtain s where s: "node_inv sample_env store_contents sample_notes (Some (be_bytes 4 LATEST_VERSION))
      [committed sample_moment (minting_block 1)] s"
    and cache: "ns_block_cache s = \<lparr>ca_height = 1, ca_max_height = 1, ca_blocks = [(1, minting_block 1)],
                  ca_hash_heights = [(1, 1)], ca_max_cache_size = 10000\<rparr>"
    using sample_at_1 by blast
  obtain s' where s': "receive_proposal sample_env second_block s = Some s'"
    by (simp add: receive_proposal_def Let_def)
  from receive_proposal_keeps[OF sample_env_hash s second_block_allowed s']
  have "node_inv sample_env store_contents sample_notes (Some (be_bytes 4 LATEST_VERSION))
      [committed sample_moment (minting_block 1)] s'" .
  moreover have "get_next_commit_block (ns_block_cache s') = Some second_block"
    using s' by (auto simp: receive_proposal_def Let_def cache cache_insert_def bt_last_def get_next_commit_block_def
        cache_get_by_height_def sample_hash[simplified])
  ultimately show ?thesis by blast
qed

theorem crash_recovery_witness:
  "\<exists>s s' m. commit_proposal sample_env m second_block s = Some (s', Inr ())
    \<and> restarts sample_env store_contents sample_notes [committed m second_block, committed sample_moment (minting_block 1)] 0
        (opened (ns_block_store s') (ps_db (ns_notes_tree s)) sample_disk) sample_disk"
proof -
  obtain s where s: "node_inv sample_env store_contents sample_notes (Some (be_bytes 4 LATEST_VERSION))
      [committed sample_moment (minting_block 1)] s" "get_next_commit_block (ns_block_cache s) = Some second_block"
    using sample_committed by blast
  have "root_of (hd [committed sample_moment (minting_block 1)]) \<noteq> bs_root_hash (bc_state (b_content second_block))"
    using sample_roots by (simp add: root_of_def)
  then show ?thesis
    using crash_recovery[OF sample_env_ok s(1) _ s(2) second_block_valid[OF node_invD(1)[OF s(1)]]] by blast
qed

end
