(* ===== verification/Node_Sync.thy ===== *)
theory Node_Sync
  imports Node_Reach
begin

text \<open>
  \<open>sync.rs\<close>, \<open>node/snapshot.rs\<close> and \<open>network_handler.rs\<close> of \<open>pkg/node\<close>: the worker that asks the
  other nodes for what this one has missed, the answers of the node to such requests, and the dispatch
  of network events. The worker is a state machine: each \<open>await\<close> in it is a state, what it waits for an
  input; a message it does not wait for is dropped.
\<close>

section \<open>The worker (sync.rs)\<close>

datatype 'e sync_error =
    ChannelWasClosed
  | SyncNodeError "'e node_error"
  | SyncSmirkCollision "collision list"
  | SyncSmirkStorage "'e storage_error"
  | TokioJoin

datatype 'e sync_state =
    WaitOutOfSync
  | WaitOffer snapshot_id snapshot_kind u64
  | WaitChunk peer_id snapshot_id
  | AfterChunk
  | Stopped "'e sync_error"

record sync_config =
  chunk_size :: u64
  fast_sync_threshold :: u64

text \<open>
  The first half of \<open>handle_out_of_sync\<close>, up to the request: \<open>snap\<close> is the random snapshot id, and
  \<open>contract_height\<close> what the rollup contract answers. \<open>None\<close> is a panic.
\<close>

definition request_snapshot ::
  "('db, 'e) node_env \<Rightarrow> sync_config \<Rightarrow> snapshot_id \<Rightarrow> 'e + u64 \<Rightarrow> u64 \<Rightarrow> ('db, 'e) node_state
     \<Rightarrow> (('db, 'e) node_state \<times> 'e sync_state) option" where
  "request_snapshot E cfg snap contract_height max_seen_height s =
     (case is_out_of_sync (ns_block_cache s) of
        None \<Rightarrow> None
      | Some False \<Rightarrow> Some (s, WaitOutOfSync)
      | Some True \<Rightarrow>
          (let from_height = node_height s + 1;
               to_height = from_height + chunk_size cfg;
               far_enough = max_seen_height - node_height s > fast_sync_threshold cfg;
               (how, to_height) =
                 (if is_prover (node_mode E) \<and> far_enough then
                    (case contract_height of
                       Inr height \<Rightarrow> if height > to_height then (FastSync, height) else (SlowSync, to_height)
                     | Inl _ \<Rightarrow> (SlowSync, to_height))
                  else (SlowSync, to_height))
           in Some (emit [SendAll (EvSnapshotRequest \<lparr>sr_snapshot_id = snap, sr_from_height = from_height,
                        sr_to_height = to_height, sr_kind = how\<rparr>)] s,
                    WaitOffer snap how to_height)))"

text \<open>The first half of \<open>handle_snapshot_offer\<close>.\<close>

definition accept_offer ::
  "snapshot_kind \<Rightarrow> u64 \<Rightarrow> peer_id \<Rightarrow> snapshot_id \<Rightarrow> ('db, 'e) node_state \<Rightarrow> ('db, 'e) node_state \<times> 'e sync_state"
where
  "accept_offer how to_height peer snap s =
     (emit [SendTo peer (EvSnapshotAccept \<lparr>sa_snapshot_id = snap, sa_from_height = node_height s + 1,
              sa_to_height = to_height, sa_kind = how\<rparr>)] s,
      WaitChunk peer snap)"

text \<open>
  \<open>handle_snapshot_chunk_slow\<close> up to the end of the blocking task, which ends with the first panic. The
  worker looks at the cache only after the task; the ticks it wakes may run before that.
\<close>

fun receive_chunk ::
  "('db, 'e) node_env \<Rightarrow> block list \<Rightarrow> ('db, 'e) node_state \<Rightarrow> ('db, 'e) node_state \<times> 'e sync_state" where
  "receive_chunk E [] s = (s, AfterChunk)"
| "receive_chunk E (b # bs) s =
     (case receive_proposal E b s of
        None \<Rightarrow> (s, Stopped TokioJoin)
      | Some s \<Rightarrow> receive_chunk E bs (emit [WakeTicker] s))"

definition handle_chunk_slow where
  "handle_chunk_slow E sc s = receive_chunk E (sort_key block_height (ss_chunk sc)) s"

text \<open>The rest of it: the message to itself when the node still is out of sync.\<close>

definition after_chunk ::
  "('db, 'e) node_state \<Rightarrow> (('db, 'e) node_state \<times> 'e sync_state) option" where
  "after_chunk s =
     (case is_out_of_sync (ns_block_cache s) of
        None \<Rightarrow> None
      | Some False \<Rightarrow> Some (s, WaitOutOfSync)
      | Some True \<Rightarrow> Some (emit [ToSyncWorker (OutOfSync (node_max_height s))] s, WaitOutOfSync))"

text \<open>
  The loop of \<open>handle_snapshot_chunk_fast\<close> over the new elements: the batch and the notes of the block
  that are left to find.
\<close>

fun fast_batch ::
  "element list \<Rightarrow> element list \<Rightarrow> u64 batch \<Rightarrow> element list
     \<Rightarrow> (collision list + u64 batch \<times> element list) option" where
  "fast_batch block_elements [] batch left_to_find = Some (Inr (batch, left_to_find))"
| "fast_batch block_elements (element # elements) batch left_to_find =
     (if element \<in> set block_elements
      then fast_batch block_elements elements batch (removeAll element left_to_find)
      else
        (case batch_insert MERKLE_TREE_DEPTH batch element 0 of
           None \<Rightarrow> None
         | Some (Inl e) \<Rightarrow> Some (Inl e)
         | Some (Inr batch) \<Rightarrow> fast_batch block_elements elements batch left_to_find))"

text \<open>
  \<open>handle_snapshot_chunk_fast\<close>. The set of the elements that are new is a distinct list. A panic of the
  worker's own task leaves what it changed before: \<open>None\<close> stands for one that changed nothing.
\<close>

definition handle_chunk_fast ::
  "('db, 'e) node_env \<Rightarrow> snapshot_chunk_fast \<Rightarrow> ('db, 'e) node_state
     \<Rightarrow> (('db, 'e) node_state \<times> 'e sync_state) option" where
  "handle_chunk_fast E sc s =
     (case sf_block sc of
        None \<Rightarrow> Some (s, WaitOutOfSync)
      | Some b \<Rightarrow>
          (let block_elements = remdups (filter (\<lambda>l. \<not> is_zero l) (state_leaves (bc_state (b_content b))));
               elements = filter (\<lambda>e. \<not> contains_element (note_tree s) e) (remdups (sf_elements sc))
           in case root_hash_with (poseidon E) (simple_hash (poseidon E)) MERKLE_TREE_DEPTH (note_tree s) elements of
                None \<Rightarrow> None
              | Some (root, _) \<Rightarrow>
                  (if root \<noteq> bs_root_hash (bc_state (b_content b)) then Some (s, WaitOutOfSync)
                   else
                     (case fast_batch block_elements elements batch_new block_elements of
                        None \<Rightarrow> None
                      | Some (Inl e) \<Rightarrow> Some (s, Stopped (SyncSmirkCollision e))
                      | Some (Inr (batch, left_to_find)) \<Rightarrow>
                          (if left_to_find \<noteq> [] then Some (s, WaitOutOfSync)
                           else
                             (case persistent_insert_batch (kv E) (smirk_format E) (poseidon E) MERKLE_TREE_DEPTH
                                     (ns_notes_tree s) batch of
                                None \<Rightarrow> None
                              | Some (tree, Inl e) \<Rightarrow>
                                  Some (s\<lparr>ns_notes_tree := tree\<rparr>, Stopped (SyncSmirkStorage e))
                              | Some (tree, Inr _) \<Rightarrow>
                                  (let s = s\<lparr>ns_notes_tree := tree,
                                             ns_block_cache := cache_confirm (block_height b - 1) (ns_block_cache s)\<rparr>
                                   in case receive_proposal E b s of
                                        None \<Rightarrow> Some (s, Stopped TokioJoin)
                                      | Some s \<Rightarrow> Some (emit [WakeTicker] s, WaitOutOfSync))))))))"

text \<open>
  One input of the worker. \<open>OfferTimeout\<close> is the timer of ten seconds, \<open>ChunkTimeout\<close> the configured
  one, \<open>ChunkDone\<close> the end of the blocking task; between two rounds the worker sleeps for a second.
\<close>

datatype 'e sync_input =
    Received sync_message snapshot_id "'e + u64"
  | OfferTimeout
  | ChunkTimeout
  | ChunkDone
  | Closed

fun sync_step ::
  "('db, 'e) node_env \<Rightarrow> sync_config \<Rightarrow> 'e sync_input \<Rightarrow> ('db, 'e) node_state \<times> 'e sync_state
     \<Rightarrow> (('db, 'e) node_state \<times> 'e sync_state) option" where
  "sync_step E cfg (Received (OutOfSync max_seen) snap contract_height) (s, WaitOutOfSync) =
     request_snapshot E cfg snap contract_height max_seen s"
| "sync_step E cfg (Received (SnapshotOffer peer offered) snap contract_height) (s, WaitOffer wanted how to_height) =
     Some (if offered = wanted then accept_offer how to_height peer wanted s else (s, WaitOffer wanted how to_height))"
| "sync_step E cfg (Received (SnapshotChunk sc_peer sc) snap contract_height) (s, WaitChunk peer wanted) =
     (if sc_peer = peer \<and> chunk_snapshot_id sc = wanted
      then (case sc of ChunkSlow sc \<Rightarrow> Some (handle_chunk_slow E sc s) | ChunkFast sc \<Rightarrow> handle_chunk_fast E sc s)
      else Some (s, WaitChunk peer wanted))"
| "sync_step E cfg OfferTimeout (s, WaitOffer wanted how to_height) = Some (s, WaitOutOfSync)"
| "sync_step E cfg ChunkTimeout (s, WaitChunk peer wanted) = Some (s, WaitOutOfSync)"
| "sync_step E cfg ChunkDone (s, AfterChunk) = after_chunk s"
| "sync_step E cfg Closed (s, WaitOutOfSync) = Some (s, Stopped ChannelWasClosed)"
| "sync_step E cfg Closed (s, WaitOffer wanted how to_height) = Some (s, Stopped ChannelWasClosed)"
| "sync_step E cfg Closed (s, WaitChunk peer wanted) = Some (s, Stopped ChannelWasClosed)"
| "sync_step E cfg input (s, w) = Some (s, w)"

section \<open>Answering requests (sync.rs)\<close>

text \<open>\<open>None\<close> is the panic of \<open>is_out_of_sync\<close>.\<close>

definition handle_snapshot_request ::
  "peer_id \<Rightarrow> snapshot_request \<Rightarrow> ('db, 'e) node_state \<Rightarrow> ('db, 'e) node_state option" where
  "handle_snapshot_request peer r s = do {
     out_of_sync \<leftarrow> is_out_of_sync (ns_block_cache s);
     Some (if out_of_sync \<or> sr_from_height r > node_height s then s
           else emit [SendTo peer (EvSnapshotOffer (sr_snapshot_id r))] s) }"

definition send_snapshot_chunk_slow ::
  "('db, 'e) node_env \<Rightarrow> peer_id \<Rightarrow> snapshot_id \<Rightarrow> u64 \<Rightarrow> u64 \<Rightarrow> ('db, 'e) node_state
     \<Rightarrow> (('db, 'e) node_state \<times> ('e sync_error + unit)) option" where
  "send_snapshot_chunk_slow E peer snap from_height to_height s =
     (let to_height = min to_height (node_height s + 1)
      in case collect_results (map (\<lambda>r. try_bind r (\<lambda>b. Some (Inr (into_block b))))
                (fetch_blocks E s (Included from_height, Excluded to_height) LowestToHighest)) of
           None \<Rightarrow> None
         | Some (Inl e) \<Rightarrow> Some (s, Inl (SyncNodeError e))
         | Some (Inr blocks) \<Rightarrow>
             (let pending_proposals = cache_get_range (ns_block_cache s) from_height to_height
              in Some (emit [SendTo peer (EvSnapshotChunk (ChunkSlow
                         \<lparr>ss_snapshot_id = snap, ss_chunk = blocks @ pending_proposals\<rparr>))] s, Inr ())))"

definition send_snapshot_chunk_fast ::
  "('db, 'e) node_env \<Rightarrow> peer_id \<Rightarrow> snapshot_id \<Rightarrow> u64 \<Rightarrow> ('db, 'e) node_state
     \<Rightarrow> (('db, 'e) node_state \<times> ('e sync_error + unit)) option" where
  "send_snapshot_chunk_fast E peer snap to_height s =
     (case node_get_block E s to_height of
        None \<Rightarrow> None
      | Some (Inl e) \<Rightarrow> Some (s, Inl (SyncNodeError e))
      | Some (Inr b) \<Rightarrow>
          (let elements = map fst (filter (\<lambda>(e, inserted_in). inserted_in \<le> to_height) (t_entries (note_tree s)))
           in Some (emit [SendTo peer (EvSnapshotChunk (ChunkFast
                      \<lparr>sf_snapshot_id = snap, sf_block = map_option into_block b, sf_elements = elements\<rparr>))] s, Inr ())))"

definition handle_snapshot_accept ::
  "('db, 'e) node_env \<Rightarrow> peer_id \<Rightarrow> snapshot_accept \<Rightarrow> ('db, 'e) node_state
     \<Rightarrow> (('db, 'e) node_state \<times> ('e sync_error + unit)) option" where
  "handle_snapshot_accept E peer a s =
     (case sa_kind a of
        SlowSync \<Rightarrow> send_snapshot_chunk_slow E peer (sa_snapshot_id a) (sa_from_height a) (sa_to_height a) s
      | FastSync \<Rightarrow> send_snapshot_chunk_fast E peer (sa_snapshot_id a) (sa_to_height a) s)"

section \<open>Network events (network\_handler.rs, node/snapshot.rs)\<close>

definition receive_snapshot_offer :: "peer_id \<Rightarrow> snapshot_id \<Rightarrow> ('db, 'e) node_state \<Rightarrow> ('db, 'e) node_state" where
  "receive_snapshot_offer peer snap s = emit [ToSyncWorker (SnapshotOffer peer snap)] s"

definition receive_snapshot_chunk :: "peer_id \<Rightarrow> snapshot_chunk \<Rightarrow> ('db, 'e) node_state \<Rightarrow> ('db, 'e) node_state" where
  "receive_snapshot_chunk peer sc s = emit [ToSyncWorker (SnapshotChunk peer sc)] s"

text \<open>\<open>handle_event\<close>: its errors are only logged. \<open>None\<close> is a panic, which ends the handler.\<close>

definition handle_event ::
  "('db, 'e) node_env \<Rightarrow> 'e chain_view \<Rightarrow> moment \<Rightarrow> peer_id \<Rightarrow> network_event \<Rightarrow> ('db, 'e) node_state
     \<Rightarrow> ('db, 'e) node_state option" where
  "handle_event E C m peer event s =
     (case event of
        EvApproval a \<Rightarrow> map_option fst (receive_accept E m a s)
      | EvBlock b \<Rightarrow> map_option (emit [WakeTicker]) (receive_proposal E b s)
      | EvTransaction t \<Rightarrow> receive_transaction E C t s
      | EvSnapshotRequest r \<Rightarrow> handle_snapshot_request peer r s
      | EvSnapshotOffer snap \<Rightarrow> Some (receive_snapshot_offer peer snap s)
      | EvSnapshotChunk sc \<Rightarrow> Some (receive_snapshot_chunk peer sc s)
      | EvSnapshotAccept a \<Rightarrow> map_option fst (handle_snapshot_accept E peer a s))"

end
