(* ===== verification/Node_Sync_Props.thy ===== *)
theory Node_Sync_Props
  imports Node_Sync Node_Recovery
begin

text \<open>
  The properties of synchronisation: nodes with the same chain accept the same blocks, so a node that
  receives the blocks another one committed commits them too; what a slow snapshot holds; what the check
  of a fast one guarantees.
\<close>

section \<open>Blocks of another node\<close>

abbreviation same_blocks :: "block_format list \<Rightarrow> block_format list \<Rightarrow> bool" where
  "same_blocks hist hist' \<equiv> map into_block hist = map into_block hist'"

lemma same_notes: "same_blocks hist hist' \<Longrightarrow> chain_notes hist = chain_notes hist'"
proof -
  have eq: "chain_notes h = concat (map block_leaves (map into_block h))" for h by (simp add: chain_notes_def comp_def)
  show "same_blocks hist hist' \<Longrightarrow> chain_notes hist = chain_notes hist'" unfolding eq by (rule arg_cong)
qed

lemma same_recent_root:
  assumes "same_blocks hist hist'"
  shows "recent_root_ok E hist h t \<longleftrightarrow> recent_root_ok E hist' h t"
proof -
  have "map_option into_block (block_at (format_impl E) hist k) = map_option into_block (block_at (format_impl E) hist' k)" for k
  proof -
    have "map_option into_block (block_at (format_impl E) g k) = find (\<lambda>b. block_height b = k) (map into_block g)" for g
      by (induction g) (auto simp: block_at_def format_impl_def)
    then show ?thesis using assms by simp
  qed
  then have "(\<exists>f. block_at (format_impl E) hist k = Some f \<and> up_recent_root t = root_of f)
      \<longleftrightarrow> (\<exists>f. block_at (format_impl E) hist' k = Some f \<and> up_recent_root t = root_of f)" for k
    by (cases "block_at (format_impl E) hist k"; cases "block_at (format_impl E) hist' k") (auto simp: root_of_def dest!: meta_spec[of _ k])
  then show ?thesis unfolding recent_root_ok_def by blast
qed

text \<open>Nodes with the same blocks accept the same blocks.\<close>

lemma accepted_same: "same_blocks hist hist' \<Longrightarrow> accepted E hist b \<longleftrightarrow> accepted E hist' b"
  unfolding accepted_def using same_notes[of hist hist'] same_recent_root[of hist hist' E] by simp

text \<open>Blocks, oldest first, that can be committed one after the other on top of a chain.\<close>

fun valid_run :: "('db, 'e) node_env \<Rightarrow> seen \<Rightarrow> block_format list \<Rightarrow> block_format list \<Rightarrow> bool" where
  "valid_run E U hist [] \<longleftrightarrow> True"
| "valid_run E U hist (f # fs) \<longleftrightarrow>
     accepted E hist (into_block f) \<and> block_allowed E U (into_block f) \<and> extends (into_block f) hist
     \<and> valid_run E U (f # hist) fs"

lemma valid_run_same: "same_blocks hist hist' \<Longrightarrow> valid_run E U hist fs \<longleftrightarrow> valid_run E U hist' fs"
proof (induction fs arbitrary: hist hist')
  case (Cons f fs)
  have "extends (into_block f) hist \<longleftrightarrow> extends (into_block f) hist'"
    using Cons.prems by (cases hist; cases hist') (auto simp: extends_def)
  moreover have "valid_run E U (f # hist) fs \<longleftrightarrow> valid_run E U (f # hist') fs" by (rule Cons.IH) (use Cons.prems in simp)
  ultimately show ?case using accepted_same[OF Cons.prems, of E "into_block f"] by simp
qed simp

lemma chained_extends: "chained (f # hist) \<Longrightarrow> extends (into_block f) hist"
proof (cases hist)
  case (Cons g r)
  assume "chained (f # hist)"
  then show ?thesis unfolding Cons chained.simps extends_def list.sel by blast
qed (simp add: extends_def)

lemma chain_suffix: "chained (xs @ ys) \<Longrightarrow> chained ys" "valid_chain E (xs @ ys) \<Longrightarrow> valid_chain E ys"
proof (induction xs)
  case (Cons x xs)
  { case 1 then show ?case using Cons by (cases "xs @ ys") auto }
  { case 2 then show ?case using Cons by simp }
qed simp_all

lemma chain_valid_run:
  assumes "chained (rev fs @ hist)" "valid_chain E (rev fs @ hist)" "set (chain_notes (rev fs @ hist)) \<subseteq> un_notes U"
    "set (map into_block fs) \<subseteq> un_blocks U"
    "\<forall>f \<in> set (rev fs @ hist). fmt_height f \<notin> set (bad_blocks E)"
  shows "valid_run E U hist fs"
  using assms
proof (induction fs arbitrary: hist)
  case (Cons f fs)
  have suffix: "chained (f # hist)" "valid_chain E (f # hist)"
    using Cons.prems(1,2) chain_suffix(1)[of "rev fs" "f # hist"] chain_suffix(2)[of E "rev fs" "f # hist"] by simp_all
  have "extends (into_block f) hist" using suffix(1) by (rule chained_extends)
  moreover have "block_allowed E U (into_block f)"
    using Cons.prems(3-5) by (auto simp: block_allowed_def chain_notes_def)
  moreover have "valid_run E U (f # hist) fs" by (rule Cons.IH) (use Cons.prems in simp_all)
  ultimately show ?case using suffix(2) by simp
qed simp

section \<open>Committing the blocks of another node\<close>

lemma valid_run_heights:
  "valid_run E U hist fs \<Longrightarrow> hist \<noteq> [] \<Longrightarrow> g \<in> set fs \<Longrightarrow> fmt_height (hd hist) < fmt_height g"
proof (induction fs arbitrary: hist)
  case (Cons f fs)
  have f: "fmt_height (hd hist) < fmt_height f" using Cons.prems(1,2) unfolding valid_run.simps extends_def by blast
  show ?case
  proof (cases "g = f")
    case False
    then have "fmt_height (hd (f # hist)) < fmt_height g" by (intro Cons.IH) (use Cons.prems in auto)
    then show ?thesis using f by simp
  qed (use f in simp)
qed simp

lemma tick_commits_run:
  assumes E: "env_ok E contents U" "has_leaders E"
    and "node_inv E contents U ver hist s" "pending (ns_block_cache s) < fuel"
    and "valid_run E U hist fs" "hist \<noteq> []"
    and "\<forall>f \<in> set fs. cache_get_by_height (ns_block_cache s) (fmt_height f) = Some (into_block f)"
    and "\<forall>b \<in> cached (ns_block_cache s). proofs_readable E b"
  shows "\<exists>s' more. tick_loop fuel E M s = Finished (s', True)
    \<and> node_inv E contents U ver (commits M (map into_block fs @ more) @ hist) s'
    \<and> get_next_commit_block (ns_block_cache s') = None"
  using assms(3-8)
proof (induction fs arbitrary: s hist fuel)
  case Nil
  then show ?case using tick_loop_readable[OF E Nil.prems(1,2,6), of M] by (auto simp: tick_done_def)
next
  case (Cons f fs)
  note inv = Cons.prems(1) and inv' = node_invD[OF Cons.prems(1)]
  let ?b = "into_block f"
  have run: "accepted E hist ?b" "block_allowed E U ?b" "extends ?b hist" "valid_run E U (f # hist) fs"
    using Cons.prems(3) by simp_all
  have height: "fmt_height f = ca_height (ns_block_cache s) + 1"
    using run(3) inv'(5) Cons.prems(4) by (simp add: extends_def node_height_def)
  have next_block: "get_next_commit_block (ns_block_cache s) = Some ?b"
    using Cons.prems(5) height by (simp add: get_next_commit_block_def)
  have "set (block_leaves ?b) \<subseteq> un_notes U" "block_height ?b \<notin> set (bad_blocks E)"
    using run(2) unfolding block_allowed_def by blast+
  then have valid: "validate_block E ?b (ns_block_store s) (note_tree s) = Some (Inr ())"
    using validate_accepted[OF E(1) inv'(1)] run(1) by blast
  obtain s1 where s1: "commit_proposal E (M ?b) ?b (s\<lparr>ns_block_cache := cache_confirm (fmt_height f) (ns_block_cache s)\<rparr>)
      = Some (s1, Inr ())"
    "node_inv E contents U ver (committed (M ?b) ?b # hist) s1"
    "ns_block_cache s1 = cache_confirm (fmt_height f) (ns_block_cache s)"
    using confirm_commit[OF E(1) inv next_block valid, of "M ?b"] by blast
  obtain k where fuel: "fuel = Suc k" using Cons.prems(2) by (cases fuel) simp_all
  have less: "pending (ns_block_cache s1) < k"
    using pending_confirm[OF inv'(2) next_block] Cons.prems(2) unfolding s1(3) fuel by simp
  have run': "valid_run E U (committed (M ?b) ?b # hist) fs"
    using run(4) valid_run_same[of "f # hist" "committed (M ?b) ?b # hist" E U fs] by simp
  have found: "\<forall>g \<in> set fs. cache_get_by_height (ns_block_cache s1) (fmt_height g) = Some (into_block g)"
  proof
    fix g assume g: "g \<in> set fs"
    have "fmt_height f \<le> fmt_height g" using valid_run_heights[OF run(4) _ g] by simp
    then show "cache_get_by_height (ns_block_cache s1) (fmt_height g) = Some (into_block g)"
      using Cons.prems(5) g by (simp add: s1(3) lookup_confirm[OF inv'(2)])
  qed
  have read: "\<forall>b \<in> cached (ns_block_cache s1). proofs_readable E b"
    using Cons.prems(6) cached_confirm[of "fmt_height f" "ns_block_cache s"] unfolding s1(3) by blast
  obtain s2 more where s2: "tick_loop k E M s1 = Finished (s2, True)"
    "node_inv E contents U ver (commits M (map into_block fs @ more) @ committed (M ?b) ?b # hist) s2"
    "get_next_commit_block (ns_block_cache s2) = None"
    using Cons.IH[OF s1(2) less run' _ found read] by blast
  then show ?case
    using next_block valid s1(1) by (intro exI[of _ s2] exI[of _ more]) (simp add: fuel)
qed

section \<open>Receiving a chunk\<close>

text \<open>While there is room, an insertion sets the block of its height.\<close>

lemma insert_room:
  assumes c: "cache_ok H c" and H: "hash_new H b c" and room: "length (ca_blocks c) < ca_max_cache_size c"
    and h: "ca_height c \<le> block_height b"
  shows "cache_get_by_height (cache_insert H b c) = (cache_get_by_height c)(block_height b \<mapsto> b)"
    "length (ca_blocks (cache_insert H b c)) \<le> Suc (length (ca_blocks c))"
    "ca_max_cache_size (cache_insert H b c) = ca_max_cache_size c" "ca_height (cache_insert H b c) = ca_height c"
proof -
  have ins: "cache_insert H b c = cache_put H b (cache_see (block_height b) c)"
    using room h by (simp add: cache_insert_eq cache_full_def cache_make_room_def cache_see_def not_le)
  show "cache_get_by_height (cache_insert H b c) = (cache_get_by_height c)(block_height b \<mapsto> b)"
    unfolding ins using lookup_put[OF cache_see_ok[OF c], of b] H by (simp add: lookup_see) (simp add: hash_new_def cached_def cache_see_def)
  show "length (ca_blocks (cache_insert H b c)) \<le> Suc (length (ca_blocks c))"
    "ca_max_cache_size (cache_insert H b c) = ca_max_cache_size c" "ca_height (cache_insert H b c) = ca_height c"
    unfolding ins by (simp_all add: cache_put_def cache_see_def length_update)
qed

lemma receive_chunk_ok:
  assumes clash: "\<not> heights_clash (env_block_hash E) (un_blocks U)" and mode: "node_mode E \<noteq> ValidatorMode"
    and "node_inv E contents U ver hist s"
    and "\<forall>b \<in> set bs. block_allowed E U b \<and> node_height s \<le> block_height b" "distinct (map block_height bs)"
    and "length (ca_blocks (ns_block_cache s)) + length bs \<le> ca_max_cache_size (ns_block_cache s)"
  shows "\<exists>s'. receive_chunk E bs s = (s', AfterChunk) \<and> node_inv E contents U ver hist s'
    \<and> node_height s' = node_height s \<and> cached (ns_block_cache s') \<subseteq> cached (ns_block_cache s) \<union> set bs
    \<and> (\<forall>b \<in> set bs. cache_get_by_height (ns_block_cache s') (block_height b) = Some b)
    \<and> (\<forall>h. h \<notin> block_height ` set bs \<longrightarrow> cache_get_by_height (ns_block_cache s') h = cache_get_by_height (ns_block_cache s) h)"
  using assms(3-6)
proof (induction bs arbitrary: s)
  case (Cons b bs)
  note inv = Cons.prems(1) and inv' = node_invD[OF Cons.prems(1)]
  obtain s1 where s1: "receive_proposal E b s = Some s1"
    "ns_block_cache s1 = cache_insert (env_block_hash E) b (ns_block_cache s)"
    using mode by (simp add: receive_proposal_def Let_def)
  let ?s1 = "emit [WakeTicker] s1"
  have "node_inv E contents U ver hist s1"
    by (rule receive_proposal_keeps[OF clash inv _ s1(1)]) (use Cons.prems(2) in simp)
  then have inv1: "node_inv E contents U ver hist ?s1" by (rule node_inv_same) simp_all
  have new: "hash_new (env_block_hash E) b (ns_block_cache s)"
    using hash_newI[OF clash node_inv_cached[OF inv]] Cons.prems(2) by (simp add: block_allowed_def)
  have ins: "cache_get_by_height (ns_block_cache ?s1) = (cache_get_by_height (ns_block_cache s))(block_height b \<mapsto> b)"
    "length (ca_blocks (ns_block_cache ?s1)) \<le> Suc (length (ca_blocks (ns_block_cache s)))"
    "ca_max_cache_size (ns_block_cache ?s1) = ca_max_cache_size (ns_block_cache s)" "node_height ?s1 = node_height s"
    using insert_room[OF inv'(2) new] Cons.prems(2,4) by (simp_all add: s1(2) node_height_def)
  obtain s' where s': "receive_chunk E bs ?s1 = (s', AfterChunk)" "node_inv E contents U ver hist s'"
    "node_height s' = node_height ?s1" "cached (ns_block_cache s') \<subseteq> cached (ns_block_cache ?s1) \<union> set bs"
    "\<forall>b \<in> set bs. cache_get_by_height (ns_block_cache s') (block_height b) = Some b"
    "\<forall>h. h \<notin> block_height ` set bs \<longrightarrow> cache_get_by_height (ns_block_cache s') h = cache_get_by_height (ns_block_cache ?s1) h"
    using Cons.IH[OF inv1] Cons.prems(2-4) ins(2-4) by auto
  have "cache_get_by_height (ns_block_cache s') (block_height b) = Some b"
    using s'(6) ins(1) Cons.prems(3) by simp
  moreover have "cache_get_by_height (ns_block_cache s') h = cache_get_by_height (ns_block_cache s) h"
    if "h \<notin> block_height ` set (b # bs)" for h
    using s'(6) ins(1) that by simp
  moreover have "cached (ns_block_cache s') \<subseteq> cached (ns_block_cache s) \<union> set (b # bs)"
    using s'(4) cached_insert[of "env_block_hash E" b "ns_block_cache s"] s1(2) by auto
  ultimately show ?case using s' s1(1) ins(4) by (intro exI[of _ s']) simp
qed simp

lemma valid_run_sorted: "valid_run E U hist fs \<Longrightarrow> sorted_wrt (<) (map fmt_height fs)"
proof (induction fs arbitrary: hist)
  case (Cons f fs)
  then have "valid_run E U (f # hist) fs" by simp
  then show ?case using Cons.IH valid_run_heights[of E U "f # hist" fs] by simp
qed simp

lemma valid_run_blocks: "valid_run E U hist fs \<Longrightarrow> f \<in> set fs \<Longrightarrow> block_allowed E U (into_block f) \<and> proofs_readable E (into_block f)"
proof (induction fs arbitrary: hist)
  case (Cons g fs)
  have "proofs_readable E (into_block g)"
    using Cons.prems(1) by (auto simp: accepted_def proofs_readable_def proof_readable_def)
  then show ?case using Cons by auto
qed simp

text \<open>
  C12: a slow snapshot brings a node up to date. The node is not a validator and has a chain of at least
  one block. The blocks that another node has committed on top of the same chain, received in a chunk in any order, are
  committed by the next tick in their order: the chain of the node is then that of the other node, and
  maybe more blocks the cache held already. The cache must have room for all the blocks of the chunk, and
  the proofs of the blocks it holds before must be readable; the databases do not fail, and the notes of both nodes have
  different slots. Otherwise two of the blocks in the cache and the chunk have different heights and the
  same hash.
\<close>

theorem slow_sync_catches_up:
  assumes "env_ok E contents U" "has_leaders E" "node_mode E \<noteq> ValidatorMode"
    and "node_inv E contents U ver hist s" "hist \<noteq> []"
    and "chain_inv E contents' U ver' (rev fs @ hist') db p" "same_blocks hist' hist"
    and "mset (ss_chunk sc) = mset (map into_block fs)"
    and "length (ca_blocks (ns_block_cache s)) + length fs \<le> ca_max_cache_size (ns_block_cache s)"
    and "\<forall>b \<in> cached (ns_block_cache s). proofs_readable E b"
  shows "heights_clash (env_block_hash E) (cached (ns_block_cache s) \<union> set (ss_chunk sc))
    \<or> (\<exists>s1 s2 more. handle_chunk_slow E sc s = (s1, AfterChunk)
        \<and> tick_loop (tick_fuel s1) E M s1 = Finished (s2, True)
        \<and> node_inv E contents (U\<lparr>un_blocks := cached (ns_block_cache s) \<union> set (ss_chunk sc)\<rparr>) ver
            (commits M (map into_block fs @ more) @ hist) s2)"
proof (rule or_unless)
  let ?bs = "map into_block fs"
  let ?U = "U\<lparr>un_blocks := cached (ns_block_cache s) \<union> set (ss_chunk sc)\<rparr>"
  assume "\<not> heights_clash (env_block_hash E) (cached (ns_block_cache s) \<union> set (ss_chunk sc))"
  then have clash: "\<not> heights_clash (env_block_hash E) (un_blocks ?U)" by simp
  note peer = chain_invD[OF assms(6)] and inv = node_invD[OF assms(4)]
  have E: "env_ok E contents ?U" using assms(1) by (simp add: env_ok_def)
  have s: "node_inv E contents ?U ver hist s" by (rule node_inv_blocks[OF assms(4)]) simp
  have set: "set (ss_chunk sc) = set ?bs" using assms(8) by (rule mset_eq_setD)
  have "valid_run E ?U hist' fs"
    by (rule chain_valid_run[OF peer(6,9)]) (use peer(5,8) set in auto)
  then have run: "valid_run E ?U hist fs" using valid_run_same[OF assms(7)] by blast
  have less: "sorted_wrt (<) (map block_height ?bs)" using valid_run_sorted[OF run] by (simp add: comp_def)
  have d: "distinct (map block_height ?bs)" and srt: "sorted (map block_height ?bs)"
    using less strict_sorted_iff by blast+
  have "inj_on block_height (set (ss_chunk sc))" unfolding set using d unfolding distinct_map[of block_height] by blast
  then have chunk: "sort_key block_height (ss_chunk sc) = ?bs" by (rule sort_key_inj_key_eq[OF assms(8) _ srt])
  have allowed: "\<forall>b \<in> set ?bs. block_allowed E ?U b \<and> node_height s \<le> block_height b"
    using valid_run_blocks[OF run] valid_run_heights[OF run assms(5)] inv(5)[OF assms(5)] by (auto intro: less_imp_le)
  obtain s1 where s1: "handle_chunk_slow E sc s = (s1, AfterChunk)" "node_inv E contents ?U ver hist s1"
    "\<forall>b \<in> set ?bs. cache_get_by_height (ns_block_cache s1) (block_height b) = Some b"
    "cached (ns_block_cache s1) \<subseteq> cached (ns_block_cache s) \<union> set ?bs"
    using receive_chunk_ok[OF clash assms(3) s allowed d] assms(9) unfolding handle_chunk_slow_def chunk by auto
  have read: "\<forall>b \<in> cached (ns_block_cache s1). proofs_readable E b"
    using s1(4) assms(10) valid_run_blocks[OF run] by auto
  have "pending (ns_block_cache s1) < tick_fuel s1" using pending_le[of "ns_block_cache s1"] by (simp add: tick_fuel_def)
  from tick_commits_run[OF E assms(2) s1(2) this run assms(5) _ read, of M] s1(1,3)
  show "\<exists>s1 s2 more. handle_chunk_slow E sc s = (s1, AfterChunk)
      \<and> tick_loop (tick_fuel s1) E M s1 = Finished (s2, True)
      \<and> node_inv E contents ?U ver (commits M (map into_block fs @ more) @ hist) s2" by auto
qed

theorem slow_sync_catches_up_witness:
  "\<exists>s s1 s2 new. ca_height (ns_block_cache s) = 1
    \<and> handle_chunk_slow sample_env \<lparr>ss_snapshot_id = 9, ss_chunk = [second_block]\<rparr> s = (s1, AfterChunk)
    \<and> tick_loop (tick_fuel s1) sample_env (\<lambda>_. sample_moment) s1 = Finished (s2, True)
    \<and> node_inv sample_env store_contents sample_notes (Some (be_bytes 4 LATEST_VERSION))
        (new @ [committed sample_moment second_block, committed sample_moment (minting_block 1)]) s2"
proof -
  obtain s where s: "node_inv sample_env store_contents sample_notes (Some (be_bytes 4 LATEST_VERSION))
      [committed sample_moment (minting_block 1)] s"
    and cache: "ns_block_cache s = \<lparr>ca_height = 1, ca_max_height = 1, ca_blocks = [(1, minting_block 1)],
                  ca_hash_heights = [(1, 1)], ca_max_cache_size = 10000\<rparr>"
    using sample_at_1 by blast
  obtain p where p: "node_inv sample_env store_contents sample_notes (Some (be_bytes 4 LATEST_VERSION))
      [committed sample_moment (minting_block 1)] p" "get_next_commit_block (ns_block_cache p) = Some second_block"
    using sample_committed by blast
  obtain p' where p': "node_inv sample_env store_contents sample_notes (Some (be_bytes 4 LATEST_VERSION))
      [committed sample_moment second_block, committed sample_moment (minting_block 1)] p'"
    using confirm_commit[OF sample_env_ok p second_block_valid[OF node_invD(1)[OF p(1)]], of sample_moment] by blast
  have peer: "chain_inv sample_env store_contents sample_notes (Some (be_bytes 4 LATEST_VERSION))
      (rev [committed sample_moment second_block] @ [committed sample_moment (minting_block 1)])
      (ns_block_store p') (ns_notes_tree p')"
    using node_invD(1)[OF p'] by simp
  have mode: "node_mode sample_env \<noteq> ValidatorMode" by simp
  have read: "\<forall>b \<in> cached (ns_block_cache s). proofs_readable sample_env b"
    by (simp add: cache cached_def proofs_readable_def proof_readable_def)
  obtain s1 s2 more where r: "handle_chunk_slow sample_env \<lparr>ss_snapshot_id = 9, ss_chunk = [second_block]\<rparr> s = (s1, AfterChunk)"
    "tick_loop (tick_fuel s1) sample_env (\<lambda>_. sample_moment) s1 = Finished (s2, True)"
    "node_inv sample_env store_contents
       (sample_notes\<lparr>un_blocks := cached (ns_block_cache s) \<union> set [second_block]\<rparr>) (Some (be_bytes 4 LATEST_VERSION))
       (commits (\<lambda>_. sample_moment) (map into_block [committed sample_moment second_block] @ more)
         @ [committed sample_moment (minting_block 1)]) s2"
    using slow_sync_catches_up[OF sample_env_ok sample_leaders mode s _ peer refl,
        of "\<lparr>ss_snapshot_id = 9, ss_chunk = [second_block]\<rparr>" "\<lambda>_. sample_moment"] cache read sample_env_hash by auto
  have "seen_le (sample_notes\<lparr>un_blocks := B\<rparr>) sample_notes" for B by (simp add: seen_le_def sample_notes_def)
  from node_inv_mono[OF r(3) this] r(1,2) show ?thesis using cache by (intro exI[of _ s] exI[of _ s1] exI[of _ s2]) auto
qed

section \<open>Fast snapshots\<close>

lemma contains_element_iff: "contains_element t e \<longleftrightarrow> e \<in> set (map fst (t_entries t))"
proof -
  have "map_of (t_entries t) e = None \<longleftrightarrow> e \<notin> set (map fst (t_entries t))" by (simp add: map_of_eq_None_iff)
  then show ?thesis by (simp add: contains_element_def del: not_None_eq)
qed

lemma cache_confirm_height: "ca_height (cache_confirm h c) = h"
proof -
  have "ca_height (fold drop_height hs d) = ca_height d" for hs d
    by (induction hs arbitrary: d) (simp_all add: drop_height_def split: option.split)
  then show ?thesis by (simp add: cache_confirm_def)
qed

lemma fast_batch_eq:
  "fast_batch be els b left =
     map_option (map_sum id (\<lambda>b'. (b', filter (\<lambda>e. \<not> (e \<in> set els \<and> e \<in> set be)) left)))
       (insert_entries (Suc 160) b (map (\<lambda>e. (e, 0)) (filter (\<lambda>e. e \<notin> set be) els)))"
proof (induction be els b left rule: fast_batch.induct)
  case (2 be e els b left)
  show ?case
  proof (cases "e \<in> set be")
    case True
    have f: "filter (\<lambda>x. \<not> (x \<in> set els \<and> x \<in> set be)) (removeAll e left)
        = filter (\<lambda>x. \<not> (x \<in> set (e # els) \<and> x \<in> set be)) left"
      using True by (induction left) auto
    show ?thesis using "2.IH"(1)[OF True] True unfolding f by simp
  next
    case False
    have f: "filter (\<lambda>x. \<not> (x \<in> set els \<and> x \<in> set be)) left
        = filter (\<lambda>x. \<not> (x \<in> set (e # els) \<and> x \<in> set be)) left"
      using False by (intro filter_cong) auto
    show ?thesis
    proof (cases "batch_insert (Suc 160) b e 0")
      case (Some r)
      then show ?thesis using "2.IH"(2)[OF False] False f by (cases r) simp_all
    qed (use False in simp)
  qed
qed simp

text \<open>
  C19: what a node checks of a fast snapshot. It takes one exactly when its new elements contain all notes
  of its block and give, with the elements of the tree, the root hash the block names. The tree then has
  these elements, without the notes of the block, and the next block the node waits for is that block;
  otherwise nothing changes. Nothing more is checked: neither the signature of the block nor that a fast
  snapshot was asked for.
\<close>

theorem fast_snapshot_check:
  assumes E: "env_ok E contents U" and mode: "node_mode E \<noteq> ValidatorMode"
    and inv: "persist_inv (poseidon E) (smirk_format E) contents 160 (ns_notes_tree s)"
    and sc: "sf_block sc = Some b"
    and els: "els = filter (\<lambda>e. \<not> contains_element (note_tree s) e) (remdups (sf_elements sc))"
    and apart: "slots_apart (map fst (t_entries (note_tree s)) @ els)" "ZERO \<notin> set els"
  shows "if bs_root_hash (bc_state (b_content b)) = notes_root E (map fst (t_entries (note_tree s)) @ els)
            \<and> set (block_leaves b) \<subseteq> set els
         then \<exists>s'. handle_chunk_fast E sc s = Some (s', WaitOutOfSync)
           \<and> persist_inv (poseidon E) (smirk_format E) contents 160 (ns_notes_tree s')
           \<and> (\<forall>e. contains_element (note_tree s') e
                \<longleftrightarrow> contains_element (note_tree s) e \<or> e \<in> set els - set (block_leaves b))
           \<and> node_height s' = block_height b - 1 \<and> ns_block_store s' = ns_block_store s
         else handle_chunk_fast E sc s = Some (s, WaitOutOfSync)"
proof -
  note env = env_okD[OF E]
  let ?keys = "map fst (t_entries (note_tree s))"
  have tree: "note_tree_inv E (note_tree s)" using inv by (simp add: persist_inv_def)
  have new: "distinct els" "NULL_HASH \<notin> set els" "\<forall>l \<in> set els. \<not> contains_element (note_tree s) l"
    using apart(2) by (simp_all add: els NULL_HASH_def)
  note free = new_leaves_ok[OF apart(1) new]
  have n: "(160::nat) \<le> 256" by simp
  obtain c where root: "root_hash_with (poseidon E) (simple_hash (poseidon E)) (Suc 160) (note_tree s) els
      = Some (notes_root E (?keys @ els), (note_tree s)\<lparr>t_cache := c\<rparr>)"
    using simple.hash_with_spec[OF tree n free] by blast
  define rest where "rest = filter (\<lambda>e. e \<notin> set (block_leaves b)) els"
  define es where "es = map (\<lambda>e. (e, 0 :: u64)) rest"
  have fst_es: "map fst es = rest" by (simp add: es_def comp_def)
  have rest: "free_in 160 (note_tree s) rest" "keyed 160 rest"
    using free by (auto simp: rest_def free_in_def distinct_map_filter)
  have be: "remdups (filter (\<lambda>l. \<not> is_zero l) (state_leaves (bc_state (b_content b)))) = remdups (block_leaves b)"
    by (simp add: is_zero_def)
  have "keyed (Suc 160 - 1) (map fst es)" using rest(2) by (simp add: fst_es)
  then obtain batch where batch: "insert_entries (Suc 160) batch_new es = Some (Inr batch)" "batch_ok (Suc 160) batch"
      "b_entries batch = es"
    using insert_entries_ok[OF batch_new_ok, of "Suc 160" es] by (auto simp: batch_new_def batch_elements_def)
  have fast: "fast_batch (remdups (block_leaves b)) els batch_new (remdups (block_leaves b))
      = Some (Inr (batch, filter (\<lambda>e. e \<notin> set els) (remdups (block_leaves b))))"
  proof -
    have "filter (\<lambda>e. \<not> (e \<in> set els \<and> e \<in> set (remdups (block_leaves b)))) (remdups (block_leaves b))
        = filter (\<lambda>e. e \<notin> set els) (remdups (block_leaves b))" by (intro filter_cong) auto
    then show ?thesis unfolding fast_batch_eq using batch(1) by (simp add: es_def rest_def)
  qed
  have "free_in 160 (note_tree s) (batch_elements batch)" using rest(1) by (simp add: batch_elements_def batch(3) fst_es)
  from persistent_insert_inv[OF env(1,3) n inv batch(2) this] obtain p where
    p: "persistent_insert_batch (kv E) (smirk_format E) (poseidon E) (Suc 160) (ns_notes_tree s) batch = Some (p, Inr ())"
    "persist_inv (poseidon E) (smirk_format E) contents 160 p"
    "t_entries (ps_tree p) = add_entries (t_entries (note_tree s)) es" unfolding batch(3) by blast
  have "set (map fst (t_entries (ps_tree p))) = set (?keys @ rest)"
    using keys_after(1)[OF tree, of es] rest unfolding p(3) fst_es by blast
  then have keys: "contains_element (ps_tree p) e \<longleftrightarrow> contains_element (note_tree s) e \<or> e \<in> set els - set (block_leaves b)" for e
    by (auto simp: contains_element_iff rest_def)
  let ?c = "cache_confirm (block_height b - 1) (ns_block_cache s)"
  obtain s' where s': "receive_proposal E b (s\<lparr>ns_notes_tree := p, ns_block_cache := ?c\<rparr>) = Some s'"
    "ns_notes_tree s' = p" "ns_block_store s' = ns_block_store s" "ns_block_cache s' = cache_insert (env_block_hash E) b ?c"
    using mode by (auto simp: receive_proposal_def Let_def)
  have "node_height s' = ca_height ?c"
    by (simp add: node_height_def s'(4) cache_insert_eq cache_put_def cache_make_room_def cache_see_def cache_remove_def
        split: option.split)
  then have h: "node_height s' = block_height b - 1" by (simp add: cache_confirm_height)
  have val: "handle_chunk_fast E sc s =
      (if notes_root E (?keys @ els) \<noteq> bs_root_hash (bc_state (b_content b)) then Some (s, WaitOutOfSync)
       else if filter (\<lambda>e. e \<notin> set els) (remdups (block_leaves b)) \<noteq> [] then Some (s, WaitOutOfSync)
       else Some (emit [WakeTicker] s', WaitOutOfSync))"
    unfolding handle_chunk_fast_def sc option.case Let_def be els[symmetric] depth_simps root
    unfolding fast p(1) option.case prod.case sum.case s'(1) ..
  have sub: "filter (\<lambda>e. e \<notin> set els) (remdups (block_leaves b)) = [] \<longleftrightarrow> set (block_leaves b) \<subseteq> set els"
    unfolding filter_empty_conv by auto
  have s2: "ns_notes_tree (emit [WakeTicker] s') = p" "ns_block_store (emit [WakeTicker] s') = ns_block_store s"
    "node_height (emit [WakeTicker] s') = block_height b - 1"
    using s'(2,3) h by (simp_all add: node_height_def)
  show ?thesis
  proof (cases "bs_root_hash (bc_state (b_content b)) = notes_root E (?keys @ els) \<and> set (block_leaves b) \<subseteq> set els")
    case True
    then have "handle_chunk_fast E sc s = Some (emit [WakeTicker] s', WaitOutOfSync)"
      unfolding val sub by (simp only: simp_thms if_False)
    then show ?thesis unfolding if_P[OF True] using p(2) keys s2 by (intro exI[of _ "emit [WakeTicker] s'"]) blast
  next
    case False
    then have "handle_chunk_fast E sc s = Some (s, WaitOutOfSync)" unfolding val sub if_not_P[OF False] by metis
    then show ?thesis unfolding if_not_P[OF False] .
  qed
qed

text \<open>A node without blocks takes the notes 5 and 6 from a block that nobody signed.\<close>

definition forged_chunk :: snapshot_chunk_fast where
  "forged_chunk = \<lparr>sf_snapshot_id = 9, sf_block = Some (second_block\<lparr>b_signature := []\<rparr>), sf_elements = [5, 6, 7, 8]\<rparr>"

theorem fast_snapshot_check_witness:
  "\<exists>s'. handle_chunk_fast sample_env forged_chunk sample_state = Some (s', WaitOutOfSync)
    \<and> contains_element (note_tree s') 5 \<and> \<not> contains_element (note_tree s') 7 \<and> node_height s' = 1"
proof -
  let ?b = "second_block\<lparr>b_signature := []\<rparr>"
  have mode: "node_mode sample_env \<noteq> ValidatorMode" by simp
  have inv: "persist_inv (poseidon sample_env) (smirk_format sample_env) store_contents 160 (ns_notes_tree sample_state)"
    by (simp add: sample_state_def)
  have sc: "sf_block forged_chunk = Some ?b" by (simp add: forged_chunk_def)
  have none: "t_entries (note_tree sample_state) = []" by (simp add: sample_state_def)
  have els: "[5, 6, 7, 8] = filter (\<lambda>e. \<not> contains_element (note_tree sample_state) e) (remdups (sf_elements forged_chunk))"
    by (simp add: forged_chunk_def contains_element_iff none)
  have apart: "slots_apart (map fst (t_entries (note_tree sample_state)) @ [5, 6, 7, 8])"
    using sample_keyed unfolding none slots_apart_def distinct_map by simp
  have zero: "ZERO \<notin> set [5, 6, 7, 8]" by (simp add: ZERO_def)
  have "block_leaves ?b = [7, 8]" using second_block_simps(2) by simp
  then have ok: "bs_root_hash (bc_state (b_content ?b)) = notes_root sample_env (map fst (t_entries (note_tree sample_state)) @ [5, 6, 7, 8])
      \<and> set (block_leaves ?b) \<subseteq> set [5, 6, 7, 8]" by (simp add: none)
  show ?thesis
    using fast_snapshot_check[OF sample_env_ok mode inv sc els apart zero] \<open>block_leaves ?b = [7, 8]\<close>
    unfolding if_P[OF ok] by (auto simp: contains_element_iff none)
qed

end
