(* ===== verification/Node_Run.thy ===== *)
theory Node_Run
  imports Node_Sync
begin

text \<open>
  The runs of a node: network events of every kind, transactions that are submitted, approvals that are
  sent, listeners, ticks, and all inputs of the sync worker, in any order. A run collects the notes and
  blocks that reach the node or that it broadcasts. Two things a run does not have: a fast snapshot that
  changes the node, because it puts notes of no block into the tree, and a panic, which ends the task it
  happens in. A tick as leader is at a height that neither overflows nor is one of the configured bad ones.
\<close>

section \<open>What a step shows the node\<close>

definition seen_union :: "seen \<Rightarrow> seen \<Rightarrow> seen" where
  "seen_union U W = \<lparr>un_notes = un_notes U \<union> un_notes W, un_blocks = un_blocks U \<union> un_blocks W\<rparr>"

definition seen_none :: seen where
  "seen_none = \<lparr>un_notes = {}, un_blocks = {}\<rparr>"

definition seen_txn :: "utxo_proof \<Rightarrow> seen" where
  "seen_txn t = \<lparr>un_notes = set (nz (leaves t)), un_blocks = {}\<rparr>"

definition seen_of_blocks :: "block set \<Rightarrow> seen" where
  "seen_of_blocks B = \<lparr>un_notes = (\<Union>b \<in> B. set (block_leaves b)), un_blocks = B\<rparr>"

fun seen_event :: "network_event \<Rightarrow> seen" where
  "seen_event (EvBlock b) = seen_of_blocks {b}"
| "seen_event (EvTransaction t) = seen_txn t"
| "seen_event _ = seen_none"

fun seen_input :: "'e sync_input \<Rightarrow> seen" where
  "seen_input (Received (SnapshotChunk peer (ChunkSlow sc)) snap h) = seen_of_blocks (set (ss_chunk sc))"
| "seen_input _ = seen_none"

fun is_fast_chunk :: "'e sync_input \<Rightarrow> bool" where
  "is_fast_chunk (Received (SnapshotChunk peer (ChunkFast sc)) snap h) \<longleftrightarrow> True"
| "is_fast_chunk _ \<longleftrightarrow> False"

lemma seen_le_simps [simp]:
  "seen_le seen_none W" "seen_le (seen_union U V) W \<longleftrightarrow> seen_le U W \<and> seen_le V W" "seen_le W W"
  by (auto simp: seen_le_def seen_none_def seen_union_def)

section \<open>Runs\<close>

inductive node_run ::
  "('db, 'e) node_env \<Rightarrow> sync_config \<Rightarrow> ('db, 'e) node_state \<times> 'e sync_state \<Rightarrow> seen
     \<Rightarrow> ('db, 'e) node_state \<times> 'e sync_state \<Rightarrow> bool"
  for E cfg x where
  start: "node_run E cfg x seen_none x"
| event: "node_run E cfg x R (s, w) \<Longrightarrow> handle_event E C m peer ev s = Some s'
    \<Longrightarrow> node_run E cfg x (seen_union R (seen_event ev)) (s', w)"
| submitted: "node_run E cfg x R (s, w)
    \<Longrightarrow> node_run E cfg x (seen_union R (seen_txn t)) (submit_accepted E t sender s, w)"
| accept: "node_run E cfg x R (s, w) \<Longrightarrow> send_accept E content s = Some s' \<Longrightarrow> node_run E cfg x R (s', w)"
| listen: "node_run E cfg x R (s, w) \<Longrightarrow> node_run E cfg x R (commit_listen listener s, w)"
| ticked: "node_run E cfg x R (s, w) \<Longrightarrow> next_height_ok E s
    \<Longrightarrow> tick (tick_fuel s) E V m M s = Finished (s', delay)
    \<Longrightarrow> node_run E cfg x (seen_union R (seen_of_blocks (sent_blocks s'))) (s', w)"
| sync: "node_run E cfg x R (s, w) \<Longrightarrow> sync_step E cfg i (s, w) = Some (s', w')
    \<Longrightarrow> (is_fast_chunk i \<Longrightarrow> s' = s) \<Longrightarrow> node_run E cfg x (seen_union R (seen_input i)) (s', w')"

section \<open>Each step keeps the invariant\<close>

lemma seen_block_allowed:
  assumes "seen_le (seen_of_blocks B) U" "b \<in> B" "block_height b \<notin> set (bad_blocks E)"
  shows "block_allowed E U b"
  using assms unfolding seen_le_def seen_of_blocks_def block_allowed_def by auto

lemma emit_keeps: "node_inv E contents U ver hist s \<Longrightarrow> node_inv E contents U ver hist (emit os s)"
  by (erule node_inv_same) simp_all

lemma handle_event_keeps:
  assumes clash: "\<not> heights_clash (env_block_hash E) (un_blocks U)" and inv: "node_inv E contents U ver hist s"
    and seen: "seen_le (seen_event ev) U" "\<forall>b \<in> un_blocks U. block_height b \<notin> set (bad_blocks E)"
    and step: "handle_event E C m peer ev s = Some s'"
  shows "node_inv E contents U ver hist s'"
proof (cases ev)
  case (EvApproval a)
  then show ?thesis using step receive_accept_keeps[OF inv] by (auto simp: handle_event_def)
next
  case (EvBlock b)
  then have "seen_le (seen_of_blocks {b}) U" "b \<in> un_blocks U" using seen(1) by (simp_all add: seen_le_def seen_of_blocks_def)
  then have "block_allowed E U b" using seen_block_allowed[of "{b}" U b E] seen(2) by blast
  moreover obtain s1 where "receive_proposal E b s = Some s1" "s' = emit [WakeTicker] s1"
    using EvBlock step by (auto simp: handle_event_def)
  ultimately show ?thesis using emit_keeps[OF receive_proposal_keeps[OF clash inv]] by simp
next
  case (EvTransaction t)
  then have "txn_allowed U t" using seen(1) by (simp add: seen_le_def seen_txn_def txn_allowed_def)
  then show ?thesis using EvTransaction step receive_transaction_keeps[OF inv] by (auto simp: handle_event_def)
next
  case (EvSnapshotRequest r)
  then show ?thesis using step inv emit_keeps[OF inv]
    by (auto simp: handle_event_def handle_snapshot_request_def Option.bind_eq_Some_conv)
next
  case (EvSnapshotOffer snap)
  then show ?thesis using step emit_keeps[OF inv] by (auto simp: handle_event_def receive_snapshot_offer_def)
next
  case (EvSnapshotAccept a)
  then show ?thesis using step inv emit_keeps[OF inv]
    by (auto simp: handle_event_def handle_snapshot_accept_def send_snapshot_chunk_slow_def send_snapshot_chunk_fast_def
        Let_def split: snapshot_kind.splits option.splits sum.splits)
next
  case (EvSnapshotChunk sc)
  then show ?thesis using step emit_keeps[OF inv] by (auto simp: handle_event_def receive_snapshot_chunk_def)
qed

lemma receive_chunk_keeps:
  assumes "\<not> heights_clash (env_block_hash E) (un_blocks U)" "node_inv E contents U ver hist s"
    and "\<forall>b \<in> set bs. block_allowed E U b"
  shows "node_inv E contents U ver hist (fst (receive_chunk E bs s))"
  using assms(2,3)
proof (induction bs arbitrary: s)
  case (Cons b bs)
  show ?case
  proof (cases "receive_proposal E b s")
    case (Some s1)
    have "node_inv E contents U ver hist s1"
      by (rule receive_proposal_keeps[OF assms(1) Cons.prems(1) _ Some]) (use Cons.prems(2) in simp)
    from Cons.IH[OF emit_keeps[OF this]] show ?thesis using Some Cons.prems(2) by simp
  qed (use Cons.prems in simp)
qed simp

lemma request_snapshot_keeps:
  assumes "node_inv E contents U ver hist s" "request_snapshot E cfg snap h seen s = Some (s', w)"
  shows "node_inv E contents U ver hist s'"
  using assms emit_keeps[OF assms(1)]
  by (auto simp: request_snapshot_def Let_def split: option.splits bool.splits sum.splits if_splits prod.splits)

lemma after_chunk_keeps:
  assumes "node_inv E contents U ver hist s" "after_chunk s = Some (s', w)"
  shows "node_inv E contents U ver hist s'"
  using assms emit_keeps[OF assms(1)] by (auto simp: after_chunk_def split: option.splits bool.splits)

lemma sync_step_keeps:
  assumes clash: "\<not> heights_clash (env_block_hash E) (un_blocks U)" and inv: "node_inv E contents U ver hist s"
    and seen: "seen_le (seen_input i) U" "\<forall>b \<in> un_blocks U. block_height b \<notin> set (bad_blocks E)"
    and step: "sync_step E cfg i (s, w) = Some (s', w')" and fast: "is_fast_chunk i \<Longrightarrow> s' = s"
  shows "node_inv E contents U ver hist s'"
  using step seen(1) fast
proof (cases rule: sync_step.cases[of "(E, cfg, i, s, w)"])
  case (3 E' cfg' sc_peer sc snap h s1 peer wanted)
  show ?thesis
  proof (cases sc)
    case (ChunkSlow k)
    then have le: "seen_le (seen_of_blocks (set (ss_chunk k))) U" using seen(1) 3 by simp
    then have "set (ss_chunk k) \<subseteq> un_blocks U" by (simp add: seen_le_def seen_of_blocks_def)
    then have "\<forall>b \<in> set (ss_chunk k). block_allowed E U b"
      using seen_block_allowed[OF le] seen(2) by blast
    then have "node_inv E contents U ver hist (fst (handle_chunk_slow E k s))"
      unfolding handle_chunk_slow_def by (intro receive_chunk_keeps[OF clash inv]) simp
    then show ?thesis using step 3 ChunkSlow inv by (auto split: if_splits)
  next
    case (ChunkFast k)
    then have "s' = s" using fast 3 by simp
    then show ?thesis using inv by simp
  qed
qed (use inv request_snapshot_keeps[OF inv] after_chunk_keeps[OF inv] emit_keeps[OF inv] in
    \<open>auto simp: accept_offer_def split: if_splits\<close>)

lemma node_run_keeps:
  assumes "node_run E cfg x R y" "env_ok E contents U" "has_leaders E"
    and "\<not> heights_clash (env_block_hash E) (un_blocks U)" "seen_le R U"
    and "\<forall>b \<in> un_blocks U. block_height b \<notin> set (bad_blocks E)"
    and "node_inv E contents U ver hist (fst x)"
  shows "\<exists>new. node_inv E contents U ver (new @ hist) (fst y)"
  using assms(1,5)
proof (induction)
  case start
  show ?case using assms(7) by (metis append_Nil)
next
  case (event R s w C m peer ev s')
  then obtain new where "node_inv E contents U ver (new @ hist) s" by auto
  from handle_event_keeps[OF assms(4) this _ assms(6) event.hyps(2)] event.prems show ?case by auto
next
  case (submitted R s w t sender)
  then obtain new where "node_inv E contents U ver (new @ hist) s" by auto
  from submit_accepted_keeps[OF this] submitted.prems show ?case
    by (auto simp: seen_le_def seen_txn_def txn_allowed_def seen_union_def)
next
  case (accept R s w content s')
  then obtain new where "node_inv E contents U ver (new @ hist) s" by auto
  from send_accept_keeps[OF this accept.hyps(2)] show ?case by auto
next
  case (listen R s w listener)
  then obtain new where "node_inv E contents U ver (new @ hist) s" by auto
  then have "node_inv E contents U ver (new @ hist) (commit_listen listener s)"
    by (rule node_inv_same) (simp_all add: commit_listen_def)
  then show ?case by auto
next
  case (ticked R s w V m M s' delay)
  then obtain new where "node_inv E contents U ver (new @ hist) s" by auto
  moreover have "sent_blocks s' \<subseteq> un_blocks U" using ticked.prems by (simp add: seen_le_def seen_of_blocks_def seen_union_def)
  ultimately obtain more where "node_inv E contents U ver (more @ new @ hist) s'"
    using tick_keeps[OF assms(2,3) _ ticked.hyps(2) assms(4) _ ticked.hyps(3)] by blast
  then show ?case by (metis append_assoc fst_conv)
next
  case (sync R s w i s' w')
  then obtain new where "node_inv E contents U ver (new @ hist) s" by auto
  from sync_step_keeps[OF assms(4) this _ assms(6) sync.hyps(2,3)] sync.prems show ?case by auto
qed

section \<open>No double spend\<close>

text \<open>
  C1: no double spend. In every run of a node that takes no fast snapshot, whatever blocks, transactions,
  approvals, requests and slow snapshots reach the node, and however its ticks interleave with them, its
  block store holds one chain that only grows, each block one higher than the one before and valid after
  it; no note occurs twice in the chain, and the tree of the node has exactly the notes of the chain and
  the root hash of its last block. Otherwise two notes the node saw share a slot, or two blocks it saw
  have different heights and the same hash. No block it saw is at a height that is configured as bad,
  where validation is skipped, and the databases do not fail.
\<close>

theorem no_double_spend:
  assumes "env_base E contents" "has_leaders E" "node_inv E contents U ver hist s"
    and run: "node_run E cfg (s, w) R (s', w')"
    and "\<forall>b \<in> un_blocks U \<union> un_blocks R. block_height b \<notin> set (bad_blocks E)"
  shows "slots_clash (un_notes U \<union> un_notes R) \<or> heights_clash (env_block_hash E) (un_blocks U \<union> un_blocks R)
    \<or> (\<exists>new. store_rep (format_impl E) ver (new @ hist) (contents (ns_block_store s'))
        \<and> chained (new @ hist) \<and> valid_chain E (new @ hist) \<and> distinct (chain_notes (new @ hist))
        \<and> set (map fst (t_entries (note_tree s'))) = set (chain_notes (new @ hist))
        \<and> (new @ hist \<noteq> [] \<longrightarrow> root_hash (poseidon E) (note_tree s') = Some (root_of (hd (new @ hist)))))"
proof (intro or_unless)
  let ?U = "seen_union U R"
  assume "\<not> slots_clash (un_notes U \<union> un_notes R)"
    and "\<not> heights_clash (env_block_hash E) (un_blocks U \<union> un_blocks R)"
  then have E: "env_ok E contents ?U" "\<not> heights_clash (env_block_hash E) (un_blocks ?U)"
    using assms(1) by (simp_all add: env_ok_def seen_union_def)
  have "seen_le U ?U" "seen_le R ?U" by (auto simp: seen_le_def seen_union_def)
  moreover have "\<forall>b \<in> un_blocks ?U. block_height b \<notin> set (bad_blocks E)" using assms(5) by (simp add: seen_union_def)
  ultimately have "\<exists>new. node_inv E contents ?U ver (new @ hist) (fst (s', w'))"
    using node_inv_mono[OF assms(3)] by (intro node_run_keeps[OF run E(1) assms(2) E(2)]) simp_all
  then obtain new where new: "node_inv E contents ?U ver (new @ hist) s'" by auto
  show "\<exists>new. store_rep (format_impl E) ver (new @ hist) (contents (ns_block_store s'))
      \<and> chained (new @ hist) \<and> valid_chain E (new @ hist) \<and> distinct (chain_notes (new @ hist))
      \<and> set (map fst (t_entries (note_tree s'))) = set (chain_notes (new @ hist))
      \<and> (new @ hist \<noteq> [] \<longrightarrow> root_hash (poseidon E) (note_tree s') = Some (root_of (hd (new @ hist))))"
    using chain_invD[OF node_invD(1)[OF new]] by (intro exI[of _ new]) simp
qed

section \<open>Concrete input\<close>

text \<open>The empty node receives a block from the network, that mints 5 and 6, and commits it.\<close>

definition sample_start :: seen where
  "sample_start = \<lparr>un_notes = {}, un_blocks = {genesis}\<rparr>"

lemma sample_node_inv_start:
  "node_inv sample_env store_contents sample_start (Some (be_bytes 4 (1 :: u32))) [] sample_state"
proof -
  have b: "ca_blocks (ns_block_cache sample_state) = [(env_block_hash sample_env genesis, genesis)]"
    by (simp add: sample_state_def cache_new_def cache_insert_def Let_def)
  have c: "cache_ok (env_block_hash sample_env) (ns_block_cache sample_state)"
    by (simp add: sample_state_def cache_new_ok)
  show ?thesis
    unfolding node_inv_def
    using c by (simp add: b) (simp add: chain_inv_def sample_state_def mempool_default_def block_allowed_def
        sample_start_def genesis_def content_genesis_def state_leaves_def)
qed

theorem no_double_spend_witness:
  "\<exists>s' R new. node_run sample_env \<lparr>chunk_size = 10, fast_sync_threshold = 100\<rparr> (sample_state, WaitOutOfSync) R (s', WaitOutOfSync)
     \<and> node_height s' = 1 \<and> R = \<lparr>un_notes = {5, 6}, un_blocks = {minting_block 1}\<rparr>
     \<and> store_rep (format_impl sample_env) (Some (be_bytes 4 (1 :: u32))) new (store_contents (ns_block_store s'))
     \<and> distinct (chain_notes new)"
proof -
  let ?cfg = "\<lparr>chunk_size = 10, fast_sync_threshold = 100\<rparr>"
  let ?s1 = "emit [WakeTicker] sample_state_1"
  let ?R = "\<lparr>un_notes = {5, 6}, un_blocks = {minting_block 1}\<rparr>"
  have ev: "handle_event sample_env sample_view sample_moment [] (EvBlock (minting_block 1)) sample_state = Some ?s1"
    by (simp add: handle_event_def sample_state_1)
  have fuel: "tick_fuel ?s1 = tick_fuel sample_state_1" by (simp add: tick_fuel_def)
  obtain s' where s': "tick (tick_fuel ?s1) sample_env (\<lambda>_. sample_view) sample_moment (\<lambda>_. sample_moment) ?s1 = Finished (s', None)"
    "node_height s' = 1" "sent_blocks s' = {}"
    using sample_tick[of "\<lambda>_. sample_view" sample_moment "\<lambda>_. sample_moment"] fuel by auto
  have next_ok: "next_height_ok sample_env ?s1" by (simp add: next_height_ok_def node_height_def sample_cache_1)
  have "node_run sample_env ?cfg (sample_state, WaitOutOfSync)
      (seen_union (seen_union seen_none (seen_event (EvBlock (minting_block 1)))) (seen_of_blocks (sent_blocks s')))
      (s', WaitOutOfSync)"
    by (rule node_run.ticked[OF node_run.event[OF node_run.start ev] next_ok s'(1)])
  moreover have "seen_union (seen_union seen_none (seen_event (EvBlock (minting_block 1)))) (seen_of_blocks (sent_blocks s')) = ?R"
    by (simp add: s'(3) seen_union_def seen_none_def seen_of_blocks_def)
  ultimately have run: "node_run sample_env ?cfg (sample_state, WaitOutOfSync) ?R (s', WaitOutOfSync)" by simp
  have base: "env_base sample_env store_contents" using sample_env_ok by (simp add: env_ok_def)
  have slots: "\<not> slots_clash (un_notes sample_start \<union> un_notes ?R)"
    using sample_slots_apart by (simp add: slots_clash_def sample_start_def slots_apart_def)
  have good: "\<forall>b \<in> un_blocks sample_start \<union> un_blocks ?R. block_height b \<notin> set (bad_blocks sample_env)"
    by (simp add: sample_start_def genesis_def content_genesis_def)
  show ?thesis
    using no_double_spend[OF base sample_leaders sample_node_inv_start run good] slots sample_env_hash run s'(2) by auto
qed

end
