(* ===== verification/Circuit_Chips.thy ===== *)
theory Circuit_Chips
  imports Zk_Hash "HOL-Library.Monad_Syntax"
begin

text \<open>
  \<open>pkg/zk-circuits/src/chips\<close>: the gadgets the circuits are composed of. A chip of halo2 has two
  halves: \<open>configure\<close> states the polynomial equations (gates) its rows must satisfy, and
  \<open>assign\<close> computes the cells an honest prover fills in. Here a chip is one function that goes
  through the rows as \<open>assign\<close> does: each advice cell gets the value of the code when the prover
  is \<open>Honest\<close>, and the next value of a list when the prover has \<open>Chosen\<close> its cells; each gate
  is checked on the cells of its row. \<open>None\<close> means that a gate or a copy constraint is violated,
  that the chosen cells ran out, or that an assertion of the code failed. So a statement about
  every prover is the soundness of a circuit, and one about \<open>Honest\<close> its completeness.

  Cells hold elements of the scalar field, a type of class \<open>field\<close>. The Poseidon chip is a
  dependency; its gadget constrains the output cell to be the hash of the message cells.
\<close>

section \<open>Cells, gates and constraints\<close>

datatype 'f prover = Honest | Chosen "'f list"

fun assign_advice :: "'f \<Rightarrow> 'f prover \<Rightarrow> ('f \<times> 'f prover) option" where
  "assign_advice v Honest = Some (v, Honest)"
| "assign_advice v (Chosen (x # xs)) = Some (x, Chosen xs)"
| "assign_advice v (Chosen []) = None"

text \<open>All expressions of the gates of a row must be zero.\<close>

definition gate :: "'f::zero list \<Rightarrow> unit option" where
  "gate es = (if \<forall>e \<in> set es. e = 0 then Some () else None)"

definition constrain_equal :: "'f \<Rightarrow> 'f \<Rightarrow> unit option" where
  "constrain_equal a b = (if a = b then Some () else None)"

definition constrain_instance :: "'f \<Rightarrow> 'f list \<Rightarrow> nat \<Rightarrow> unit option" where
  "constrain_instance cell inst i = (if i < length inst \<and> cell = inst ! i then Some () else None)"

definition assert_that :: "bool \<Rightarrow> unit option" where
  "assert_that b = (if b then Some () else None)"

text \<open>
  \<open>util.rs\<close>: a private input is an advice cell in a region of its own; a constant cell is fixed,
  and \<open>region.constrain_constant\<close> forces a cell to a constant.
\<close>

definition assign_private_input :: "'f \<Rightarrow> 'f prover \<Rightarrow> ('f \<times> 'f prover) option" where
  "assign_private_input v p = assign_advice v p"

definition assign_constant :: "'f \<Rightarrow> 'f prover \<Rightarrow> ('f \<times> 'f prover) option" where
  "assign_constant c p = Some (c, p)"

fun assign_private_inputs :: "'f list \<Rightarrow> 'f prover \<Rightarrow> ('f list \<times> 'f prover) option" where
  "assign_private_inputs [] p = Some ([], p)"
| "assign_private_inputs (v # vs) p = do {
     (c, p) \<leftarrow> assign_private_input v p;
     (cs, p) \<leftarrow> assign_private_inputs vs p;
     Some (c # cs, p) }"

fun constrain_constants :: "'f list \<Rightarrow> 'f \<Rightarrow> unit option" where
  "constrain_constants [] c = Some ()"
| "constrain_constants (x # xs) c = do { constrain_equal x c; constrain_constants xs c }"

section \<open>Comparing with a constant (is_zero.rs, is_constant.rs)\<close>

definition is_zero_expr :: "'f::field \<Rightarrow> 'f \<Rightarrow> 'f" where
  "is_zero_expr v value_inv = 1 - v * value_inv"

definition is_zero_gate :: "'f::field \<Rightarrow> 'f \<Rightarrow> 'f" where
  "is_zero_gate v value_inv = v * is_zero_expr v value_inv"

definition is_zero_assign :: "'f::field \<Rightarrow> 'f prover \<Rightarrow> ('f \<times> 'f prover) option" where
  "is_zero_assign v p = assign_advice (if v = 0 then 0 else inverse v) p"

definition is_constant_assign ::
  "'f::field \<Rightarrow> 'f \<Rightarrow> 'f prover \<Rightarrow> ('f \<times> 'f prover) option" where
  "is_constant_assign c comparison p = do {
     let v = comparison - c;
     (value_inv, p) \<leftarrow> is_zero_assign v p;
     (out, p) \<leftarrow> assign_advice (if v = 0 then 1 else 0) p;
     gate [is_zero_gate v value_inv, out - is_zero_expr v value_inv];
     Some (out, p) }"

section \<open>Conditional swap (swap.rs)\<close>

text \<open>\<open>ternary\<close> and \<open>bool_check\<close> are functions of the halo2 gadgets library.\<close>

definition ternary :: "'f::field \<Rightarrow> 'f \<Rightarrow> 'f \<Rightarrow> 'f" where
  "ternary a b c = a * b + (1 - a) * c"

definition bool_check :: "'f::field \<Rightarrow> 'f" where
  "bool_check v = v * (1 - v)"

definition swap_in_region ::
  "'f::field \<Rightarrow> 'f \<Rightarrow> 'f \<Rightarrow> 'f prover \<Rightarrow> (('f \<times> 'f) \<times> 'f prover) option" where
  "swap_in_region a b sw p = do {
     (a_swapped, p) \<leftarrow> assign_advice (if sw = 1 then b else a) p;
     (b_swapped, p) \<leftarrow> assign_advice (if sw = 1 then a else b) p;
     gate [a_swapped - ternary sw b a, b_swapped - ternary sw a b, bool_check sw];
     Some ((a_swapped, b_swapped), p) }"

definition swap_assigned ::
  "'f::field \<times> 'f \<Rightarrow> 'f \<Rightarrow> 'f prover \<Rightarrow> (('f \<times> 'f) \<times> 'f prover) option" where
  "swap_assigned pair sw p = swap_in_region (fst pair) (snd pair) sw p"

text \<open>\<open>swap\<close> witnesses the second value and the direction itself.\<close>

definition swap_witnessed ::
  "'f::field \<times> 'f \<Rightarrow> 'f \<Rightarrow> 'f prover \<Rightarrow> (('f \<times> 'f) \<times> 'f prover) option" where
  "swap_witnessed pair sw p = do {
     (b, p) \<leftarrow> assign_advice (snd pair) p;
     (sw, p) \<leftarrow> assign_advice sw p;
     swap_in_region (fst pair) b sw p }"

section \<open>Running sums (add.rs)\<close>

fun add_rows :: "'f::field \<Rightarrow> 'f list \<Rightarrow> 'f prover \<Rightarrow> ('f \<times> 'f prover) option" where
  "add_rows culm [] p = Some (culm, p)"
| "add_rows culm (b # bs) p = do {
     (c, p) \<leftarrow> assign_advice (culm + b) p;
     gate [culm + b - c];
     add_rows c bs p }"

fun add_culm_assign :: "'f::field list \<Rightarrow> 'f prover \<Rightarrow> ('f \<times> 'f prover) option" where
  "add_culm_assign [] p = None"
| "add_culm_assign (first # cells) p = add_rows first cells p"

section \<open>Comparing bits (is_less_than.rs)\<close>

fun less_rows :: "'f::field \<Rightarrow> 'f \<Rightarrow> ('f \<times> 'f) list \<Rightarrow> 'f prover \<Rightarrow> ('f \<times> 'f prover) option"
where
  "less_rows is_less can_set [] p = Some (is_less, p)"
| "less_rows is_less can_set ((m, a) # rows) p = do {
     (is_less', p) \<leftarrow> assign_advice (is_less - m * (1 - a) * can_set) p;
     (can_set', p) \<leftarrow> assign_advice ((m * a + (1 - m) * (1 - a)) * can_set) p;
     gate [(is_less - (m * (1 - a)) * can_set) - is_less',
           (m * a + (1 - m) * (1 - a)) * can_set - can_set'];
     less_rows is_less' can_set' rows p }"

definition is_less_than_assign ::
  "'f::field list \<Rightarrow> 'f list \<Rightarrow> 'f prover \<Rightarrow> (unit \<times> 'f prover) option" where
  "is_less_than_assign max_bits alpha_bits p = do {
     assert_that (length max_bits = length alpha_bits);
     (is_less, p) \<leftarrow> assign_constant 1 p;
     (can_set, p) \<leftarrow> assign_constant 1 p;
     (is_less, p) \<leftarrow> less_rows is_less can_set (zip max_bits alpha_bits) p;
     constrain_equal is_less 0;
     Some ((), p) }"

section \<open>Decomposition into windows (binary_decomposition.rs, fr.rs)\<close>

definition range_check :: "'f::field \<Rightarrow> nat \<Rightarrow> 'f" where
  "range_check word range' = foldl (\<lambda>acc i. acc * (of_nat i - word)) word [1..<range']"

definition to_le_bits :: "'f field_ops \<Rightarrow> 'f \<Rightarrow> bool list" where
  "to_le_bits F b =
     concat (map (\<lambda>limb. map (bit (limb :: u64)) [0..<64]) (u8s_to_u64 (to_repr F b)))"

text \<open>The 8-bit accumulator of a window of at most 8 bits does not overflow.\<close>

definition window_value :: "bool list \<Rightarrow> u8" where
  "window_value chunk = foldl (\<lambda>acc b. push_bit 1 acc + of_bool b) 0 (rev chunk)"

definition decompose_word :: "'f field_ops \<Rightarrow> 'f \<Rightarrow> nat \<Rightarrow> nat \<Rightarrow> u8 list" where
  "decompose_word F word word_num_bits window_num_bits =
     (let padding = (window_num_bits - (word_num_bits mod window_num_bits)) mod window_num_bits;
          bits = take word_num_bits (to_le_bits F word) @ replicate padding False
      in map window_value (filter (\<lambda>c. length c = window_num_bits) (chunks window_num_bits bits)))"

fun decompose_rows ::
  "nat \<Rightarrow> 'f::field \<Rightarrow> u8 list \<Rightarrow> 'f prover \<Rightarrow> (('f list \<times> 'f) \<times> 'f prover) option" where
  "decompose_rows K z [] p = Some (([], z), p)"
| "decompose_rows K z (word # words) p = do {
     (z_next, p) \<leftarrow> assign_advice ((z - of_nat (unat word)) * inverse (of_nat (2 ^ K))) p;
     (b, p) \<leftarrow> assign_advice (of_nat (unat word)) p;
     gate [range_check (z - z_next * of_nat (2 ^ K)) (2 ^ K), b - (z - z_next * of_nat (2 ^ K))];
     ((bs, z_last), p) \<leftarrow> decompose_rows K z_next words p;
     Some ((b # bs, z_last), p) }"

definition decompose ::
  "'f::field field_ops \<Rightarrow> nat \<Rightarrow> 'f \<Rightarrow> nat \<Rightarrow> nat \<Rightarrow> 'f prover \<Rightarrow> ('f list \<times> 'f prover) option"
where
  "decompose F K z_0 word_num_bits num_windows p = do {
     assert_that (K * num_windows < word_num_bits + K);
     let words = decompose_word F z_0 word_num_bits K;
     assert_that (length words = num_windows);
     ((zs, z), p) \<leftarrow> decompose_rows K z_0 words p;
     constrain_equal z 0;
     Some (zs, p) }"

definition witness_decompose ::
  "'f::field field_ops \<Rightarrow> nat \<Rightarrow> 'f \<Rightarrow> nat \<Rightarrow> nat \<Rightarrow> 'f prover \<Rightarrow> ('f list \<times> 'f prover) option"
where
  "witness_decompose F K alpha word_num_bits num_windows p = do {
     (z_0, p) \<leftarrow> assign_advice alpha p;
     decompose F K z_0 word_num_bits num_windows p }"

definition copy_decompose ::
  "'f::field field_ops \<Rightarrow> nat \<Rightarrow> 'f \<Rightarrow> nat \<Rightarrow> nat \<Rightarrow> 'f prover \<Rightarrow> ('f list \<times> 'f prover) option"
where
  "copy_decompose F K alpha word_num_bits num_windows p =
     decompose F K alpha word_num_bits num_windows p"

section \<open>Hashes and Merkle roots (poseidon.rs, merkle_path.rs)\<close>

definition poseidon_hash_gadget :: "'f field_ops \<Rightarrow> 'f list \<Rightarrow> 'f" where
  "poseidon_hash_gadget F messages = poseidon F messages"

fun merkle_root ::
  "'f::field field_ops \<Rightarrow> 'f \<Rightarrow> ('f \<times> 'f) list \<Rightarrow> 'f prover \<Rightarrow> ('f \<times> 'f prover) option" where
  "merkle_root F cur [] p = Some (cur, p)"
| "merkle_root F cur ((sibling, sw) # siblings) p = do {
     ((l, r), p) \<leftarrow> swap_assigned (cur, sibling) sw p;
     merkle_root F (poseidon_hash_gadget F [l, r]) siblings p }"

fun merkle_root_value ::
  "'f::field field_ops \<Rightarrow> 'f \<Rightarrow> ('f \<times> 'f) list \<Rightarrow> 'f prover \<Rightarrow> ('f \<times> 'f prover) option" where
  "merkle_root_value F cur [] p = Some (cur, p)"
| "merkle_root_value F cur ((sibling, sw) # siblings) p = do {
     ((l, r), p) \<leftarrow> swap_witnessed (cur, sibling) sw p;
     merkle_root_value F (poseidon_hash_gadget F [l, r]) siblings p }"

text \<open>
  \<open>MerklePath<DEPTH>\<close> is the list of its siblings; \<open>depth\<close> is the constant \<open>DEPTH\<close>. The
  directions are the least significant bits of the leaf, lowest first.
\<close>

type_synonym merkle_path = "element list"

definition least_significant_bits :: "nat \<Rightarrow> element \<Rightarrow> bool list" where
  "least_significant_bits depth e = rev (lsb e (depth - 1))"

fun root_steps :: "'f field_ops \<Rightarrow> 'f \<Rightarrow> (bool \<times> element) list \<Rightarrow> 'f" where
  "root_steps F h [] = h"
| "root_steps F h ((is_right, sibling) # rest) =
     root_steps F (if is_right then poseidon F [to_base F sibling, h]
                   else poseidon F [h, to_base F sibling]) rest"

definition compute_root_from_leaf ::
  "'f field_ops \<Rightarrow> nat \<Rightarrow> merkle_path \<Rightarrow> element \<Rightarrow> element \<Rightarrow> element" where
  "compute_root_from_leaf F depth siblings hash_path leaf =
     from_base F (root_steps F (to_base F leaf)
       (zip (least_significant_bits depth hash_path) siblings))"

definition compute_root :: "'f field_ops \<Rightarrow> nat \<Rightarrow> merkle_path \<Rightarrow> element \<Rightarrow> element" where
  "compute_root F depth siblings h = compute_root_from_leaf F depth siblings h h"

definition compute_null_root :: "'f field_ops \<Rightarrow> nat \<Rightarrow> merkle_path \<Rightarrow> element \<Rightarrow> element" where
  "compute_null_root F depth siblings h = compute_root_from_leaf F depth siblings h ZERO"

definition fr_of_bool :: "bool \<Rightarrow> 'f::field" where
  "fr_of_bool b = (if b then 1 else 0)"

text \<open>The directions are witnesses: only the honest prover takes them from the leaf.\<close>

definition enforce_inclusion ::
  "'f::field field_ops \<Rightarrow> nat \<Rightarrow> merkle_path \<Rightarrow> 'f \<Rightarrow> 'f \<Rightarrow> 'f prover \<Rightarrow> ('f \<times> 'f prover) option"
where
  "enforce_inclusion F depth siblings leaf_value leaf_assigned p =
     merkle_root_value F leaf_assigned
       (zip (map (to_base F) siblings)
            (map fr_of_bool (least_significant_bits depth (from_base F leaf_value)))) p"

end
