(* ===== verification/Circuit_Gadgets.thy ===== *)
theory Circuit_Gadgets
  imports Circuit_Chips
begin

text \<open>
  What the chips of \<^theory_text>\<open>Circuit_Chips\<close> compute: for every prover the output cells are
  determined by the input cells (the rules of the collection \<open>sound\<close>), and the honest prover
  satisfies every gate (the rules of \<open>honest\<close>). The hypothesis \<open>fr_ok\<close> states the documented
  behaviour of the field type.
\<close>

named_theorems sound and honest

lemmas some_bind = Option.bind_eq_Some_conv

lemma gate_iff [simp]: "gate es = Some u \<longleftrightarrow> (\<forall>e \<in> set es. e = 0)"
  by (simp add: gate_def)

lemma gate_ok [simp]: "\<forall>e \<in> set es. e = 0 \<Longrightarrow> gate es = Some ()"
  by (simp add: gate_def)

lemma constrain_iff [simp]:
  "constrain_equal a b = Some u \<longleftrightarrow> a = b"
  "constrain_instance a inst i = Some u \<longleftrightarrow> i < length inst \<and> a = inst ! i"
  "assert_that P = Some u \<longleftrightarrow> P"
  by (simp_all add: constrain_equal_def constrain_instance_def assert_that_def)

lemma constrain_constants_iff [simp]: "constrain_constants xs c = Some u \<longleftrightarrow> (\<forall>x \<in> set xs. x = c)"
  by (induction xs c rule: constrain_constants.induct) (auto simp: some_bind)

lemma constrain_constants_ok: "\<forall>x \<in> set xs. x = c \<Longrightarrow> constrain_constants xs c = Some ()"
  by simp

lemma assign_constant_iff [simp]: "assign_constant c p = Some (x, p') \<longleftrightarrow> x = c \<and> p' = p"
  by (auto simp: assign_constant_def)

lemma assign_private_inputs_length:
  "assign_private_inputs vs p = Some (cs, p') \<Longrightarrow> length cs = length vs"
  by (induction vs arbitrary: p cs p') (auto simp: some_bind split: prod.splits)

lemma assign_private_inputs_honest [honest]: "assign_private_inputs vs Honest = Some (vs, Honest)"
  by (induction vs) (simp_all add: assign_private_input_def)

lemma assign_private_input_honest [honest]: "assign_private_input v Honest = Some (v, Honest)"
  by (simp add: assign_private_input_def)

section \<open>Comparison and swap\<close>

lemma is_zero_gate_sound: "is_zero_gate v w = 0 \<Longrightarrow> is_zero_expr v w = (if v = 0 then 1 else 0)"
  by (auto simp: is_zero_gate_def is_zero_expr_def)

lemma is_constant_sound [sound]:
  "is_constant_assign c x p = Some (out, p') \<Longrightarrow> out = (if x = c then 1 else 0)"
  by (auto simp: is_constant_assign_def some_bind Let_def split: prod.splits dest!: is_zero_gate_sound)

lemma is_constant_honest [honest]:
  "is_constant_assign c x Honest = Some (if x = c then 1 else 0, Honest)"
  by (simp add: is_constant_assign_def is_zero_assign_def is_zero_gate_def is_zero_expr_def)

lemma bool_check_iff: "bool_check v = 0 \<longleftrightarrow> v = 0 \<or> v = 1"
  by (auto simp: bool_check_def)

lemma swap_in_region_sound:
  "swap_in_region a b sw p = Some ((x, y), p') \<Longrightarrow>
     sw \<in> {0, 1} \<and> x = (if sw = 1 then b else a) \<and> y = (if sw = 1 then a else b)"
  by (auto simp: swap_in_region_def some_bind bool_check_iff ternary_def split: prod.splits)

lemma swap_assigned_sound [sound]:
  "swap_assigned pr sw p = Some ((x, y), p') \<Longrightarrow>
     sw \<in> {0, 1} \<and> x = (if sw = 1 then snd pr else fst pr) \<and> y = (if sw = 1 then fst pr else snd pr)"
  unfolding swap_assigned_def by (rule swap_in_region_sound)

lemma swap_assigned_honest [honest]:
  "sw \<in> {0, 1} \<Longrightarrow>
     swap_assigned pr sw Honest = Some (if sw = 1 then (snd pr, fst pr) else pr, Honest)"
  by (auto simp: swap_assigned_def swap_in_region_def ternary_def bool_check_def)

lemma swap_witnessed_sound:
  fixes a :: "'f::field"
  assumes "swap_witnessed (a, s) sw p = Some ((x, y), p')"
  shows "\<exists>b d. x = (if d then b else a) \<and> y = (if d then a else b)"
proof -
  from assms obtain b d p1 p2 where "swap_in_region a b d p2 = Some ((x, y), p')"
    by (auto simp: swap_witnessed_def some_bind split: prod.splits)
  from swap_in_region_sound[OF this] show ?thesis by blast
qed

lemma swap_witnessed_honest [honest]:
  "sw \<in> {0, 1} \<Longrightarrow>
     swap_witnessed pr sw Honest = Some (if sw = 1 then (snd pr, fst pr) else pr, Honest)"
  using swap_assigned_honest[of sw pr] by (simp add: swap_witnessed_def swap_assigned_def)

section \<open>Sums\<close>

lemma add_rows_sound: "add_rows c bs p = Some (out, p') \<Longrightarrow> out = c + sum_list bs"
  by (induction bs arbitrary: c p) (fastforce simp: some_bind add.assoc split: prod.splits)+

lemma add_culm_sound [sound]: "add_culm_assign cells p = Some (out, p') \<Longrightarrow> out = sum_list cells"
  by (cases cells) (auto dest: add_rows_sound)

lemma add_rows_honest: "add_rows c bs Honest = Some (c + sum_list bs, Honest)"
  by (induction bs arbitrary: c) (simp_all add: algebra_simps)

lemma add_culm_honest [honest]: "cells \<noteq> [] \<Longrightarrow> add_culm_assign cells Honest = Some (sum_list cells, Honest)"
  by (cases cells) (simp_all add: add_rows_honest)

section \<open>Bits\<close>

lemma fr_of_bool_simps [simp]:
  "fr_of_bool b = 1 \<longleftrightarrow> b" "fr_of_bool b = 0 \<longleftrightarrow> \<not> b" "fr_of_bool b \<in> {0, 1}"
  by (auto simp: fr_of_bool_def)

lemma fr_of_bool_eq_of_bool: "fr_of_bool b = of_bool b"
  by (simp add: fr_of_bool_def)

abbreviation bits_value :: "bool list \<Rightarrow> nat" where
  "bits_value bs \<equiv> horner_sum of_bool 2 bs"

lemma bits_value_less: "bits_value bs < 2 ^ length bs"
  by (induction bs) auto

lemma bits_value_append: "bits_value (xs @ ys) = bits_value xs + 2 ^ length xs * bits_value ys"
  by (simp add: horner_sum_append)

lemma bits_value_zeros: "bits_value (replicate n False) = 0"
  by (induction n) simp_all

lemma bits_value_map_bit: "bits_value (map (bit (e :: 'a::len word)) [0..<LENGTH('a)]) = unat e"
proof -
  have "bits_value (map (bit e) [0..<LENGTH('a)]) = bits_value (map (bit (unat e)) [0..<LENGTH('a)])"
    by (rule arg_cong[where f = bits_value]) (simp add: bit_unsigned_iff)
  also have "\<dots> = take_bit LENGTH('a) (unat e)" by (rule horner_sum_bit_eq_take_bit)
  also have "\<dots> = unat e" by (simp add: take_bit_nat_eq_self_iff)
  finally show ?thesis .
qed

section \<open>Less than\<close>

lemma rev_bits_value_Cons:
  "bits_value (rev (b # bs)) = bits_value (rev bs) + 2 ^ length bs * of_bool b"
  by (simp add: bits_value_append)

lemma rev_bits_value_less: "bits_value (rev bs) < 2 ^ length bs"
  using bits_value_less[of "rev bs"] by simp

lemma rev_bits_value_less_iff:
  assumes "length ms = length as"
  shows "bits_value (rev (a # as)) < bits_value (rev (m # ms)) \<longleftrightarrow>
    (m \<and> \<not> a) \<or> (m = a \<and> bits_value (rev as) < bits_value (rev ms))"
  using rev_bits_value_less[of as] rev_bits_value_less[of ms] assms
  unfolding rev_bits_value_Cons by (cases m; cases a) auto

lemma less_rows_sound:
  assumes "less_rows l c (zip (map fr_of_bool ms) (map fr_of_bool as)) p = Some (r, p')"
    and "length ms = length as"
  shows "r = l - (if bits_value (rev as) < bits_value (rev ms) then c else 0)"
  using assms
proof (induction ms as arbitrary: l c p rule: list_induct2')
  case (4 m ms a as)
  have len: "length ms = length as" using "4.prems"(2) by simp
  from "4.prems"(1) obtain p2 where
    "less_rows (l - (fr_of_bool m * (1 - fr_of_bool a)) * c)
       ((fr_of_bool m * fr_of_bool a + (1 - fr_of_bool m) * (1 - fr_of_bool a)) * c)
       (zip (map fr_of_bool ms) (map fr_of_bool as)) p2 = Some (r, p')"
    by (auto simp: some_bind split: prod.splits)
  from "4.IH"[OF this len] show ?case
    unfolding rev_bits_value_less_iff[OF len] by (auto simp: fr_of_bool_def)
qed auto

lemma less_rows_honest:
  assumes "length ms = length as"
  shows "less_rows l c (zip (map fr_of_bool ms) (map fr_of_bool as)) Honest
    = Some (l - (if bits_value (rev as) < bits_value (rev ms) then c else 0), Honest)"
  using assms
proof (induction ms as arbitrary: l c rule: list_induct2')
  case (4 m ms a as)
  have len: "length ms = length as" using "4.prems" by simp
  show ?case
    unfolding rev_bits_value_less_iff[OF len]
    by (simp add: "4.IH"[OF len]) (auto simp: fr_of_bool_def)
qed auto

lemma is_less_than_sound:
  assumes "is_less_than_assign (map fr_of_bool ms) (map fr_of_bool as) p = Some (u, p')"
  shows "length ms = length as \<and> bits_value (rev as) < bits_value (rev ms)"
  using assms less_rows_sound[of 1 1 ms as p]
  by (auto simp: is_less_than_assign_def some_bind split: prod.splits if_splits)

lemma is_less_than_honest [honest]:
  assumes "length ms = length as" and "bits_value (rev as) < bits_value (rev ms)"
  shows "is_less_than_assign (map fr_of_bool ms) (map fr_of_bool as) Honest = Some ((), Honest)"
  using assms by (simp add: is_less_than_assign_def some_bind assign_constant_def less_rows_honest
      constrain_equal_def assert_that_def)

section \<open>Decomposition into bits\<close>

text \<open>
  Documented behaviour of the field type: \<open>from_raw\<close> takes the residue of a 256-bit integer,
  \<open>to_repr\<close> writes 32 bytes that \<open>from_raw\<close> reads back, hashes are such residues (all elements of
  the scalar field are), and 2 and 3 are invertible.
\<close>

definition fr_ok :: "'f::field field_ops \<Rightarrow> bool" where
  "fr_ok F \<longleftrightarrow> (\<forall>e. to_base F e = of_nat (unat e)) \<and> (\<forall>e. to_base F (from_base F (to_base F e)) = to_base F e)
     \<and> (\<forall>ms. poseidon F ms \<in> range (to_base F)) \<and> (\<forall>b. length (to_repr F b) = 32) \<and> (2 :: 'f) \<noteq> 0 \<and> (3 :: 'f) \<noteq> 0"

lemma fr_okD:
  assumes "fr_ok F"
  shows "to_base F e = of_nat (unat e)" "to_base F (from_base F (to_base F e)) = to_base F e"
    "to_base F (from_base F (poseidon F ms)) = poseidon F ms" "length (to_repr F b) = 32"
proof -
  show "to_base F e = of_nat (unat e)" "to_base F (from_base F (to_base F e)) = to_base F e"
    "length (to_repr F b) = 32" using assms unfolding fr_ok_def by blast+
  obtain x where "poseidon F ms = to_base F x" using assms unfolding fr_ok_def by blast
  then show "to_base F (from_base F (poseidon F ms)) = poseidon F ms"
    using assms unfolding fr_ok_def by metis
qed

lemma fr_ok_two: "fr_ok (F :: 'f::field field_ops) \<Longrightarrow> (2 :: 'f) \<noteq> 0"
  by (simp add: fr_ok_def)

lemma field_consts_neq:
  fixes F :: "'f::field field_ops"
  assumes "fr_ok F"
  shows "(0 :: 'f) \<noteq> 2" "(0 :: 'f) \<noteq> 3" "(1 :: 'f) \<noteq> 2" "(1 :: 'f) \<noteq> 3" "(2 :: 'f) \<noteq> 3" "(3 :: 'f) \<noteq> 2"
proof -
  have n: "(2 :: 'f) \<noteq> 0" "(3 :: 'f) \<noteq> 0" using assms by (simp_all add: fr_ok_def)
  show "(0 :: 'f) \<noteq> 2" "(0 :: 'f) \<noteq> 3" using n by metis+
  have "(2 :: 'f) = 1 + 1" "(3 :: 'f) = 1 + 2" "(3 :: 'f) = 2 + 1" by simp_all
  then show "(1 :: 'f) \<noteq> 2" "(1 :: 'f) \<noteq> 3" "(2 :: 'f) \<noteq> 3" "(3 :: 'f) \<noteq> 2"
    using n(1) by (metis add_cancel_right_right zero_neq_one)+
qed

lemma fr_ok_simps [simp]: "fr_ok F \<Longrightarrow> to_base F ZERO = 0" "fr_ok F \<Longrightarrow> to_base F ONE = 1"
  by (simp_all add: fr_okD element_consts)

lemma range_check_2: "range_check w 2 = w * (1 - w)" "range_check w (Suc (Suc 0)) = w * (1 - w)"
  by (simp_all add: range_check_def upt_rec)

lemma decompose_rows_sound:
  assumes "decompose_rows 1 z ws p = Some ((zs, z'), p')"
  obtains bs where "zs = map fr_of_bool bs" "length bs = length ws"
    "z = of_nat (bits_value bs) + 2 ^ length bs * z'"
  using assms
proof (induction ws arbitrary: z p zs thesis)
  case Nil
  then show ?case by (intro Nil.prems(1)[of "[]"]) simp_all
next
  case (Cons w ws)
  from Cons.prems(2) obtain zn b zs1 p1 p2 where
    zs: "zs = b # zs1" and b: "range_check (z - zn * 2) 2 = 0" "b = z - zn * 2"
    and rest: "decompose_rows 1 zn ws p2 = Some ((zs1, z'), p')"
    by (auto simp: some_bind split: prod.splits)
  obtain bs where bs: "zs1 = map fr_of_bool bs" "length bs = length ws"
    "zn = of_nat (bits_value bs) + 2 ^ length bs * z'"
    by (rule Cons.IH[OF _ rest])
  from b have "b = fr_of_bool (b = 1)" by (auto simp: range_check_2 fr_of_bool_def)
  moreover have "z = b + 2 * zn" using b by simp
  ultimately have "z = of_nat (bits_value ((b = 1) # bs)) + 2 ^ length ((b = 1) # bs) * z'"
    unfolding bs(3) by (simp add: fr_of_bool_eq_of_bool algebra_simps)
  with \<open>b = fr_of_bool (b = 1)\<close> show ?case
    by (intro Cons.prems(1)[of "(b = 1) # bs"]) (simp_all add: zs bs)
qed

lemma decompose_rows_honest:
  assumes "(2 :: 'f::field) \<noteq> 0"
  shows "decompose_rows 1 (of_nat (bits_value bs) :: 'f) (map of_bool bs) Honest
    = Some ((map fr_of_bool bs, 0), Honest)"
proof (induction bs)
  case (Cons b bs)
  have half: "((of_bool b + 2 * of_nat (bits_value bs)) - of_nat (unat (of_bool b :: u8))) * inverse 2
      = (of_nat (bits_value bs) :: 'f)"
    using assms by (simp add: field_simps)
  show ?case
    using Cons half by (simp add: range_check_2 fr_of_bool_def gate_def algebra_simps)
qed simp

lemma window_value_1: "window_value [b] = of_bool b"
  by (simp add: window_value_def)

lemma chunks_1: "chunks 1 xs = map (\<lambda>x. [x]) xs"
  by (induction xs) (simp_all add: chunks.simps[of "Suc 0"])

lemma decompose_word_1: "decompose_word F w n 1 = map of_bool (take n (to_le_bits F w))"
  by (simp add: decompose_word_def chunks_1 window_value_1 comp_def del: One_nat_def)

lemma concat_map_blocks:
  "concat (map (\<lambda>i. map (\<lambda>n. f (k * i + n)) [0..<k]) [0..<m]) = map f [0..<k * m]"
proof (induction m)
  case (Suc m)
  have "map (\<lambda>n. f (k * m + n)) [0..<k] = map f [k * m..<k * m + k]"
    by (rule nth_equalityI) simp_all
  moreover have "[0..<k * Suc m] = [0..<k * m] @ [k * m..<k * m + k]"
    using upt_add_eq_append[of 0 "k * m" k] by (simp add: add.commute)
  ultimately show ?case using Suc by simp
qed simp

lemma to_le_bits_from_base:
  assumes "length (to_repr F b) = 32"
  shows "to_le_bits F b = map (bit (from_base F b)) [0..<256]"
proof -
  define e where "e = from_base F b"
  have r: "to_repr F b = to_le_bytes e"
    using assms by (simp add: e_def from_base_def to_le_from_le)
  have "u8s_to_u64 (to_repr F b) = map (\<lambda>i. ucast (drop_bit (64 * i) e)) [0..<4]"
    unfolding r by (simp add: u8s_to_u64_def limb_eq)
  moreover have "map (bit (ucast (drop_bit (64 * i) e) :: u64)) [0..<64]
      = map (\<lambda>n. bit e (64 * i + n)) [0..<64]" for i
    by (rule map_cong) (auto simp: bit_simps)
  ultimately have "to_le_bits F b = concat (map (\<lambda>i. map (\<lambda>n. bit e (64 * i + n)) [0..<64]) [0..<4])"
    by (simp only: to_le_bits_def map_map comp_def)
  also have "\<dots> = map (bit e) [0..<256]"
    using concat_map_blocks[of "bit e" 64 4] by simp
  finally show ?thesis by (simp add: e_def)
qed

lemma bits_of_field:
  assumes "fr_ok F"
  shows "bits_value (to_le_bits F b) = unat (from_base F b)"
    "b = to_base F e \<Longrightarrow> of_nat (bits_value (to_le_bits F b)) = b" "length (to_le_bits F b) = 256"
proof -
  have l: "to_le_bits F b = map (bit (from_base F b)) [0..<256]"
    by (rule to_le_bits_from_base) (rule fr_okD(4)[OF assms])
  show v: "bits_value (to_le_bits F b) = unat (from_base F b)"
    unfolding l using bits_value_map_bit[of "from_base F b"] by simp
  show "of_nat (bits_value (to_le_bits F b)) = b" if "b = to_base F e"
    unfolding v using that by (metis fr_okD(1,2)[OF assms])
  show "length (to_le_bits F b) = 256" by (simp add: l)
qed

lemma copy_decompose_sound:
  assumes "copy_decompose F 1 z n k p = Some (zs, p')"
  obtains bs where "zs = map fr_of_bool bs" "length bs = k" "z = of_nat (bits_value bs)"
  using assms
proof -
  from assms obtain p1 where rows: "decompose_rows 1 z (decompose_word F z n 1) p1 = Some ((zs, 0), p')"
    and k: "length (decompose_word F z n 1) = k"
    by (auto simp: copy_decompose_def decompose_def some_bind Let_def simp del: One_nat_def
        split: prod.splits)
  show thesis
    by (rule decompose_rows_sound[OF rows]) (use k that in auto)
qed

lemma copy_decompose_honest [honest]:
  assumes "fr_ok F" and "z = to_base F e"
  shows "copy_decompose F 1 z 256 256 Honest = Some (map fr_of_bool (to_le_bits F z), Honest)"
proof -
  have "decompose_rows 1 z (decompose_word F z 256 1) Honest
      = Some ((map fr_of_bool (to_le_bits F z), 0), Honest)"
    using decompose_rows_honest[OF fr_ok_two[OF assms(1)], of "to_le_bits F z"] bits_of_field(2)[OF assms] bits_of_field(3)[OF assms(1), of z]
    by (simp add: decompose_word_1 del: One_nat_def)
  then show ?thesis
    using bits_of_field(3)[OF assms(1), of z]
    by (simp add: copy_decompose_def decompose_def decompose_word_1 assert_that_def constrain_equal_def
        del: One_nat_def)
qed

section \<open>Merkle roots\<close>

text \<open>The root of a leaf and its siblings in the field, deepest first: the specification of the
  two gadgets and of the native computation.\<close>

fun field_root :: "'f field_ops \<Rightarrow> 'f \<Rightarrow> (bool \<times> 'f) list \<Rightarrow> 'f" where
  "field_root F h [] = h"
| "field_root F h ((d, s) # rest) = field_root F (poseidon F (if d then [s, h] else [h, s])) rest"

lemma root_steps_eq: "root_steps F h path = field_root F h (map (map_prod id (to_base F)) path)"
  by (induction F h path rule: root_steps.induct) auto

lemma merkle_root_sound:
  assumes "merkle_root F cur (zip ss (map fr_of_bool ds)) p = Some (r, p')"
  shows "r = field_root F cur (zip ds ss)"
  using assms
proof (induction ss ds arbitrary: cur p rule: list_induct2')
  case (4 s ss d ds)
  from "4.prems" obtain l x p1 where "swap_assigned (cur, s) (fr_of_bool d) p = Some ((l, x), p1)"
    and rest: "merkle_root F (poseidon F [l, x]) (zip ss (map fr_of_bool ds)) p1 = Some (r, p')"
    by (auto simp: some_bind poseidon_hash_gadget_def split: prod.splits)
  from swap_assigned_sound[OF this(1)] "4.IH"[OF rest] show ?case by auto
qed auto

lemma merkle_root_honest:
  "merkle_root F cur (zip ss (map fr_of_bool ds)) Honest = Some (field_root F cur (zip ds ss), Honest)"
proof (induction ss ds arbitrary: cur rule: list_induct2')
  case (4 s ss d ds)
  then show ?case by (simp add: honest poseidon_hash_gadget_def)
qed auto

lemma merkle_root_value_sound:
  assumes "merkle_root_value F cur path p = Some (r, p')"
  obtains path' where "length path' = length path" "r = field_root F cur path'"
  using assms
proof (induction path arbitrary: cur p thesis)
  case Nil
  then show ?case by (intro Nil.prems(1)[of "[]"]) simp_all
next
  case (Cons e path)
  obtain s d where e: "e = (s, d)" by (cases e)
  from Cons.prems(2) obtain l x p1 where sw: "swap_witnessed (cur, s) d p = Some ((l, x), p1)"
    and rest: "merkle_root_value F (poseidon F [l, x]) path p1 = Some (r, p')"
    by (auto simp: e some_bind poseidon_hash_gadget_def split: prod.splits)
  from swap_witnessed_sound[OF sw] obtain s' d' where
    d': "l = (if d' then s' else cur)" "x = (if d' then cur else s')" by blast
  obtain path' where "length path' = length path" "r = field_root F (poseidon F [l, x]) path'"
    by (rule Cons.IH[OF _ rest])
  then show ?case
    using d' by (intro Cons.prems(1)[of "(d', s') # path'"]) auto
qed

lemma merkle_root_value_honest:
  "merkle_root_value F cur (zip ss (map fr_of_bool ds)) Honest
   = Some (field_root F cur (zip ds ss), Honest)"
proof (induction ss ds arbitrary: cur rule: list_induct2')
  case (4 s ss d ds)
  then show ?case by (simp add: honest poseidon_hash_gadget_def)
qed auto

lemma length_lsbs [simp]: "depth \<le> 257 \<Longrightarrow> length (least_significant_bits depth e) = depth - 1"
  by (simp add: least_significant_bits_def)

lemma enforce_inclusion_sound:
  assumes "enforce_inclusion F depth siblings v leaf p = Some (r, p')"
    and "depth \<le> 257" and "length siblings = depth - 1"
  obtains path where "length path = depth - 1" "r = field_root F leaf path"
  using merkle_root_value_sound[OF assms(1)[unfolded enforce_inclusion_def]] assms(2,3) by auto

lemma enforce_inclusion_honest:
  "enforce_inclusion F depth siblings v leaf Honest
   = Some (field_root F leaf (zip (least_significant_bits depth (from_base F v)) (map (to_base F) siblings)),
           Honest)"
  by (simp add: enforce_inclusion_def merkle_root_value_honest)

lemma compute_root_from_leaf_eq:
  assumes "fr_ok F"
  shows "to_base F (compute_root_from_leaf F depth siblings e leaf)
    = field_root F (to_base F leaf) (zip (least_significant_bits depth e) (map (to_base F) siblings))"
proof -
  have "\<exists>x. field_root F (to_base F e) path = to_base F x" for e path
  proof (induction path arbitrary: e)
    case (Cons p path)
    obtain d s where p: "p = (d, s)" by (cases p)
    show ?case
      using Cons.IH fr_okD(3)[OF assms] unfolding p field_root.simps by metis
  qed auto
  then have "to_base F (from_base F (field_root F (to_base F leaf) path)) = field_root F (to_base F leaf) path" for path
    using fr_okD(2)[OF assms] by metis
  then show ?thesis
    by (simp add: compute_root_from_leaf_def root_steps_eq zip_map2 map_prod_def id_def)
qed

end
