(* ===== verification/Circuit_Utxo.thy ===== *)
theory Circuit_Utxo
  imports Circuit_Gadgets Smirk_Cache
begin

text \<open>
  The transaction circuit of \<open>pkg/zk-circuits/src/utxo\<close>: notes (\<open>note.rs\<close>), the notes a
  transaction spends (\<open>input_note.rs\<close>) and the transaction itself (\<open>utxo.rs\<close>, \<open>circuit.rs\<close>). Each
  \<open>enforce_constraints\<close> is one function in the style of \<^theory_text>\<open>Circuit_Chips\<close>; beside it stand the
  native computations on \<open>Element\<close>s that give the public inputs.
\<close>

section \<open>Notes (note.rs)\<close>

record utxo_note =
  nt_address :: element
  nt_psi :: element
  nt_value :: element
  nt_token :: string
  nt_source :: element

definition note_restore :: "element \<Rightarrow> element \<Rightarrow> element \<Rightarrow> element \<Rightarrow> utxo_note" where
  "note_restore address psi v source =
     \<lparr>nt_address = address, nt_psi = psi, nt_value = v, nt_token = ''USDC'', nt_source = source\<rparr>"

text \<open>The random field element of a new note is an argument; \<open>NOTE_RCM_EXT\<close> is 0.\<close>

definition note_new_with_source ::
  "'f::field field_ops \<Rightarrow> 'f \<Rightarrow> element \<Rightarrow> element \<Rightarrow> element \<Rightarrow> utxo_note" where
  "note_new_with_source F rseed address v source =
     note_restore address (from_base F (poseidon F [rseed, 0])) v source"

definition note_new :: "'f::field field_ops \<Rightarrow> 'f \<Rightarrow> element \<Rightarrow> element \<Rightarrow> utxo_note" where
  "note_new F rseed address v = note_new_with_source F rseed address v address"

definition padding_note :: "'f::field field_ops \<Rightarrow> utxo_note" where
  "padding_note F =
     (let zero_hash = from_base F (poseidon F [0, 0])
      in \<lparr>nt_address = zero_hash, nt_psi = ZERO, nt_value = ZERO, nt_token = ''USDC'',
          nt_source = zero_hash\<rparr>)"

definition note_commitment :: "'f field_ops \<Rightarrow> utxo_note \<Rightarrow> element" where
  "note_commitment F n =
     (if nt_value n = ZERO then ZERO
      else hash_merge F [nt_value n, nt_address n, nt_psi n, nt_source n, ONE, ONE])"

definition note_is_padding :: "'f::field field_ops \<Rightarrow> utxo_note \<Rightarrow> bool" where
  "note_is_padding F n \<longleftrightarrow>
     note_commitment F n = note_commitment F (padding_note F) \<or> note_commitment F n = ZERO"

definition note_nullifier :: "'f::field field_ops \<Rightarrow> utxo_note \<Rightarrow> element \<Rightarrow> element" where
  "note_nullifier F n secret_key =
     (if note_is_padding F n then note_commitment F (padding_note F)
      else hash_merge F [note_commitment F n, secret_key, nt_psi n, ZERO])"

record 'f note_cells =
  nc_value :: 'f
  nc_address :: 'f
  nc_cm :: 'f
  nc_is_padding :: 'f
  nc_source :: 'f
  nc_psi :: 'f

text \<open>\<open>c\<close> is the constant of the \<open>IsConstantChip\<close> the circuit passes.\<close>

definition note_enforce ::
  "'f::field field_ops \<Rightarrow> 'f \<Rightarrow> utxo_note \<Rightarrow> 'f prover \<Rightarrow> ('f note_cells \<times> 'f prover) option" where
  "note_enforce F c n p = do {
     (zero, p) \<leftarrow> assign_constant 0 p;
     (v, p) \<leftarrow> assign_private_input (to_base F (nt_value n)) p;
     (address, p) \<leftarrow> assign_private_input (to_base F (nt_address n)) p;
     (psi, p) \<leftarrow> assign_private_input (to_base F (nt_psi n)) p;
     (source, p) \<leftarrow> assign_private_input (to_base F (nt_source n)) p;
     (version, p) \<leftarrow> assign_private_input 1 p;
     let cm = poseidon_hash_gadget F [v, address, psi, source, version, version];
     (is_value_zero, p) \<leftarrow> is_constant_assign c v p;
     ((cm, _), p) \<leftarrow> swap_assigned (cm, zero) is_value_zero p;
     Some (\<lparr>nc_value = v, nc_address = address, nc_cm = cm, nc_is_padding = is_value_zero,
            nc_source = source, nc_psi = psi\<rparr>, p) }"

section \<open>Input notes (input_note.rs)\<close>

record input_note =
  in_note :: utxo_note
  in_secret_key :: element
  in_merkle_path :: merkle_path

text \<open>The default path holds the empty-tree hashes (\<open>data.rs\<close>), which exist from depth 1 on.\<close>

definition default_path :: "'f field_ops \<Rightarrow> nat \<Rightarrow> merkle_path" where
  "default_path F depth = map (\<lambda>d. the (empty_tree_hash (hash_pair F) d)) [1..<depth]"

definition input_padding_note :: "'f::field field_ops \<Rightarrow> nat \<Rightarrow> input_note" where
  "input_padding_note F depth =
     \<lparr>in_note = padding_note F, in_secret_key = ZERO, in_merkle_path = default_path F depth\<rparr>"

definition output_note ::
  "'f::field field_ops \<Rightarrow> 'f \<Rightarrow> input_note \<Rightarrow> element \<Rightarrow> element \<Rightarrow> utxo_note" where
  "output_note F rseed i address v = note_new_with_source F rseed address v (nt_address (in_note i))"

definition input_is_padding :: "'f::field field_ops \<Rightarrow> input_note \<Rightarrow> bool" where
  "input_is_padding F i \<longleftrightarrow> note_commitment F (in_note i) = note_commitment F (padding_note F)"

definition input_nullifier :: "'f::field field_ops \<Rightarrow> input_note \<Rightarrow> element" where
  "input_nullifier F i = note_nullifier F (in_note i) (in_secret_key i)"

definition input_recent_root :: "'f field_ops \<Rightarrow> nat \<Rightarrow> input_note \<Rightarrow> element" where
  "input_recent_root F depth i =
     compute_root F depth (in_merkle_path i) (note_commitment F (in_note i))"

record 'f input_note_cells =
  ic_commitment :: "'f note_cells"
  ic_nullifier :: 'f
  ic_root :: 'f
  ic_secret_key :: 'f
  ic_zero :: 'f

definition input_note_enforce ::
  "'f::field field_ops \<Rightarrow> nat \<Rightarrow> 'f \<Rightarrow> input_note \<Rightarrow> 'f prover \<Rightarrow>
     ('f input_note_cells \<times> 'f prover) option" where
  "input_note_enforce F depth c i p = do {
     (cells, p) \<leftarrow> note_enforce F c (in_note i) p;
     (root, p) \<leftarrow> enforce_inclusion F depth (in_merkle_path i)
                    (to_base F (note_commitment F (in_note i))) (nc_cm cells) p;
     (secret_key, p) \<leftarrow> assign_private_input (to_base F (in_secret_key i)) p;
     (padding, p) \<leftarrow> assign_constant 0 p;
     let verified_address = poseidon_hash_gadget F [secret_key, padding];
     constrain_equal verified_address (nc_address cells);
     let nullifier = poseidon_hash_gadget F [nc_cm cells, secret_key, nc_psi cells, padding];
     Some (\<lparr>ic_commitment = cells, ic_nullifier = nullifier, ic_root = root,
            ic_secret_key = secret_key, ic_zero = padding\<rparr>, p) }"

section \<open>Transactions (utxo.rs, circuit.rs)\<close>

datatype utxo_kind = UtxoNull | UtxoTransfer | UtxoMint | UtxoBurn

definition utxo_kind_default :: utxo_kind where
  "utxo_kind_default = UtxoTransfer"

fun kind_as_element :: "utxo_kind \<Rightarrow> 'f::field" where
  "kind_as_element UtxoNull = 0"
| "kind_as_element UtxoTransfer = 1"
| "kind_as_element UtxoMint = 2"
| "kind_as_element UtxoBurn = 3"

record utxo =
  ux_inputs :: "input_note list"
  ux_outputs :: "utxo_note list"
  ux_root :: element
  ux_kind :: utxo_kind

definition utxo_new :: "input_note list \<Rightarrow> utxo_note list \<Rightarrow> element \<Rightarrow> utxo_kind \<Rightarrow> utxo" where
  "utxo_new inputs outputs root k =
     \<lparr>ux_inputs = inputs, ux_outputs = outputs, ux_root = root, ux_kind = k\<rparr>"

definition utxo_new_transfer :: "input_note list \<Rightarrow> utxo_note list \<Rightarrow> element \<Rightarrow> utxo" where
  "utxo_new_transfer inputs outputs root = utxo_new inputs outputs root UtxoTransfer"

definition utxo_new_mint ::
  "'f::field field_ops \<Rightarrow> nat \<Rightarrow> utxo_note \<Rightarrow> utxo" where
  "utxo_new_mint F depth n =
     utxo_new (replicate 2 (input_padding_note F depth)) [n, padding_note F] ZERO UtxoMint"

definition utxo_new_burn ::
  "'f::field field_ops \<Rightarrow> nat \<Rightarrow> input_note \<Rightarrow> element \<Rightarrow> utxo" where
  "utxo_new_burn F depth i root =
     utxo_new [i, input_padding_note F depth] (replicate 2 (padding_note F)) root UtxoBurn"

definition utxo_new_padding :: "'f::field field_ops \<Rightarrow> nat \<Rightarrow> utxo" where
  "utxo_new_padding F depth =
     utxo_new (replicate 2 (input_padding_note F depth)) (replicate 2 (padding_note F)) ZERO
       UtxoTransfer"

text \<open>The loops over the inputs and the outputs; each returns the vectors the code collects.\<close>

fun enforce_inputs ::
  "'f::field field_ops \<Rightarrow> nat \<Rightarrow> 'f \<Rightarrow> 'f \<Rightarrow> 'f \<Rightarrow> input_note list \<Rightarrow> 'f prover \<Rightarrow>
     (('f list \<times> 'f list \<times> 'f list) \<times> 'f prover) option" where
  "enforce_inputs F depth c unverified_root zero [] p = Some (([], [], []), p)"
| "enforce_inputs F depth c unverified_root zero (i # inputs) p = do {
     (cells, p) \<leftarrow> input_note_enforce F depth c i p;
     ((root, _), p) \<leftarrow> swap_assigned (ic_root cells, unverified_root) (nc_is_padding (ic_commitment cells)) p;
     ((nullifier, _), p) \<leftarrow> swap_assigned (ic_nullifier cells, zero) (nc_is_padding (ic_commitment cells)) p;
     ((roots, input_hashes, in_value), p) \<leftarrow> enforce_inputs F depth c unverified_root zero inputs p;
     Some ((root # roots, nullifier # input_hashes, nc_value (ic_commitment cells) # in_value), p) }"

fun enforce_outputs ::
  "'f::field field_ops \<Rightarrow> 'f \<Rightarrow> utxo_note list \<Rightarrow> 'f prover \<Rightarrow> (('f list \<times> 'f list) \<times> 'f prover) option"
where
  "enforce_outputs F c [] p = Some (([], []), p)"
| "enforce_outputs F c (n # outputs) p = do {
     (cells, p) \<leftarrow> note_enforce F c n p;
     (decomposed_bits, p) \<leftarrow> copy_decompose F 1 (nc_value cells) 256 256 p;
     constrain_constants (take (256 - 240) (rev decomposed_bits)) 0;
     ((output_hashes, out_value), p) \<leftarrow> enforce_outputs F c outputs p;
     Some ((nc_cm cells # output_hashes, nc_value cells # out_value), p) }"

fun constrain_instances :: "'f list \<Rightarrow> 'f list \<Rightarrow> nat \<Rightarrow> unit option" where
  "constrain_instances [] inst k = Some ()"
| "constrain_instances (h # hashes) inst k = do {
     constrain_instance h inst k;
     constrain_instances hashes inst (Suc k) }"

fun constrain_roots :: "'f list \<Rightarrow> 'f list \<Rightarrow> unit option" where
  "constrain_roots [] inst = Some ()"
| "constrain_roots (h # roots) inst = do { constrain_instance h inst 0; constrain_roots roots inst }"

definition utxo_enforce ::
  "'f::field field_ops \<Rightarrow> nat \<Rightarrow> 'f \<Rightarrow> 'f \<Rightarrow> 'f \<Rightarrow> utxo \<Rightarrow> 'f list \<Rightarrow> 'f prover \<Rightarrow>
     (unit \<times> 'f prover) option" where
  "utxo_enforce F depth padding_c mint_c burn_c u inst p = do {
     (unverified_root, p) \<leftarrow> assign_private_input (to_base F (ux_root u)) p;
     (zero, p) \<leftarrow> assign_constant 0 p;
     (utxo_kind, p) \<leftarrow> assign_private_input (kind_as_element (ux_kind u)) p;
     (is_mint, p) \<leftarrow> is_constant_assign mint_c utxo_kind p;
     (is_burn, p) \<leftarrow> is_constant_assign burn_c utxo_kind p;
     ((roots, input_hashes, in_value), p) \<leftarrow>
       enforce_inputs F depth padding_c unverified_root zero (ux_inputs u) p;
     ((output_hashes, out_value), p) \<leftarrow> enforce_outputs F padding_c (ux_outputs u) p;
     let hashes = input_hashes @ output_hashes;
     (total_in, p) \<leftarrow> add_culm_assign in_value p;
     (total_out, p) \<leftarrow> add_culm_assign out_value p;
     ((mb_hash, _), p) \<leftarrow> swap_assigned (zero, output_hashes ! 0) is_mint p;
     ((mb_hash, _), p) \<leftarrow> swap_assigned (mb_hash, input_hashes ! 0) is_burn p;
     ((v, _), p) \<leftarrow> swap_assigned (zero, total_out) is_mint p;
     ((v, _), p) \<leftarrow> swap_assigned (v, total_in) is_burn p;
     ((total_out, _), p) \<leftarrow> swap_assigned (total_out, zero) is_mint p;
     ((total_in, _), p) \<leftarrow> swap_assigned (total_in, zero) is_burn p;
     constrain_equal total_in total_out;
     constrain_roots roots inst;
     constrain_instance mb_hash inst 1;
     constrain_instance v inst 2;
     constrain_instances hashes inst 3;
     Some ((), p) }"

text \<open>\<open>configure\<close> and \<open>synthesize\<close> of the circuit: the constants of its three comparison chips.\<close>

definition utxo_synthesize ::
  "'f::field field_ops \<Rightarrow> nat \<Rightarrow> utxo \<Rightarrow> 'f list \<Rightarrow> 'f prover \<Rightarrow> (unit \<times> 'f prover) option" where
  "utxo_synthesize F depth u inst p =
     utxo_enforce F depth (to_base F (note_commitment F (padding_note F)))
       (kind_as_element UtxoMint) (kind_as_element UtxoBurn) u inst p"

definition utxo_leafs :: "'f::field field_ops \<Rightarrow> utxo \<Rightarrow> 'f list" where
  "utxo_leafs F u = map (\<lambda>i. to_base F (input_nullifier F i)) (ux_inputs u)
     @ map (\<lambda>n. to_base F (note_commitment F n)) (ux_outputs u)"

definition utxo_public_inputs :: "'f::field field_ops \<Rightarrow> utxo \<Rightarrow> 'f list" where
  "utxo_public_inputs F u =
     [to_base F (ux_root u),
      (case ux_kind u of
         UtxoMint \<Rightarrow> to_base F (note_commitment F (ux_outputs u ! 0))
       | UtxoBurn \<Rightarrow> to_base F (input_nullifier F (ux_inputs u ! 0))
       | _ \<Rightarrow> 0),
      (case ux_kind u of
         UtxoMint \<Rightarrow> to_base F (nt_value (ux_outputs u ! 0))
       | UtxoBurn \<Rightarrow> to_base F (nt_value (in_note (ux_inputs u ! 0)))
       | _ \<Rightarrow> 0)]
     @ map (\<lambda>i. to_base F (input_nullifier F i)) (ux_inputs u)
     @ map (\<lambda>n. to_base F (note_commitment F n)) (ux_outputs u)"

end
