(* ===== verification/Circuit_Utxo_Props.thy ===== *)
theory Circuit_Utxo_Props
  imports Circuit_Utxo
begin

text \<open>
  Soundness and completeness of the transaction circuit. \<open>spends\<close> and \<open>creates\<close> say what an
  accepted proof shows of one input and one output; \<open>utxo_accepted\<close> puts them together with the
  balance of the transaction.
\<close>

section \<open>What a proof shows\<close>

definition note_hash :: "'f::field field_ops \<Rightarrow> 'f \<Rightarrow> 'f \<Rightarrow> 'f \<Rightarrow> 'f \<Rightarrow> 'f \<Rightarrow> 'f" where
  "note_hash F v address psi source version =
     (if v = 0 then 0 else poseidon F [v, address, psi, source, version, version])"

text \<open>
  Somebody knows a note of value \<open>v\<close> and the secret key of its address; unless the value is
  zero, its commitment lies in the tree with the given root and has the given nullifier.
\<close>

definition spends :: "'f::field field_ops \<Rightarrow> nat \<Rightarrow> 'f \<Rightarrow> 'f \<Rightarrow> 'f \<Rightarrow> bool" where
  "spends F depth root nullifier v \<longleftrightarrow>
     (\<exists>psi source version sk path. length path = depth - 1 \<and>
        (let cm = note_hash F v (poseidon F [sk, 0]) psi source version
         in if v = 0 then nullifier = 0
            else field_root F cm path = root \<and> nullifier = poseidon F [cm, sk, psi, 0]))"

text \<open>The commitment is that of a note with a value below \<open>2 ^ 240\<close>.\<close>

definition creates :: "'f::field field_ops \<Rightarrow> 'f \<Rightarrow> nat \<Rightarrow> bool" where
  "creates F cm n \<longleftrightarrow> n < 2 ^ 240 \<and>
     (\<exists>address psi source version. cm = note_hash F (of_nat n) address psi source version)"

text \<open>The instances are the root, the mint or burn hash and value, the nullifiers and the commitments.\<close>

definition utxo_balanced :: "'f::field list \<Rightarrow> 'f \<Rightarrow> 'f \<Rightarrow> bool" where
  "utxo_balanced inst total_in total_out \<longleftrightarrow>
     (inst ! 1 = 0 \<and> inst ! 2 = 0 \<and> total_in = total_out) \<or>
     (inst ! 1 = inst ! 5 \<and> inst ! 2 = total_out \<and> total_in = 0) \<or>
     (inst ! 1 = inst ! 3 \<and> inst ! 2 = total_in \<and> total_out = 0)"

definition utxo_shape :: "nat \<Rightarrow> utxo \<Rightarrow> bool" where
  "utxo_shape depth u \<longleftrightarrow> 1 < depth \<and> depth \<le> 257 \<and> length (ux_inputs u) = 2 \<and> length (ux_outputs u) = 2
     \<and> (\<forall>i \<in> set (ux_inputs u). length (in_merkle_path i) = depth - 1)"

section \<open>Soundness\<close>

lemma note_enforce_sound:
  assumes "note_enforce F c n p = Some (cells, p')"
  obtains version where
    "nc_cm cells = (if nc_value cells = c then 0
       else poseidon F [nc_value cells, nc_address cells, nc_psi cells, nc_source cells, version, version])"
    "nc_is_padding cells = (if nc_value cells = c then 1 else 0)"
proof -
  from assms obtain v address psi source version pad x p1 p2 p3 cm where
    cells: "cells = \<lparr>nc_value = v, nc_address = address, nc_cm = cm, nc_is_padding = pad,
      nc_source = source, nc_psi = psi\<rparr>"
    and pad: "is_constant_assign c v p1 = Some (pad, p2)"
    and cm: "swap_assigned (poseidon F [v, address, psi, source, version, version], 0) pad p2
      = Some ((cm, x), p3)"
    by (auto simp: note_enforce_def some_bind Let_def poseidon_hash_gadget_def split: prod.splits)
  from is_constant_sound[OF pad] swap_assigned_sound[OF cm] show thesis
    by (intro that[of version]) (auto simp: cells)
qed

lemma input_note_enforce_sound:
  assumes "input_note_enforce F depth 0 i p = Some (cells, p')"
    and "depth \<le> 257" and "length (in_merkle_path i) = depth - 1"
  obtains psi source version sk path where "length path = depth - 1"
    "nc_is_padding (ic_commitment cells) = (if nc_value (ic_commitment cells) = 0 then 1 else 0)"
    "ic_root cells = field_root F (note_hash F (nc_value (ic_commitment cells)) (poseidon F [sk, 0]) psi source version) path"
    "ic_nullifier cells
       = poseidon F [note_hash F (nc_value (ic_commitment cells)) (poseidon F [sk, 0]) psi source version, sk, psi, 0]"
proof -
  from assms(1) obtain nc root sk p1 p2 p3 where
    nc: "note_enforce F 0 (in_note i) p = Some (nc, p1)"
    and root: "enforce_inclusion F depth (in_merkle_path i) (to_base F (note_commitment F (in_note i))) (nc_cm nc) p1
        = Some (root, p2)"
    and addr: "nc_address nc = poseidon F [sk, 0]"
    and cells: "cells = \<lparr>ic_commitment = nc, ic_nullifier = poseidon F [nc_cm nc, sk, nc_psi nc, 0],
        ic_root = root, ic_secret_key = sk, ic_zero = 0\<rparr>"
    by (auto simp: input_note_enforce_def some_bind Let_def poseidon_hash_gadget_def split: prod.splits)
  obtain version where v:
    "nc_cm nc = (if nc_value nc = 0 then 0
       else poseidon F [nc_value nc, nc_address nc, nc_psi nc, nc_source nc, version, version])"
    "nc_is_padding nc = (if nc_value nc = 0 then 1 else 0)"
    by (rule note_enforce_sound[OF nc])
  obtain path where path: "length path = depth - 1" "root = field_root F (nc_cm nc) path"
    by (rule enforce_inclusion_sound[OF root assms(2,3)])
  have "nc_cm nc = note_hash F (nc_value nc) (poseidon F [sk, 0]) (nc_psi nc) (nc_source nc) version"
    using v(1) addr by (simp add: note_hash_def)
  with v(2) path show thesis
    by (intro that[of path sk "nc_psi nc" "nc_source nc" version]) (simp_all add: cells)
qed

lemma enforce_inputs_sound:
  assumes "enforce_inputs F depth 0 ur 0 inputs p = Some ((roots, nullifiers, vs), p')"
    and "depth \<le> 257" and "\<forall>i \<in> set inputs. length (in_merkle_path i) = depth - 1"
    and "\<forall>r \<in> set roots. r = root"
  shows "length roots = length inputs \<and> list_all2 (\<lambda>nf v. spends F depth root nf v) nullifiers vs
    \<and> length vs = length inputs"
  using assms
proof (induction inputs arbitrary: p roots nullifiers vs)
  case (Cons i inputs)
  from Cons.prems(1) obtain cells r nf rs nfs ws x y p1 p2 p3 p4 where
    cells: "input_note_enforce F depth 0 i p = Some (cells, p1)"
    and r: "swap_assigned (ic_root cells, ur) (nc_is_padding (ic_commitment cells)) p1 = Some ((r, x), p2)"
    and nf: "swap_assigned (ic_nullifier cells, 0) (nc_is_padding (ic_commitment cells)) p2 = Some ((nf, y), p3)"
    and rest: "enforce_inputs F depth 0 ur 0 inputs p3 = Some ((rs, nfs, ws), p')"
    and eq: "roots = r # rs" "nullifiers = nf # nfs" "vs = nc_value (ic_commitment cells) # ws"
    by (auto simp: some_bind split: prod.splits)
  have len: "length (in_merkle_path i) = depth - 1" using Cons.prems(3) by simp
  show ?case
  proof (rule input_note_enforce_sound[OF cells Cons.prems(2) len])
    fix psi source version sk path
    let ?v = "nc_value (ic_commitment cells)"
    let ?cm = "note_hash F ?v (poseidon F [sk, 0]) psi source version"
    assume *: "length path = depth - 1"
      "nc_is_padding (ic_commitment cells) = (if ?v = 0 then 1 else 0)"
      "ic_root cells = field_root F ?cm path" "ic_nullifier cells = poseidon F [?cm, sk, psi, 0]"
    from swap_assigned_sound[OF r] swap_assigned_sound[OF nf] * Cons.prems(4)
    have "if ?v = 0 then nf = 0 else field_root F ?cm path = root \<and> nf = poseidon F [?cm, sk, psi, 0]"
      by (auto simp: eq)
    with *(1) have "spends F depth root nf ?v"
      unfolding spends_def Let_def by blast
    with Cons.IH[OF rest Cons.prems(2)] Cons.prems(3,4) show ?thesis by (simp add: eq)
  qed
qed simp

lemma top_bits_zero:
  assumes "length bs = 256" and "\<forall>x \<in> set (take 16 (rev (map fr_of_bool bs))). x = (0::'f::field)"
  shows "bits_value bs < 2 ^ 240"
proof -
  have z: "drop 240 bs = replicate 16 False"
  proof (rule nth_equalityI)
    fix k assume "k < length (drop 240 bs)"
    then have k: "k < 16" using assms(1) by simp
    have "take 16 (rev (map fr_of_bool bs)) ! (15 - k) = fr_of_bool (bs ! (240 + k))"
      using k assms(1) by (simp add: rev_nth)
    moreover have "take 16 (rev (map fr_of_bool bs)) ! (15 - k) \<in> set (take 16 (rev (map fr_of_bool bs)))"
      using k assms(1) by (intro nth_mem) simp
    ultimately have "fr_of_bool (bs ! (240 + k)) = (0::'f)" using assms(2) by metis
    then show "drop 240 bs ! k = replicate 16 False ! k"
      using k assms(1) by simp
  qed (use assms(1) in simp)
  have "bits_value bs = bits_value (take 240 bs @ drop 240 bs)" by simp
  also have "\<dots> = bits_value (take 240 bs)"
    unfolding bits_value_append z bits_value_zeros by simp
  also have "\<dots> < 2 ^ length (take 240 bs)" by (rule bits_value_less)
  also have "length (take 240 bs) = 240" using assms(1) by simp
  finally show ?thesis .
qed

lemma enforce_outputs_sound:
  assumes "enforce_outputs F 0 outputs p = Some ((cms, vs), p')"
  shows "\<exists>ns. length ns = length outputs \<and> vs = map of_nat ns \<and> list_all2 (creates F) cms ns"
  using assms
proof (induction outputs arbitrary: p cms vs)
  case (Cons n outputs)
  from Cons.prems obtain cells bits cs ws p1 p2 where
    cells: "note_enforce F 0 n p = Some (cells, p1)"
    and bits: "copy_decompose F 1 (nc_value cells) 256 256 p1 = Some (bits, p2)"
    and top: "\<forall>x \<in> set (take 16 (rev bits)). x = 0"
    and rest: "enforce_outputs F 0 outputs p2 = Some ((cs, ws), p')"
    and eq: "cms = nc_cm cells # cs" "vs = nc_value cells # ws"
    by (auto simp: some_bind simp del: One_nat_def split: prod.splits)
  obtain bs where bs: "bits = map fr_of_bool bs" "length bs = 256" "nc_value cells = of_nat (bits_value bs)"
    by (rule copy_decompose_sound[OF bits])
  have "bits_value bs < 2 ^ 240"
    by (rule top_bits_zero[OF bs(2)]) (rule top[unfolded bs(1)])
  moreover obtain version where
    "nc_cm cells = (if nc_value cells = 0 then 0
       else poseidon F [nc_value cells, nc_address cells, nc_psi cells, nc_source cells, version, version])"
    by (rule note_enforce_sound[OF cells])
  ultimately have "creates F (nc_cm cells) (bits_value bs)"
    unfolding creates_def note_hash_def bs(3)[symmetric] by blast
  moreover from Cons.IH[OF rest] obtain ns where
    "length ns = length outputs" "ws = map of_nat ns" "list_all2 (creates F) cs ns" by blast
  ultimately show ?case
    by (intro exI[of _ "bits_value bs # ns"]) (simp add: eq bs(3))
qed simp

lemma constrain_roots_iff [simp]:
  "constrain_roots roots inst = Some u \<longleftrightarrow> (\<forall>r \<in> set roots. 0 < length inst \<and> r = inst ! 0)"
  by (induction roots) (auto simp: some_bind)

lemma constrain_instances_iff [simp]:
  "constrain_instances hashes inst k = Some u \<longleftrightarrow>
     (\<forall>j < length hashes. k + j < length inst \<and> hashes ! j = inst ! (k + j))"
  by (induction hashes arbitrary: k) (auto simp: some_bind All_less_Suc2)

lemma swap_fst_sound:
  "swap_assigned pr sw p = Some ((x, y), p') \<Longrightarrow> x = (if sw = 1 then snd pr else fst pr)"
  using swap_assigned_sound by blast

lemma two_neq_three: "(2 :: 'f::field) \<noteq> 3"
proof
  assume "(2 :: 'f) = 3"
  then have "(3 :: 'f) - 2 = 0" by simp
  then show False by simp
qed

lemma utxo_enforce_sound:
  assumes "utxo_enforce F depth 0 2 3 u inst p = Some (r, p')" and "utxo_shape depth u"
  obtains v1 v2 :: "'f::field" and n1 n2 :: nat where
    "spends F depth (inst ! 0) (inst ! 3) v1" "spends F depth (inst ! 0) (inst ! 4) v2"
    "creates F (inst ! 5) n1" "creates F (inst ! 6) n2"
    "utxo_balanced inst (v1 + v2) (of_nat n1 + of_nat n2 :: 'f)" "7 \<le> length inst"
proof -
  from assms(1) obtain ur kind mint burn roots nfs vs cms ws tin tout
      h1 h2 v1 v2 tin' tout' x1 x2 x3 x4 x5 x6 p1 p2 p3 p4 p5 p6 p7 p8 p9 p10 p11 p12 p13 p14 where
    mint: "is_constant_assign 2 kind p1 = Some (mint, p2)"
    and burn: "is_constant_assign 3 kind p2 = Some (burn, p3)"
    and ins: "enforce_inputs F depth 0 ur 0 (ux_inputs u) p3 = Some ((roots, nfs, vs), p4)"
    and outs: "enforce_outputs F 0 (ux_outputs u) p4 = Some ((cms, ws), p5)"
    and tin: "add_culm_assign vs p5 = Some (tin, p6)"
    and tout: "add_culm_assign ws p6 = Some (tout, p7)"
    and h1: "swap_assigned (0, cms ! 0) mint p7 = Some ((h1, x1), p8)"
    and h2: "swap_assigned (h1, nfs ! 0) burn p8 = Some ((h2, x2), p9)"
    and v1: "swap_assigned (0, tout) mint p9 = Some ((v1, x3), p10)"
    and v2: "swap_assigned (v1, tin) burn p10 = Some ((v2, x4), p11)"
    and tout': "swap_assigned (tout, 0) mint p11 = Some ((tout', x5), p12)"
    and tin': "swap_assigned (tin, 0) burn p12 = Some ((tin', x6), p13)"
    and eq: "tin' = tout'" "\<forall>r \<in> set roots. r = inst ! 0" "inst ! 1 = h2" "inst ! 2 = v2"
    and hashes: "\<forall>j < length (nfs @ cms). 3 + j < length inst \<and> (nfs @ cms) ! j = inst ! (3 + j)"
    by (auto simp: utxo_enforce_def some_bind Let_def split: prod.splits)
  from assms(2) have shape: "depth \<le> 257" "length (ux_inputs u) = 2" "length (ux_outputs u) = 2"
    "\<forall>i \<in> set (ux_inputs u). length (in_merkle_path i) = depth - 1"
    by (simp_all add: utxo_shape_def)
  from enforce_inputs_sound[OF ins shape(1,4) eq(2)] shape(2) obtain nf1 nf2 a1 a2 where
    a: "nfs = [nf1, nf2]" "vs = [a1, a2]" "spends F depth (inst ! 0) nf1 a1" "spends F depth (inst ! 0) nf2 a2"
    by (auto simp: list_all2_Cons2 numeral_2_eq_2 length_Suc_conv)
  from enforce_outputs_sound[OF outs] shape(3) obtain cm1 cm2 n1 n2 where
    n: "cms = [cm1, cm2]" "ws = [of_nat n1, of_nat n2]" "creates F cm1 n1" "creates F cm2 n2"
    by (auto simp: list_all2_Cons2 numeral_2_eq_2 length_Suc_conv)
  have i: "7 \<le> length inst" "nf1 = inst ! 3" "nf2 = inst ! 4" "cm1 = inst ! 5" "cm2 = inst ! 6"
    using hashes by (simp_all add: a n All_less_Suc2 numeral_eq_Suc)
  have bal: "utxo_balanced inst (a1 + a2) (of_nat n1 + of_nat n2)"
    using add_culm_sound[OF tin] add_culm_sound[OF tout] swap_fst_sound[OF h1] swap_fst_sound[OF h2]
      swap_fst_sound[OF v1] swap_fst_sound[OF v2] swap_fst_sound[OF tout'] swap_fst_sound[OF tin']
      is_constant_sound[OF mint] is_constant_sound[OF burn] eq(1,3,4) two_neq_three[where 'f = 'f] i(2,4)
    by (auto simp: utxo_balanced_def a n split: if_splits)
  show thesis
    using a n i bal by (intro that[of a1 a2 n1 n2]) auto
qed

text \<open>What the balance means for the integers the notes stand for.\<close>

definition conserves :: "'f::field list \<Rightarrow> nat \<Rightarrow> nat \<Rightarrow> nat \<Rightarrow> nat \<Rightarrow> bool" where
  "conserves inst m1 m2 n1 n2 \<longleftrightarrow>
     (inst ! 1 = 0 \<and> inst ! 2 = 0 \<and> m1 + m2 = n1 + n2) \<or>
     (inst ! 1 = inst ! 5 \<and> inst ! 2 = of_nat (n1 + n2) \<and> m1 = 0 \<and> m2 = 0) \<or>
     (inst ! 1 = inst ! 3 \<and> inst ! 2 = of_nat (m1 + m2) \<and> n1 = 0 \<and> n2 = 0)"

lemma balanced_conserves:
  assumes "utxo_balanced inst (of_nat m1 + of_nat m2) (of_nat n1 + of_nat n2 :: 'f::field)"
    and inj: "inj_on (of_nat :: nat \<Rightarrow> 'f) {..<2 ^ 241}"
    and "m1 < 2 ^ 240" "m2 < 2 ^ 240" "n1 < 2 ^ 240" "n2 < 2 ^ 240"
  shows "conserves inst m1 m2 n1 n2"
proof -
  have inj_sum: "of_nat a = (of_nat b :: 'f) \<longleftrightarrow> a = b" if "a < 2 ^ 241" "b < 2 ^ 241" for a b
    using inj_onD[OF inj, of a b] that by auto
  have "m1 + m2 < 2 ^ 241" "n1 + n2 < 2 ^ 241" using assms(3-6) by simp_all
  with assms(1) inj_sum[of "m1 + m2" "n1 + n2"] inj_sum[of "m1 + m2" 0] inj_sum[of "n1 + n2" 0]
  show ?thesis by (auto simp: utxo_balanced_def conserves_def)
qed

text \<open>
  C3: Soundness of the transaction circuit: if any prover satisfies it for some public inputs,
  then the prover knows two notes with their keys, each in the tree of the public root or of
  value zero, whose nullifiers are public inputs; the public commitments are those of notes with
  values below 2^240; and the values balance: what comes in goes out, except for what the public
  inputs say is minted or burnt.
\<close>

theorem utxo_sound:
  assumes "utxo_synthesize F depth u inst p = Some (r, p')" and "utxo_shape depth u"
    and "to_base F ZERO = 0" and "inj_on (of_nat :: nat \<Rightarrow> 'f::field) {..<2 ^ 241}"
  shows "\<exists>v1 v2 n1 n2. spends F depth (inst ! 0) (inst ! 3) v1 \<and> spends F depth (inst ! 0) (inst ! 4) v2
    \<and> creates F (inst ! 5) n1 \<and> creates F (inst ! 6) n2
    \<and> utxo_balanced inst (v1 + v2) (of_nat n1 + of_nat n2 :: 'f)
    \<and> (\<forall>m1 m2. v1 = of_nat m1 \<and> v2 = of_nat m2 \<and> m1 < 2 ^ 240 \<and> m2 < 2 ^ 240
          \<longrightarrow> conserves inst m1 m2 n1 n2)"
proof -
  have "utxo_enforce F depth 0 2 3 u inst p = Some (r, p')"
    using assms(1,3) by (simp add: utxo_synthesize_def note_commitment_def padding_note_def Let_def)
  then obtain v1 v2 :: 'f and n1 n2 where *:
    "spends F depth (inst ! 0) (inst ! 3) v1" "spends F depth (inst ! 0) (inst ! 4) v2"
    "creates F (inst ! 5) n1" "creates F (inst ! 6) n2"
    "utxo_balanced inst (v1 + v2) (of_nat n1 + of_nat n2)"
    by (rule utxo_enforce_sound[OF _ assms(2)])
  then have "conserves inst m1 m2 n1 n2"
    if "v1 = of_nat m1" "v2 = of_nat m2" "m1 < 2 ^ 240" "m2 < 2 ^ 240" for m1 m2
    using that assms(4) by (intro balanced_conserves) (auto simp: creates_def)
  with * show ?thesis by blast
qed

section \<open>Completeness\<close>

text \<open>A note whose value is a canonical element, and whose commitment is not the padding by chance.\<close>

definition note_wf :: "'f::field field_ops \<Rightarrow> utxo_note \<Rightarrow> bool" where
  "note_wf F n \<longleftrightarrow> from_base F (to_base F (nt_value n)) = nt_value n
     \<and> (nt_value n \<noteq> ZERO \<longrightarrow> to_base F (nt_value n) \<noteq> 0 \<and> note_commitment F n \<noteq> ZERO)"

definition input_valid :: "'f::field field_ops \<Rightarrow> nat \<Rightarrow> element \<Rightarrow> input_note \<Rightarrow> bool" where
  "input_valid F depth root i \<longleftrightarrow> note_wf F (in_note i)
     \<and> to_base F (nt_address (in_note i)) = poseidon F [to_base F (in_secret_key i), 0]
     \<and> (nt_value (in_note i) \<noteq> ZERO \<longrightarrow> to_base F (input_recent_root F depth i) = to_base F root)"

definition output_valid :: "'f::field field_ops \<Rightarrow> utxo_note \<Rightarrow> bool" where
  "output_valid F n \<longleftrightarrow> note_wf F n \<and> unat (nt_value n) < 2 ^ 240"

definition utxo_valid :: "'f::field field_ops \<Rightarrow> nat \<Rightarrow> utxo \<Rightarrow> bool" where
  "utxo_valid F depth u \<longleftrightarrow> utxo_shape depth u
     \<and> (\<forall>i \<in> set (ux_inputs u). input_valid F depth (ux_root u) i)
     \<and> (\<forall>n \<in> set (ux_outputs u). output_valid F n)
     \<and> (let ins = map (\<lambda>i. to_base F (nt_value (in_note i))) (ux_inputs u);
            outs = map (\<lambda>n. to_base F (nt_value n)) (ux_outputs u)
        in case ux_kind u of
             UtxoMint \<Rightarrow> sum_list ins = 0 \<and> outs ! 1 = 0
           | UtxoBurn \<Rightarrow> ins ! 1 = 0 \<and> sum_list outs = 0
           | _ \<Rightarrow> sum_list ins = sum_list outs)"

lemma base_commitment:
  assumes "fr_ok F"
  shows "to_base F (note_commitment F n) = (if nt_value n = ZERO then 0
    else poseidon F [to_base F (nt_value n), to_base F (nt_address n), to_base F (nt_psi n),
                     to_base F (nt_source n), 1, 1])"
  using assms by (simp add: note_commitment_def hash_merge_def fr_okD(3))

lemma note_enforce_honest:
  assumes "fr_ok F" and "note_wf F n"
  shows "note_enforce F 0 n Honest = Some (\<lparr>nc_value = to_base F (nt_value n),
    nc_address = to_base F (nt_address n), nc_cm = to_base F (note_commitment F n),
    nc_is_padding = (if nt_value n = ZERO then 1 else 0), nc_source = to_base F (nt_source n),
    nc_psi = to_base F (nt_psi n)\<rparr>, Honest)"
proof -
  have "to_base F (nt_value n) = 0 \<longleftrightarrow> nt_value n = ZERO"
    using assms by (auto simp: note_wf_def)
  then show ?thesis
    by (simp add: note_enforce_def honest assign_constant_def Let_def poseidon_hash_gadget_def
        base_commitment[OF assms(1)])
qed

lemma padding_commitment [simp]: "note_commitment F (padding_note F) = ZERO"
  by (simp add: note_commitment_def padding_note_def Let_def)

lemma is_padding_iff: "note_wf F n \<Longrightarrow> note_is_padding F n \<longleftrightarrow> nt_value n = ZERO"
  by (auto simp: note_is_padding_def note_wf_def) (simp_all add: note_commitment_def)

lemma base_nullifier:
  assumes "fr_ok F" and "note_wf F (in_note i)"
  shows "to_base F (input_nullifier F i) = (if nt_value (in_note i) = ZERO then 0
    else poseidon F [to_base F (note_commitment F (in_note i)), to_base F (in_secret_key i),
                     to_base F (nt_psi (in_note i)), 0])"
  using assms is_padding_iff[OF assms(2)]
  by (simp add: input_nullifier_def note_nullifier_def hash_merge_def fr_okD(3))

lemma commitment_from_base: "fr_ok F \<Longrightarrow> nt_value n \<noteq> ZERO \<Longrightarrow>
    from_base F (to_base F (note_commitment F n)) = note_commitment F n"
  by (simp add: note_commitment_def hash_merge_def fr_okD(3))

lemma input_root_honest:
  assumes "fr_ok F" and "nt_value (in_note i) \<noteq> ZERO"
  shows "enforce_inclusion F depth (in_merkle_path i) (to_base F (note_commitment F (in_note i)))
      (to_base F (note_commitment F (in_note i))) Honest
    = Some (to_base F (input_recent_root F depth i), Honest)"
  by (simp add: enforce_inclusion_honest input_recent_root_def compute_root_def
      compute_root_from_leaf_eq[OF assms(1)] commitment_from_base[OF assms])

lemma input_note_enforce_honest:
  assumes "fr_ok F" and "input_valid F depth root i"
  obtains cells where "input_note_enforce F depth 0 i Honest = Some (cells, Honest)"
    "nc_value (ic_commitment cells) = to_base F (nt_value (in_note i))"
    "nc_is_padding (ic_commitment cells) = (if nt_value (in_note i) = ZERO then 1 else 0)"
    "nt_value (in_note i) \<noteq> ZERO \<longrightarrow> ic_root cells = to_base F root
       \<and> ic_nullifier cells = to_base F (input_nullifier F i)"
proof -
  let ?n = "in_note i"
  have wf: "note_wf F ?n" and addr: "to_base F (nt_address ?n) = poseidon F [to_base F (in_secret_key i), 0]"
    using assms(2) by (simp_all add: input_valid_def)
  obtain rt where rt: "enforce_inclusion F depth (in_merkle_path i) (to_base F (note_commitment F ?n))
      (to_base F (note_commitment F ?n)) Honest = Some (rt, Honest)"
    by (simp add: enforce_inclusion_honest)
  have root: "nt_value ?n \<noteq> ZERO \<Longrightarrow> rt = to_base F root"
    using rt input_root_honest[OF assms(1), of i depth] assms(2) by (simp add: input_valid_def)
  show thesis
    by (rule that, simp add: input_note_enforce_def note_enforce_honest[OF assms(1) wf] rt honest
        assign_constant_def Let_def poseidon_hash_gadget_def addr constrain_equal_def)
      (simp_all add: root base_nullifier[OF assms(1) wf])
qed

lemma enforce_inputs_honest:
  assumes "fr_ok F" and "\<forall>i \<in> set inputs. input_valid F depth root i"
  shows "enforce_inputs F depth 0 (to_base F root) 0 inputs Honest
    = Some ((map (\<lambda>_. to_base F root) inputs, map (\<lambda>i. to_base F (input_nullifier F i)) inputs,
             map (\<lambda>i. to_base F (nt_value (in_note i))) inputs), Honest)"
  using assms(2)
proof (induction inputs)
  case (Cons i inputs)
  then have v: "input_valid F depth root i" by simp
  then have wf: "note_wf F (in_note i)" by (simp add: input_valid_def)
  obtain cells where "input_note_enforce F depth 0 i Honest = Some (cells, Honest)"
    "nc_value (ic_commitment cells) = to_base F (nt_value (in_note i))"
    "nc_is_padding (ic_commitment cells) = (if nt_value (in_note i) = ZERO then 1 else 0)"
    "nt_value (in_note i) \<noteq> ZERO \<longrightarrow> ic_root cells = to_base F root
       \<and> ic_nullifier cells = to_base F (input_nullifier F i)"
    by (rule input_note_enforce_honest[OF assms(1) v])
  with Cons base_nullifier[OF assms(1) wf] show ?case by (simp add: honest)
qed simp

lemma bits_value_zero_iff: "bits_value bs = 0 \<longleftrightarrow> (\<forall>b \<in> set bs. \<not> b)"
  by (induction bs) auto

lemma add_mult_less: "(a :: nat) + k * x < k \<Longrightarrow> x = 0"
  by (cases x) simp_all

lemma bits_top_zero:
  assumes "length bs = 256" and "bits_value bs < 2 ^ 240"
  shows "\<forall>x \<in> set (take 16 (rev (map fr_of_bool bs))). x = (0::'f::field)"
proof -
  have "bits_value bs = bits_value (take 240 bs) + 2 ^ 240 * bits_value (drop 240 bs)"
    using bits_value_append[of "take 240 bs" "drop 240 bs"] assms(1) by simp
  with assms(2) have "bits_value (drop 240 bs) = 0"
    by (intro add_mult_less[of "bits_value (take 240 bs)" "2 ^ 240"]) (simp only:)
  then have "\<forall>b \<in> set (drop 240 bs). \<not> b" by (simp only: bits_value_zero_iff)
  then have "\<forall>x \<in> set (rev (map fr_of_bool (drop 240 bs))). x = (0::'f)" by simp
  moreover have "take 16 (rev (map fr_of_bool bs)) = rev (map fr_of_bool (drop 240 bs :: bool list) :: 'f list)"
    unfolding take_rev length_map assms(1) drop_map by simp
  ultimately show ?thesis by (simp only:)
qed

lemma enforce_outputs_honest:
  assumes "fr_ok F" and "\<forall>n \<in> set outputs. output_valid F n"
  shows "enforce_outputs F 0 outputs Honest
    = Some ((map (\<lambda>n. to_base F (note_commitment F n)) outputs,
             map (\<lambda>n. to_base F (nt_value n)) outputs), Honest)"
  using assms(2)
proof (induction outputs)
  case (Cons n outputs)
  then have wf: "note_wf F n" and "unat (nt_value n) < 2 ^ 240" by (simp_all add: output_valid_def)
  then have "bits_value (to_le_bits F (to_base F (nt_value n))) < 2 ^ 240"
    using bits_of_field(1)[OF assms(1)] by (simp add: note_wf_def)
  from bits_top_zero[OF bits_of_field(3)[OF assms(1)] this]
  have top: "constrain_constants (take 16 (rev (map fr_of_bool (to_le_bits F (to_base F (nt_value n)))))) (0 :: 'a) = Some ()"
    by (rule constrain_constants_ok)
  with Cons show ?case
    by (simp add: note_enforce_honest[OF assms(1) wf] copy_decompose_honest[OF assms(1) refl] top del: One_nat_def)
qed simp

lemma utxo_synthesize_honest:
  assumes "fr_ok F" and "utxo_valid F depth u"
  shows "utxo_synthesize F depth u (utxo_public_inputs F u) Honest = Some ((), Honest)"
proof -
  from assms(2) have shape: "length (ux_inputs u) = 2" "length (ux_outputs u) = 2"
    and ins: "\<forall>i \<in> set (ux_inputs u). input_valid F depth (ux_root u) i"
    and outs: "\<forall>n \<in> set (ux_outputs u). output_valid F n"
    by (simp_all add: utxo_valid_def utxo_shape_def)
  obtain i1 i2 n1 n2 where u: "ux_inputs u = [i1, i2]" "ux_outputs u = [n1, n2]"
    using shape by (auto simp: numeral_2_eq_2 length_Suc_conv)
  show ?thesis
    using assms(2) field_consts_neq[OF assms(1)]
    by (cases "ux_kind u")
      (simp_all add: utxo_synthesize_def utxo_enforce_def enforce_inputs_honest[OF assms(1) ins, unfolded u]
        enforce_outputs_honest[OF assms(1) outs, unfolded u] honest assign_constant_def fr_ok_simps[OF assms(1)]
        utxo_valid_def u utxo_public_inputs_def constrain_equal_def constrain_instance_def
        del: enforce_inputs.simps enforce_outputs.simps)
qed

text \<open>
  C10: Completeness of the transaction circuit: the honest prover satisfies it with the public
  inputs the code computes, whenever the notes are well formed, the keys and paths fit, the
  outputs are below 2^240 and the values balance; for a mint the second output and for a burn the
  second input must be of value zero, because the public value is the first note's alone.
\<close>

theorem utxo_complete:
  assumes "fr_ok F" and "utxo_valid F depth u"
  shows "utxo_synthesize F depth u (utxo_public_inputs F u) Honest = Some ((), Honest)"
  by (rule utxo_synthesize_honest[OF assms])

end
