(* ===== verification/Circuit_Insert.thy ===== *)
theory Circuit_Insert
  imports Circuit_Utxo_Props Smirk_Path
begin

text \<open>
  The circuit that proves a batch of insertions into the tree of notes,
  \<open>pkg/zk-circuits/src/insert\<close>, and the part of \<open>aggregate_utxo/aggregate.rs\<close> that ties the leaves
  of aggregated transactions to the batch. The chip that verifies the aggregated proofs is a
  dependency: the cells it returns are arguments. Each insertion shows an empty slot under the
  old root and the leaf in the same slot under the new one; the slot is given by the low bits of
  the canonical representation of the leaf.
\<close>

section \<open>One insertion (insert.rs)\<close>

record insert_leaf =
  il_leaf :: element
  il_path :: merkle_path

definition padding_insert :: "'f::field field_ops \<Rightarrow> nat \<Rightarrow> insert_leaf" where
  "padding_insert F depth =
     \<lparr>il_leaf = note_commitment F (padding_note F), il_path = default_path F depth\<rparr>"

definition insert_is_padding :: "'f::field field_ops \<Rightarrow> insert_leaf \<Rightarrow> bool" where
  "insert_is_padding F i \<longleftrightarrow> il_leaf i = note_commitment F (padding_note F)"

definition insert_null_root :: "'f field_ops \<Rightarrow> nat \<Rightarrow> insert_leaf \<Rightarrow> 'f" where
  "insert_null_root F depth i = to_base F (compute_null_root F depth (il_path i) (il_leaf i))"

definition insert_leaf_root :: "'f field_ops \<Rightarrow> nat \<Rightarrow> insert_leaf \<Rightarrow> 'f" where
  "insert_leaf_root F depth i = to_base F (compute_root F depth (il_path i) (il_leaf i))"

definition insert_public_inputs :: "'f field_ops \<Rightarrow> nat \<Rightarrow> insert_leaf \<Rightarrow> 'f list" where
  "insert_public_inputs F depth i =
     [to_base F (il_leaf i), insert_null_root F depth i, insert_leaf_root F depth i]"

record 'f insert_cells =
  sc_new_leaf :: 'f
  sc_old_root :: 'f
  sc_new_root :: 'f
  sc_is_padding :: 'f

definition insert_enforce ::
  "'f::field field_ops \<Rightarrow> nat \<Rightarrow> 'f \<Rightarrow> insert_leaf \<Rightarrow> 'f prover \<Rightarrow> ('f insert_cells \<times> 'f prover) option"
where
  "insert_enforce F depth c i p = do {
     (new_leaf, p) \<leftarrow> assign_private_input (to_base F (il_leaf i)) p;
     (null_leaf, p) \<leftarrow> assign_constant 0 p;
     (decomposed_bits, p) \<leftarrow> copy_decompose F 1 new_leaf 256 256 p;
     (zero, p) \<leftarrow> assign_constant 0 p;
     (one, p) \<leftarrow> assign_constant 1 p;
     (_, p) \<leftarrow> is_less_than_assign (map (\<lambda>b. if b then one else zero) (to_be_bits MODULUS))
                 (rev decomposed_bits) p;
     (sibling_witnesses, p) \<leftarrow> assign_private_inputs (map (to_base F) (il_path i)) p;
     let siblings = zip sibling_witnesses (take (depth - 1) decomposed_bits);
     (old_root, p) \<leftarrow> merkle_root F null_leaf siblings p;
     (new_root, p) \<leftarrow> merkle_root F new_leaf siblings p;
     (is_padding, p) \<leftarrow> is_constant_assign c new_leaf p;
     Some (\<lparr>sc_new_leaf = new_leaf, sc_old_root = old_root, sc_new_root = new_root,
            sc_is_padding = is_padding\<rparr>, p) }"

section \<open>A batch (batch.rs, circuit.rs)\<close>

text \<open>The loop over the insertions; it returns the last root and the leaves.\<close>

fun batch_rows ::
  "'f::field field_ops \<Rightarrow> nat \<Rightarrow> 'f \<Rightarrow> 'f \<Rightarrow> insert_leaf list \<Rightarrow> 'f prover \<Rightarrow>
     (('f \<times> 'f list) \<times> 'f prover) option" where
  "batch_rows F depth c last_new_root [] p = Some ((last_new_root, []), p)"
| "batch_rows F depth c last_new_root (i # inserts) p = do {
     (cells, p) \<leftarrow> insert_enforce F depth c i p;
     ((old_root, _), p) \<leftarrow> swap_assigned (sc_old_root cells, last_new_root) (sc_is_padding cells) p;
     ((new_root, _), p) \<leftarrow> swap_assigned (sc_new_root cells, old_root) (sc_is_padding cells) p;
     constrain_equal last_new_root old_root;
     ((root, leafs), p) \<leftarrow> batch_rows F depth c new_root inserts p;
     Some ((root, sc_new_leaf cells # leafs), p) }"

record 'f batch_cells =
  bc_old_root :: 'f
  bc_new_root :: 'f
  bc_leafs :: "'f list"

text \<open>\<open>None\<close>: the batch is empty, on which \<open>old_root\<close> panics.\<close>

definition batch_old_root :: "'f field_ops \<Rightarrow> nat \<Rightarrow> insert_leaf list \<Rightarrow> 'f option" where
  "batch_old_root F depth inserts =
     (case inserts of [] \<Rightarrow> None | i # _ \<Rightarrow> Some (insert_null_root F depth i))"

definition batch_new_root :: "'f::field field_ops \<Rightarrow> nat \<Rightarrow> insert_leaf list \<Rightarrow> 'f option" where
  "batch_new_root F depth inserts =
     (case filter (\<lambda>i. \<not> insert_is_padding F i) (rev inserts) of
        i # _ \<Rightarrow> Some (insert_leaf_root F depth i)
      | [] \<Rightarrow> batch_old_root F depth inserts)"

definition batch_leafs :: "'f field_ops \<Rightarrow> insert_leaf list \<Rightarrow> 'f list" where
  "batch_leafs F inserts = map (\<lambda>i. to_base F (il_leaf i)) inserts"

definition batch_public_inputs :: "'f::field field_ops \<Rightarrow> nat \<Rightarrow> insert_leaf list \<Rightarrow> 'f list option" where
  "batch_public_inputs F depth inserts = do {
     old_root \<leftarrow> batch_old_root F depth inserts;
     new_root \<leftarrow> batch_new_root F depth inserts;
     Some ([old_root, new_root] @ batch_leafs F inserts) }"

definition batch_enforce ::
  "'f::field field_ops \<Rightarrow> nat \<Rightarrow> 'f \<Rightarrow> insert_leaf list \<Rightarrow> 'f prover \<Rightarrow> ('f batch_cells \<times> 'f prover) option"
where
  "batch_enforce F depth c inserts p = do {
     expected \<leftarrow> batch_old_root F depth inserts;
     (old_root, p) \<leftarrow> assign_private_input expected p;
     ((new_root, leafs), p) \<leftarrow> batch_rows F depth c old_root inserts p;
     Some (\<lparr>bc_old_root = old_root, bc_new_root = new_root, bc_leafs = leafs\<rparr>, p) }"

definition batch_enforce_instances :: "'f::field batch_cells \<Rightarrow> 'f list \<Rightarrow> unit option" where
  "batch_enforce_instances cells inst = do {
     constrain_instance (bc_old_root cells) inst 0;
     constrain_instance (bc_new_root cells) inst 1;
     constrain_instances (bc_leafs cells) inst 2 }"

definition batch_synthesize ::
  "'f::field field_ops \<Rightarrow> nat \<Rightarrow> insert_leaf list \<Rightarrow> 'f list \<Rightarrow> 'f prover \<Rightarrow> (unit \<times> 'f prover) option"
where
  "batch_synthesize F depth inserts inst p = do {
     (cells, p) \<leftarrow> batch_enforce F depth (to_base F (note_commitment F (padding_note F))) inserts p;
     batch_enforce_instances cells inst;
     Some ((), p) }"

section \<open>Aggregation with transactions (aggregate\_utxo/aggregate.rs)\<close>

text \<open>
  \<open>agg_cells\<close> and \<open>snarks\<close> are the cells of the accumulator and the first instance column of every
  verified transaction, as the aggregation chip returns them. An absent instance panics.
\<close>

fun constrain_utxo_instances :: "'f list list \<Rightarrow> 'f list \<Rightarrow> nat \<Rightarrow> 'f list option" where
  "constrain_utxo_instances [] inst k = Some []"
| "constrain_utxo_instances (cells # snarks) inst k = do {
     assert_that (3 \<le> length cells);
     constrain_instance (cells ! 0) inst k;
     constrain_instance (cells ! 1) inst (k + 1);
     constrain_instance (cells ! 2) inst (k + 2);
     rest \<leftarrow> constrain_utxo_instances snarks inst (k + 3);
     Some (drop 3 cells @ rest) }"

fun constrain_leaves_equal :: "('f \<times> 'f) list \<Rightarrow> unit option" where
  "constrain_leaves_equal [] = Some ()"
| "constrain_leaves_equal ((a, b) # rest) = do { constrain_equal a b; constrain_leaves_equal rest }"

definition aggregate_utxo_enforce ::
  "'f::field field_ops \<Rightarrow> nat \<Rightarrow> 'f \<Rightarrow> 'f list \<Rightarrow> 'f list list \<Rightarrow> insert_leaf list \<Rightarrow> 'f list \<Rightarrow>
     'f prover \<Rightarrow> (unit \<times> 'f prover) option" where
  "aggregate_utxo_enforce F depth c agg_cells snarks inserts inst p = do {
     (cells, p) \<leftarrow> batch_enforce F depth c inserts p;
     constrain_instances agg_cells inst 0;
     let instance_counter = length agg_cells;
     constrain_instance (bc_old_root cells) inst instance_counter;
     constrain_instance (bc_new_root cells) inst (instance_counter + 1);
     utxo_leafs \<leftarrow> constrain_utxo_instances snarks inst (instance_counter + 2);
     constrain_leaves_equal (take (length inserts) (zip utxo_leafs (bc_leafs cells)));
     Some ((), p) }"

end
