(* ===== verification/Circuit_Insert_Props.thy ===== *)
theory Circuit_Insert_Props
  imports Circuit_Insert
begin

text \<open>
  Soundness of the batch circuit. An accepted batch is a chain of insertions
  (\<open>insert_chain\<close>): each shows an empty slot under one root and the leaf in that slot under the
  next. When the first root is the root of a tree and no two different pairs hashed on the way
  collide, the slots were empty and distinct in the tree, and the last root is the root of the
  tree with the leaves added.
\<close>

section \<open>Chains of insertions\<close>

abbreviation hash2 :: "'f field_ops \<Rightarrow> 'f \<Rightarrow> 'f \<Rightarrow> 'f" where
  "hash2 F l r \<equiv> poseidon F [l, r]"

lemma field_root_eq:
  "field_root F h (zip ds ss) = compute_merkle_root (hash2 F) h (zip ss ds)"
  by (induction ss ds arbitrary: h rule: list_induct2') (auto split: bool.splits)

definition slot_root :: "'f field_ops \<Rightarrow> nat \<Rightarrow> 'f \<Rightarrow> element \<Rightarrow> 'f list \<Rightarrow> 'f" where
  "slot_root F n leaf e ss = compute_merkle_root (hash2 F) leaf (zip ss (rev (lsb e n)))"

fun insert_chain :: "'f::zero field_ops \<Rightarrow> nat \<Rightarrow> 'f \<Rightarrow> (element \<times> 'f list) list \<Rightarrow> 'f \<Rightarrow> bool" where
  "insert_chain F n old [] new \<longleftrightarrow> new = old"
| "insert_chain F n old ((e, ss) # rest) new \<longleftrightarrow> is_canonical e \<and> length ss = n \<and>
     (if to_base F e = 0 then insert_chain F n old rest new
      else old = slot_root F n 0 e ss \<and> insert_chain F n (slot_root F n (to_base F e) e ss) rest new)"

text \<open>The leaves a chain adds, and a tree, as a function from slots to leaves, with some leaves added.\<close>

definition chain_leaves :: "'f::zero field_ops \<Rightarrow> (element \<times> 'f list) list \<Rightarrow> element list" where
  "chain_leaves F ins = filter (\<lambda>e. to_base F e \<noteq> 0) (map fst ins)"

definition with_leaves :: "'f field_ops \<Rightarrow> nat \<Rightarrow> (bool list \<Rightarrow> 'f) \<Rightarrow> element list \<Rightarrow> bool list \<Rightarrow> 'f" where
  "with_leaves F n f es = foldl (\<lambda>f e. f(lsb e n := to_base F e)) f es"

text \<open>The pairs hashed for the paths of the chain, by the prover and in the tree.\<close>

fun chain_pairs :: "'f::zero field_ops \<Rightarrow> nat \<Rightarrow> (bool list \<Rightarrow> 'f) \<Rightarrow> (element \<times> 'f list) list \<Rightarrow> ('f \<times> 'f) set"
where
  "chain_pairs F n f [] = {}"
| "chain_pairs F n f ((e, ss) # rest) =
     (if to_base F e = 0 then chain_pairs F n f rest
      else set (merkle_pairs (hash2 F) 0 (zip ss (rev (lsb e n))))
         \<union> set (merkle_pairs (hash2 F) (f (lsb e n))
                 (zip (rev (spec_siblings (hash2 F) f (lsb e n))) (rev (lsb e n))))
         \<union> chain_pairs F n (f(lsb e n := to_base F e)) rest)"

lemma insert_chain_tree:
  assumes "insert_chain F n (spec_root (hash2 F) n f) ins new" and "n \<le> 256"
    and "inj_on (\<lambda>(l, r). hash2 F l r) (chain_pairs F n f ins)"
  shows "distinct (map (\<lambda>e. lsb e n) (chain_leaves F ins)) \<and> (\<forall>e \<in> set (chain_leaves F ins). f (lsb e n) = 0)
    \<and> new = spec_root (hash2 F) n (with_leaves F n f (chain_leaves F ins))"
  using assms(1,3,2)
proof (induction F n "spec_root (hash2 F) n f" ins new arbitrary: f rule: insert_chain.induct)
  case (2 F n e ss rest new)
  show ?case
  proof (cases "to_base F e = 0")
    case True
    with 2 show ?thesis by (simp add: chain_leaves_def)
  next
    case False
    let ?q = "lsb e n" and ?h = "hash2 F"
    let ?sibs = "rev (spec_siblings ?h f ?q)" and ?f = "f(?q := to_base F e)"
    have len: "length ?q = n" using 2(5) by simp
    have root: "compute_merkle_root ?h x (zip ?sibs (rev ?q)) = spec_root ?h n (f(?q := x))" for x
      using merkle_root_siblings[of ?h x f ?q] len by simp
    have "compute_merkle_root ?h 0 (zip ss (rev ?q)) = compute_merkle_root ?h (f ?q) (zip ?sibs (rev ?q))"
      using 2(3) False unfolding root by (simp add: slot_root_def)
    moreover have "map snd (zip ss (rev ?q)) = map snd (zip ?sibs (rev ?q))"
      using 2(3) len by simp
    moreover have "inj_on (\<lambda>(l, r). ?h l r) (set (merkle_pairs ?h 0 (zip ss (rev ?q)))
        \<union> set (merkle_pairs ?h (f ?q) (zip ?sibs (rev ?q))))"
      by (rule inj_on_subset[OF 2(4)]) (use False in auto)
    ultimately have "0 = f ?q \<and> zip ss (rev ?q) = zip ?sibs (rev ?q)"
      by (rule compute_merkle_root_inject_path)
    then have eq: "f ?q = 0" "zip ss (rev ?q) = zip ?sibs (rev ?q)" by simp_all
    have new: "slot_root F n (to_base F e) e ss = spec_root ?h n ?f"
      unfolding slot_root_def eq(2) by (rule root)
    have chain: "insert_chain F n (spec_root ?h n ?f) rest new"
      using 2(3) False by (simp add: new)
    have "inj_on (\<lambda>(l, r). ?h l r) (chain_pairs F n ?f rest)"
      by (rule inj_on_subset[OF 2(4)]) (use False in auto)
    from 2(2)[OF False new chain this 2(5)]
    have IH: "distinct (map (\<lambda>e. lsb e n) (chain_leaves F rest))"
      "\<forall>e \<in> set (chain_leaves F rest). ?f (lsb e n) = 0"
      "new = spec_root ?h n (with_leaves F n ?f (chain_leaves F rest))" by blast+
    from IH(2) False have other: "\<forall>e' \<in> set (chain_leaves F rest). lsb e' n \<noteq> ?q \<and> f (lsb e' n) = 0"
      by (auto split: if_splits)
    have cl: "chain_leaves F ((e, ss) # rest) = e # chain_leaves F rest"
      using False by (simp add: chain_leaves_def)
    show ?thesis
      unfolding cl
    proof (intro conjI)
      show "distinct (map (\<lambda>e. lsb e n) (e # chain_leaves F rest))" using IH(1) other by auto
      show "\<forall>e \<in> set (e # chain_leaves F rest). f (lsb e n) = 0" using other eq(1) by simp
      show "new = spec_root ?h n (with_leaves F n f (e # chain_leaves F rest))"
        unfolding with_leaves_def foldl_Cons by (rule IH(3)[unfolded with_leaves_def])
    qed
  qed
qed (simp add: chain_leaves_def with_leaves_def)

section \<open>Soundness of the circuit\<close>

lemma rev_to_be_bits: "rev (to_be_bits e) = map (bit e) [0..<256]"
  by (simp add: to_be_bits_def rev_map)

lemma bits_of_value:
  assumes "length bs = 256"
  shows "map (bit (word_of_nat (bits_value bs) :: element)) [0..<256] = bs"
    "unat (word_of_nat (bits_value bs) :: element) = bits_value bs"
proof -
  show v: "unat (word_of_nat (bits_value bs) :: element) = bits_value bs"
    using bits_value_less[of bs] assms by (simp add: unat_of_nat take_bit_nat_eq_self_iff)
  have "bit (word_of_nat (bits_value bs) :: element) k = bs ! k" if "k < 256" for k
  proof -
    have "bit (word_of_nat (bits_value bs) :: element) k = bit (unat (word_of_nat (bits_value bs) :: element)) k"
      using that by (simp add: bit_unsigned_iff del: unat_of_nat)
    also have "\<dots> = bit (bits_value bs) k" by (simp only: v)
    finally have "bit (word_of_nat (bits_value bs) :: element) k = bit (bits_value bs) k" .
    then show ?thesis using that assms by (simp add: bit_horner_sum_bit_iff)
  qed
  then show "map (bit (word_of_nat (bits_value bs) :: element)) [0..<256] = bs"
    using assms by (intro nth_equalityI) simp_all
qed

lemma insert_enforce_sound:
  fixes F :: "'f::field field_ops"
  assumes "insert_enforce F depth c i p = Some (cells, p')" and "depth \<le> 257"
    and base: "\<forall>e. to_base F e = of_nat (unat e)"
  obtains e ss where "is_canonical e" "length ss = length (il_path i)" "sc_new_leaf cells = to_base F e"
    "sc_old_root cells = slot_root F (depth - 1) 0 e ss"
    "sc_new_root cells = slot_root F (depth - 1) (to_base F e) e ss"
    "sc_is_padding cells = (if to_base F e = c then 1 else 0)"
proof -
  let ?m = "map (\<lambda>b. if b then 1 else 0 :: 'f) (to_be_bits MODULUS)"
  from assms(1) obtain leaf bits sibs old new pad u p1 p2 p3 p4 p5 p6 where
    bits: "copy_decompose F 1 leaf 256 256 p1 = Some (bits, p2)"
    and less: "is_less_than_assign ?m (rev bits) p2 = Some (u, p3)"
    and sibs: "assign_private_inputs (map (to_base F) (il_path i)) p3 = Some (sibs, p4)"
    and old: "merkle_root F 0 (zip sibs (take (depth - 1) bits)) p4 = Some (old, p5)"
    and new: "merkle_root F leaf (zip sibs (take (depth - 1) bits)) p5 = Some (new, p6)"
    and pad: "is_constant_assign c leaf p6 = Some (pad, p')"
    and cells: "cells = \<lparr>sc_new_leaf = leaf, sc_old_root = old, sc_new_root = new, sc_is_padding = pad\<rparr>"
    by (auto simp: insert_enforce_def some_bind Let_def simp del: One_nat_def split: prod.splits)
  obtain bs where bs: "bits = map fr_of_bool bs" "length bs = 256" "leaf = of_nat (bits_value bs)"
    by (rule copy_decompose_sound[OF bits])
  define e :: element where "e = word_of_nat (bits_value bs)"
  have e: "unat e = bits_value bs" "map (bit e) [0..<256] = bs"
    using bits_of_value[OF bs(2)] by (simp_all add: e_def)
  have "is_less_than_assign (map fr_of_bool (to_be_bits MODULUS)) (map fr_of_bool (rev bs)) p2 = Some (u, p3)"
    using less by (simp add: bs(1) rev_map fr_of_bool_def[abs_def])
  from is_less_than_sound[OF this] have "bits_value bs < bits_value (rev (to_be_bits MODULUS))" by simp
  also have "\<dots> = unat MODULUS"
    using bits_value_map_bit[of MODULUS] by (simp add: rev_to_be_bits)
  finally have canon: "is_canonical e" by (simp add: canonical_iff e(1))
  have leaf: "leaf = to_base F e" using base by (simp add: bs(3) e(1) del: of_nat_unat)
  have dirs: "take (depth - 1) bits = map fr_of_bool (rev (lsb e (depth - 1)))"
  proof -
    have "rev (lsb e (depth - 1)) = map (bit e) [0..<depth - 1]"
      using assms(2) by (simp add: lsb_eq_map rev_map)
    also have "\<dots> = take (depth - 1) (map (bit e) [0..<256])"
      using assms(2) by (simp add: take_map)
    also have "\<dots> = take (depth - 1) bs" by (simp only: e(2))
    finally show ?thesis by (simp add: bs(1) take_map)
  qed
  have "old = slot_root F (depth - 1) 0 e sibs" "new = slot_root F (depth - 1) (to_base F e) e sibs"
    using merkle_root_sound[OF old[unfolded dirs]] merkle_root_sound[OF new[unfolded dirs]]
    by (simp_all add: slot_root_def field_root_eq leaf)
  moreover have "length sibs = length (il_path i)"
    using assign_private_inputs_length[OF sibs] by simp
  ultimately show thesis
    using canon leaf is_constant_sound[OF pad] by (intro that[of e sibs]) (auto simp: cells)
qed

lemma batch_rows_sound:
  assumes "batch_rows F depth 0 old inserts p = Some ((new, leafs), p')" and "depth \<le> 257"
    and base: "\<forall>e. to_base F e = of_nat (unat e)"
    and "\<forall>i \<in> set inserts. length (il_path i) = depth - 1"
  shows "\<exists>ins. leafs = map (\<lambda>i. to_base F (fst i)) ins \<and> length ins = length inserts
    \<and> insert_chain F (depth - 1) old ins new"
  using assms(1,4)
proof (induction inserts arbitrary: old p leafs)
  case (Cons i inserts)
  from Cons.prems(1) obtain cells o' n' x y ls p1 p2 p3 where
    cells: "insert_enforce F depth 0 i p = Some (cells, p1)"
    and o': "swap_assigned (sc_old_root cells, old) (sc_is_padding cells) p1 = Some ((o', x), p2)"
    and n': "swap_assigned (sc_new_root cells, o') (sc_is_padding cells) p2 = Some ((n', y), p3)"
    and eq: "old = o'" "leafs = sc_new_leaf cells # ls"
    and rest: "batch_rows F depth 0 n' inserts p3 = Some ((new, ls), p')"
    by (auto simp: some_bind split: prod.splits)
  obtain e ss where e: "is_canonical e" "length ss = length (il_path i)" "sc_new_leaf cells = to_base F e"
    "sc_old_root cells = slot_root F (depth - 1) 0 e ss"
    "sc_new_root cells = slot_root F (depth - 1) (to_base F e) e ss"
    "sc_is_padding cells = (if to_base F e = 0 then 1 else 0)"
    by (rule insert_enforce_sound[OF cells assms(2) base])
  from Cons.IH[OF rest] Cons.prems(2) obtain ins where
    ins: "ls = map (\<lambda>i. to_base F (fst i)) ins" "length ins = length inserts"
      "insert_chain F (depth - 1) n' ins new" by auto
  have "insert_chain F (depth - 1) old ((e, ss) # ins) new"
    using swap_fst_sound[OF o'] swap_fst_sound[OF n'] e ins(3) eq(1) Cons.prems(2)
    by (auto split: if_splits)
  then show ?case
    using ins(1,2) e(3) by (intro exI[of _ "(e, ss) # ins"]) (simp add: eq(2))
qed simp

text \<open>
  Soundness of the batch circuit: if any prover satisfies it for some public inputs, the
  public leaves are canonical elements that lead from the public old root to the public new root
  by a chain of insertions; and if the old root is that of a tree and no two different pairs hashed
  along the way have the same hash, the non-zero leaves had distinct, empty slots in the tree, and
  the new root is that of the tree with them.
\<close>

theorem batch_sound:
  assumes "batch_synthesize F depth inserts inst p = Some (r, p')" and "depth \<le> 257"
    and "\<forall>e. to_base F e = of_nat (unat e)" and "\<forall>i \<in> set inserts. length (il_path i) = depth - 1"
  shows "\<exists>ins. length ins = length inserts
    \<and> (\<forall>j < length inserts. 2 + j < length inst \<and> inst ! (2 + j) = to_base F (fst (ins ! j)))
    \<and> insert_chain F (depth - 1) (inst ! 0) ins (inst ! 1)
    \<and> (\<forall>f. inst ! 0 = spec_root (hash2 F) (depth - 1) f
           \<and> inj_on (\<lambda>(l, r). hash2 F l r) (chain_pairs F (depth - 1) f ins)
         \<longrightarrow> distinct (map (\<lambda>e. lsb e (depth - 1)) (chain_leaves F ins))
           \<and> (\<forall>e \<in> set (chain_leaves F ins). f (lsb e (depth - 1)) = 0)
           \<and> inst ! 1 = spec_root (hash2 F) (depth - 1) (with_leaves F (depth - 1) f (chain_leaves F ins)))"
proof -
  have c: "to_base F (note_commitment F (padding_note F)) = 0"
    using assms(3) by (simp add: element_consts del: of_nat_unat)
  from assms(1) obtain old new leafs q where
    rows: "batch_rows F depth 0 old inserts q = Some ((new, leafs), p')"
    and i: "old = inst ! 0" "new = inst ! 1"
    and l: "\<forall>j < length leafs. 2 + j < length inst \<and> leafs ! j = inst ! (2 + j)"
    by (auto simp: batch_synthesize_def batch_enforce_def batch_enforce_instances_def some_bind c
        simp del: padding_commitment split: prod.splits)
  from batch_rows_sound[OF rows assms(2-4)] obtain ins where
    ins: "leafs = map (\<lambda>i. to_base F (fst i)) ins" "length ins = length inserts"
      "insert_chain F (depth - 1) (inst ! 0) ins (inst ! 1)" unfolding i by blast
  have n: "depth - 1 \<le> 256" using assms(2) by simp
  have leafs: "2 + j < length inst \<and> inst ! (2 + j) = to_base F (fst (ins ! j))" if "j < length inserts" for j
    using l that by (simp add: ins(1,2))
  have tree: "distinct (map (\<lambda>e. lsb e (depth - 1)) (chain_leaves F ins))
      \<and> (\<forall>e \<in> set (chain_leaves F ins). f (lsb e (depth - 1)) = 0)
      \<and> inst ! 1 = spec_root (hash2 F) (depth - 1) (with_leaves F (depth - 1) f (chain_leaves F ins))"
    if "inst ! 0 = spec_root (hash2 F) (depth - 1) f \<and> inj_on (\<lambda>(l, r). hash2 F l r) (chain_pairs F (depth - 1) f ins)"
    for f
    by (rule insert_chain_tree[OF _ n]) (use ins(3) that in simp_all)
  show ?thesis
    using ins(2,3) leafs tree by blast
qed

section \<open>Completeness\<close>

text \<open>Canonical elements come back from the field unchanged, a consequence of \<open>field_repr_ok\<close>.\<close>

definition fr_canonical :: "'f field_ops \<Rightarrow> bool" where
  "fr_canonical F \<longleftrightarrow> (\<forall>e. is_canonical e \<longrightarrow> from_base F (to_base F e) = e)"

lemma field_repr_canonical: "field_repr_ok F \<Longrightarrow> fr_canonical F"
  by (simp add: fr_canonical_def from_base_to_base is_canonical_def)

text \<open>The insertions a batch may hold: each starts from the root the one before leads to.\<close>

fun batch_linked :: "'f field_ops \<Rightarrow> nat \<Rightarrow> 'f \<Rightarrow> insert_leaf list \<Rightarrow> 'f \<Rightarrow> bool" where
  "batch_linked F depth root [] fin \<longleftrightarrow> fin = root"
| "batch_linked F depth root (i # inserts) fin \<longleftrightarrow>
     is_canonical (il_leaf i) \<and> length (il_path i) = depth - 1 \<and>
     (if il_leaf i = ZERO then batch_linked F depth root inserts fin
      else insert_null_root F depth i = root
           \<and> batch_linked F depth (insert_leaf_root F depth i) inserts fin)"

lemma base_zero_iff:
  assumes "fr_ok F" and "fr_canonical F" and "is_canonical e"
  shows "to_base F e = 0 \<longleftrightarrow> e = ZERO"
proof
  assume "to_base F e = 0"
  then have "from_base F (to_base F e) = from_base F (to_base F ZERO)"
    using fr_ok_simps(1)[OF assms(1)] by simp
  moreover have "is_canonical ZERO" by (simp add: canonical_iff element_consts MODULUS_def)
  ultimately show "e = ZERO" using assms(2,3) by (simp add: fr_canonical_def)
qed (use assms(1) in simp)

lemma insert_enforce_honest:
  fixes F :: "'f::field field_ops"
  assumes ok: "fr_ok F" and can: "fr_canonical F" and "depth \<le> 257"
    and e: "is_canonical (il_leaf i)" and len: "length (il_path i) = depth - 1"
  shows "insert_enforce F depth 0 i Honest = Some (\<lparr>sc_new_leaf = to_base F (il_leaf i),
    sc_old_root = insert_null_root F depth i, sc_new_root = insert_leaf_root F depth i,
    sc_is_padding = (if il_leaf i = ZERO then 1 else 0)\<rparr>, Honest)"
proof -
  let ?e = "il_leaf i"
  have eb: "from_base F (to_base F ?e) = ?e" using can e by (simp add: fr_canonical_def)
  have bits: "to_le_bits F (to_base F ?e) = map (bit ?e) [0..<256]"
    using to_le_bits_from_base[OF fr_okD(4)[OF ok], of "to_base F ?e"] by (simp add: eb)
  have m: "map (\<lambda>b. if b then 1 else 0 :: 'f) (to_be_bits MODULUS) = map fr_of_bool (to_be_bits MODULUS)"
    by (simp add: fr_of_bool_def[abs_def])
  have r: "rev (map fr_of_bool (map (bit ?e) [0..<256])) = map fr_of_bool (rev (map (bit ?e) [0..<256]))"
    by (simp only: rev_map)
  have less: "is_less_than_assign (map fr_of_bool (to_be_bits MODULUS))
      (map fr_of_bool (rev (map (bit ?e) [0..<256]))) Honest = Some ((), Honest)"
    using e by (intro is_less_than_honest)
      (simp_all only: rev_rev_ident rev_to_be_bits length_to_be_bits length_rev length_map length_upt
        bits_value_map_bit[where 'a = 256, simplified] canonical_iff)
  have t: "take (depth - 1) (map fr_of_bool (map (bit ?e) [0..<256]))
      = map fr_of_bool (least_significant_bits depth ?e)"
    using assms(3) by (simp add: least_significant_bits_def lsb_eq_map rev_map take_map)
  have roots: "field_root F 0 (zip (least_significant_bits depth ?e) (map (to_base F) (il_path i)))
      = insert_null_root F depth i"
    "field_root F (to_base F ?e) (zip (least_significant_bits depth ?e) (map (to_base F) (il_path i)))
      = insert_leaf_root F depth i"
    using compute_root_from_leaf_eq[OF ok, of depth "il_path i" ?e] fr_ok_simps(1)[OF ok]
    by (simp_all add: insert_null_root_def insert_leaf_root_def compute_null_root_def compute_root_def)
  show ?thesis
    by (simp add: insert_enforce_def assign_private_input_honest assign_constant_def m
        copy_decompose_honest[OF ok refl] bits r less assign_private_inputs_honest t
        merkle_root_honest roots is_constant_honest base_zero_iff[OF ok can e]
        del: One_nat_def rev_map map_map)
qed

lemma batch_rows_honest:
  assumes "fr_ok F" and "fr_canonical F" and "depth \<le> 257" and "batch_linked F depth root inserts fin"
  shows "batch_rows F depth 0 root inserts Honest = Some ((fin, batch_leafs F inserts), Honest)"
  using assms(4)
proof (induction inserts arbitrary: root)
  case (Cons i inserts)
  then have i: "is_canonical (il_leaf i)" "length (il_path i) = depth - 1" by simp_all
  show ?case
    using Cons by (cases "il_leaf i = ZERO")
      (simp_all add: insert_enforce_honest[OF assms(1-3) i] swap_assigned_honest constrain_equal_def
        batch_leafs_def)
qed (simp add: batch_leafs_def)

end
