(* ===== verification/Circuit_Rollup.thy ===== *)
theory Circuit_Rollup
  imports Circuit_Insert_Props
begin

text \<open>
  The aggregation of aggregated transactions, \<open>aggregate_agg/aggregate.rs\<close>, and what the proof of a
  rollup shows: an accepted rollup leads from its old root to its new root by inserting exactly the
  leaves of the transactions whose roots, mint or burn hashes and values are its public inputs.
\<close>

section \<open>The circuit (aggregate\_agg/aggregate.rs)\<close>

text \<open>
  \<open>aggregates\<close> holds the first instance column of every verified aggregation; the first twelve of
  its cells are the accumulator. A column that is too short panics.
\<close>

fun chain_aggregates :: "'f \<Rightarrow> 'f list list \<Rightarrow> ('f \<times> 'f list) option" where
  "chain_aggregates last_new_root [] = Some (last_new_root, [])"
| "chain_aggregates last_new_root (agg # aggregates) = do {
     assert_that (14 \<le> length agg);
     let old_root = agg ! 12;
     let new_root = agg ! 13;
     constrain_equal last_new_root old_root;
     (last_new_root, recent_roots) \<leftarrow> chain_aggregates new_root aggregates;
     Some (last_new_root, drop 14 agg @ recent_roots) }"

definition aggregate_agg_enforce :: "'f list \<Rightarrow> 'f list list \<Rightarrow> 'f list \<Rightarrow> unit option" where
  "aggregate_agg_enforce agg_cells aggregates inst = do {
     constrain_instances agg_cells inst 0;
     old_root \<leftarrow> (case aggregates of
                    [] \<Rightarrow> None
                  | agg # _ \<Rightarrow> if 12 < length agg then Some (agg ! 12) else None);
     (last_new_root, recent_roots) \<leftarrow> chain_aggregates old_root aggregates;
     constrain_instance old_root inst 12;
     constrain_instance last_new_root inst 13;
     constrain_instances recent_roots inst 14 }"

section \<open>Soundness of the aggregation of transactions\<close>

lemma insert_chain_append:
  "insert_chain F n old xs mid \<Longrightarrow> insert_chain F n mid ys new \<Longrightarrow> insert_chain F n old (xs @ ys) new"
  by (induction F n old xs mid rule: insert_chain.induct) (auto split: if_splits)

lemma constrain_leaves_equal_iff [simp]:
  "constrain_leaves_equal ps = Some u \<longleftrightarrow> (\<forall>(a, b) \<in> set ps. a = b)"
  by (induction ps rule: constrain_leaves_equal.induct) (auto simp: some_bind)

lemma take_drop_eqI:
  assumes "\<forall>j < length xs. k + j < length ys \<and> xs ! j = ys ! (k + j)"
  shows "take (length xs) (drop k ys) = xs"
proof (cases xs rule: rev_cases)
  case (snoc zs z)
  then have "k + length zs < length ys" using assms by auto
  with assms show ?thesis by (intro nth_equalityI) (auto simp: snoc)
qed simp

lemma constrain_utxo_instances_sound:
  assumes "constrain_utxo_instances snarks inst k = Some rest" and "\<forall>s \<in> set snarks. length s = 7"
  shows "rest = concat (map (drop 3) snarks)
    \<and> take (3 * length snarks) (drop k inst) = concat (map (take 3) snarks)
    \<and> length rest = 4 * length snarks"
  using assms
proof (induction snarks arbitrary: k rest)
  case (Cons s snarks)
  from Cons.prems(1) obtain rs where
    rs: "constrain_utxo_instances snarks inst (k + 3) = Some rs" "rest = drop 3 s @ rs"
    and s: "k + 2 < length inst" "s ! 0 = inst ! k" "s ! 1 = inst ! (k + 1)" "s ! 2 = inst ! (k + 2)"
    by (auto simp: some_bind)
  have len: "length s = 7" using Cons.prems(2) by simp
  have "take 3 (drop k inst) = [inst ! k, inst ! (k + 1), inst ! (k + 2)]"
    using s(1) by (simp add: numeral_3_eq_3 numeral_2_eq_2 take_Suc_conv_app_nth)
  moreover have "take 3 s = [s ! 0, s ! 1, s ! 2]"
    using len by (simp add: numeral_3_eq_3 numeral_2_eq_2 take_Suc_conv_app_nth)
  ultimately have "take 3 (drop k inst) = take 3 s" by (simp only: s)
  moreover have "take (3 * length (s # snarks)) (drop k inst)
      = take 3 (drop k inst) @ take (3 * length snarks) (drop (k + 3) inst)"
    using take_add[of 3 "3 * length snarks" "drop k inst"] by (simp add: add.commute)
  moreover have IH: "rs = concat (map (drop 3) snarks)"
      "take (3 * length snarks) (drop (k + 3) inst) = concat (map (take 3) snarks)"
      "length rs = 4 * length snarks"
    using Cons.IH[OF rs(1)] Cons.prems(2) unfolding list.set ball_simps by blast+
  moreover have "length rest = 4 * length (s # snarks)" using IH(3) len by (simp add: rs(2))
  ultimately show ?case using rs(2) by (intro conjI) simp_all
qed simp

lemma aggregate_utxo_sound:
  fixes F :: "'f::field field_ops"
  assumes "aggregate_utxo_enforce F depth 0 agg_cells snarks inserts inst p = Some (r, p')"
    and "depth \<le> 257" and "\<forall>e. to_base F e = of_nat (unat e)"
    and "\<forall>i \<in> set inserts. length (il_path i) = depth - 1"
    and "length agg_cells = 12" and "\<forall>s \<in> set snarks. length s = 7"
    and "length inserts = 4 * length snarks"
  shows "\<exists>ins. insert_chain F (depth - 1) (inst ! 12) ins (inst ! 13)
    \<and> map (\<lambda>i. to_base F (fst i)) ins = concat (map (drop 3) snarks)
    \<and> take (3 * length snarks) (drop 14 inst) = concat (map (take 3) snarks)"
proof -
  from assms(1) obtain old new leafs q els where
    rows: "batch_rows F depth 0 old inserts q = Some ((new, leafs), p')"
    and i: "old = inst ! 12" "new = inst ! 13"
    and els: "constrain_utxo_instances snarks inst 14 = Some els"
    and eq: "\<forall>(a, b) \<in> set (take (length inserts) (zip els leafs)). a = b"
    by (auto simp: aggregate_utxo_enforce_def batch_enforce_def some_bind Let_def assms(5)
        numeral_eq_Suc split: prod.splits)
  from batch_rows_sound[OF rows assms(2-4)] obtain ins where
    ins: "leafs = map (\<lambda>i. to_base F (fst i)) ins" "length ins = length inserts"
      "insert_chain F (depth - 1) (inst ! 12) ins (inst ! 13)" unfolding i by blast
  note els' = constrain_utxo_instances_sound[OF els assms(6)]
  have len: "length els = length inserts" "length leafs = length inserts"
    using els'[THEN conjunct2, THEN conjunct2] ins(1,2) assms(7) by simp_all
  have "els = leafs"
  proof (rule nth_equalityI)
    fix j assume "j < length els"
    then have "(els ! j, leafs ! j) \<in> set (zip els leafs)" using len by (auto simp: in_set_zip)
    with eq len show "els ! j = leafs ! j" by auto
  qed (simp add: len)
  with ins els' show ?thesis by auto
qed

section \<open>Soundness of a rollup\<close>

text \<open>
  An aggregation of three transactions whose proof was accepted: some prover satisfied the circuit
  with these instances. The columns have the lengths the circuits fix.
\<close>

definition aggregate_proved :: "'f::field field_ops \<Rightarrow> nat \<Rightarrow> 'f list \<Rightarrow> 'f list list \<Rightarrow> bool" where
  "aggregate_proved F depth agg snarks \<longleftrightarrow> length snarks = 3 \<and> (\<forall>s \<in> set snarks. length s = 7)
     \<and> length agg = 14 + 9
     \<and> (\<exists>agg_cells inserts p r. length agg_cells = 12 \<and> length inserts = 12
          \<and> (\<forall>i \<in> set inserts. length (il_path i) = depth - 1)
          \<and> aggregate_utxo_enforce F depth 0 agg_cells snarks inserts agg p = Some r)"

lemma chain_aggregates_sound:
  fixes F :: "'f::field field_ops"
  assumes "chain_aggregates old aggs = Some (new, rr)" and "list_all2 (aggregate_proved F depth) aggs groups"
    and "depth \<le> 257" and "\<forall>e. to_base F e = of_nat (unat e)"
  shows "\<exists>ins. insert_chain F (depth - 1) old ins new
    \<and> map (\<lambda>i. to_base F (fst i)) ins = concat (map (drop 3) (concat groups))
    \<and> rr = concat (map (take 3) (concat groups))"
  using assms(1,2)
proof (induction aggs arbitrary: old new rr groups)
  case (Cons agg aggs)
  from Cons.prems(1) obtain rs where
    agg: "14 \<le> length agg" "old = agg ! 12" and rest: "chain_aggregates (agg ! 13) aggs = Some (new, rs)"
    and rr: "rr = drop 14 agg @ rs"
    by (auto simp: some_bind Let_def)
  from Cons.prems(2) obtain snarks gs where
    gs: "groups = snarks # gs" "aggregate_proved F depth agg snarks" "list_all2 (aggregate_proved F depth) aggs gs"
    by (auto simp: list_all2_Cons1)
  from gs(2) obtain ac inserts p r p' where
    p: "length ac = 12" "length inserts = 4 * length snarks" "\<forall>i \<in> set inserts. length (il_path i) = depth - 1"
      "aggregate_utxo_enforce F depth 0 ac snarks inserts agg p = Some (r, p')"
    and s: "\<forall>s \<in> set snarks. length s = 7" "length snarks = 3" "length agg = 23"
    by (auto simp: aggregate_proved_def)
  from aggregate_utxo_sound[OF p(4) assms(3,4) p(3,1) s(1) p(2)] obtain ins where
    ins: "insert_chain F (depth - 1) (agg ! 12) ins (agg ! 13)"
      "map (\<lambda>i. to_base F (fst i)) ins = concat (map (drop 3) snarks)"
      "take (3 * length snarks) (drop 14 agg) = concat (map (take 3) snarks)" by blast
  have "drop 14 agg = concat (map (take 3) snarks)" using ins(3) s(2,3) by simp
  moreover from Cons.IH[OF rest gs(3)] obtain ins' where
    "insert_chain F (depth - 1) (agg ! 13) ins' new"
    "map (\<lambda>i. to_base F (fst i)) ins' = concat (map (drop 3) (concat gs))"
    "rs = concat (map (take 3) (concat gs))" by blast
  ultimately show ?case
    using insert_chain_append[OF ins(1)] ins(2)
    by (intro exI[of _ "ins @ ins'"]) (simp add: gs(1) rr agg(2))
qed simp

text \<open>
  C2: Soundness of a rollup: if the last circuit and the circuits of the aggregations it verifies
  are satisfied, the public old root leads to the public new root by inserting the leaves of the
  transactions in their order, and the further public inputs are their roots, hashes and values. If
  the old root is that of a tree and no two different pairs hashed on the way have the same hash,
  no note of the rollup was in the tree or occurs twice, and the new root is that of the tree with
  the notes.
\<close>

theorem rollup_sound:
  fixes F :: "'f::field field_ops"
  assumes "aggregate_agg_enforce agg_cells aggs inst = Some ()"
    and "list_all2 (aggregate_proved F depth) aggs groups"
    and "depth \<le> 257" and "\<forall>e. to_base F e = of_nat (unat e)"
  shows "\<exists>ins. insert_chain F (depth - 1) (inst ! 12) ins (inst ! 13)
    \<and> map (\<lambda>i. to_base F (fst i)) ins = concat (map (drop 3) (concat groups))
    \<and> take (9 * length aggs) (drop 14 inst) = concat (map (take 3) (concat groups))
    \<and> (\<forall>f. inst ! 12 = spec_root (hash2 F) (depth - 1) f
           \<and> inj_on (\<lambda>(l, r). hash2 F l r) (chain_pairs F (depth - 1) f ins)
         \<longrightarrow> distinct (map (\<lambda>e. lsb e (depth - 1)) (chain_leaves F ins))
           \<and> (\<forall>e \<in> set (chain_leaves F ins). f (lsb e (depth - 1)) = 0)
           \<and> inst ! 13 = spec_root (hash2 F) (depth - 1) (with_leaves F (depth - 1) f (chain_leaves F ins)))"
proof -
  from assms(1) obtain old new rr where
    chain: "chain_aggregates old aggs = Some (new, rr)"
    and i: "old = inst ! 12" "new = inst ! 13"
    and rr: "\<forall>j < length rr. 14 + j < length inst \<and> rr ! j = inst ! (14 + j)"
    by (auto simp: aggregate_agg_enforce_def some_bind split: list.splits prod.splits if_splits)
  from chain_aggregates_sound[OF chain assms(2-4)] obtain ins where
    ins: "insert_chain F (depth - 1) (inst ! 12) ins (inst ! 13)"
      "map (\<lambda>i. to_base F (fst i)) ins = concat (map (drop 3) (concat groups))"
      "rr = concat (map (take 3) (concat groups))" unfolding i by blast
  have "length rr = 9 * length aggs"
    using assms(2) unfolding ins(3)
  proof (induction aggs groups rule: list_all2_induct)
    case (Cons a as g gs)
    then have g: "length g = 3" "\<forall>s \<in> set g. length s = 7" by (simp_all add: aggregate_proved_def)
    then obtain s1 s2 s3 where "g = [s1, s2, s3]" by (auto simp: numeral_3_eq_3 length_Suc_conv)
    with g Cons.IH show ?case by simp
  qed simp
  then have "take (9 * length aggs) (drop 14 inst) = rr"
    using take_drop_eqI[OF rr] by simp
  moreover have n: "depth - 1 \<le> 256" using assms(3) by simp
  have "distinct (map (\<lambda>e. lsb e (depth - 1)) (chain_leaves F ins))
      \<and> (\<forall>e \<in> set (chain_leaves F ins). f (lsb e (depth - 1)) = 0)
      \<and> inst ! 13 = spec_root (hash2 F) (depth - 1) (with_leaves F (depth - 1) f (chain_leaves F ins))"
    if "inst ! 12 = spec_root (hash2 F) (depth - 1) f \<and> inj_on (\<lambda>(l, r). hash2 F l r) (chain_pairs F (depth - 1) f ins)"
    for f by (rule insert_chain_tree[OF _ n]) (use ins(1) that in simp_all)
  ultimately show ?thesis using ins by blast
qed

end
