(* ===== verification/Circuit_Sample.thy ===== *)
theory Circuit_Sample
  imports Circuit_Rollup Complex_Main
begin

text \<open>
  Concrete instances of the circuits' theorems: a field, a hash and a transaction.
\<close>

section \<open>A concrete transaction\<close>

text \<open>
  The rationals with a small hash satisfy the hypotheses on the field: they let the theorems be
  applied to a transfer of \<open>3 + 2 = 4 + 1\<close> in a tree of depth 2.
\<close>

definition rat_field :: "rat field_ops" where
  "rat_field = \<lparr>from_raw = (\<lambda>ws. of_nat (limbs_value ws)),
     to_repr = (\<lambda>r. to_le_bytes (word_of_nat (nat \<lfloor>r\<rfloor>))),
     poseidon = (\<lambda>l. of_nat (unat (word_of_nat (nat \<lfloor>hd l\<rfloor> + length l) :: element)))\<rparr>"

lemma rat_to_base: "to_base rat_field e = of_nat (unat e)"
  by (simp add: to_base_def rat_field_def limbs_value_of_element del: of_nat_unat)

lemma rat_from_base: "from_base rat_field r = word_of_nat (nat \<lfloor>r\<rfloor>)"
  by (simp add: from_base_def rat_field_def)

lemma rat_poseidon: "poseidon rat_field l = of_nat (unat (word_of_nat (nat \<lfloor>hd l\<rfloor> + length l) :: element))"
  by (simp add: rat_field_def)

lemma word_of_nat_unat: "word_of_nat (unat (e :: element)) = e"
  by simp

lemma rat_field_ok: "fr_ok rat_field"
  unfolding fr_ok_def rat_to_base rat_from_base rat_poseidon
  by (auto simp: rat_field_def word_of_nat_unat simp del: of_nat_unat)

definition sample_input :: "element \<Rightarrow> element \<Rightarrow> input_note" where
  "sample_input v sibling =
     \<lparr>in_note = note_restore 9 0 v 9, in_secret_key = 7, in_merkle_path = [sibling]\<rparr>"

definition sample_utxo :: utxo where
  "sample_utxo = utxo_new_transfer [sample_input 3 8, sample_input 2 9]
     [note_restore 5 1 4 9, note_restore 6 1 1 9] 10"

lemma sample_utxo_valid: "utxo_valid rat_field 2 sample_utxo"
  by (simp add: utxo_valid_def sample_utxo_def utxo_new_transfer_def utxo_new_def utxo_shape_def
      sample_input_def input_valid_def output_valid_def note_wf_def note_restore_def
      rat_to_base rat_from_base rat_poseidon note_commitment_def hash_merge_def element_consts
      input_recent_root_def compute_root_def compute_root_from_leaf_def least_significant_bits_def
      lsb_eq_map)

lemma sample_inst:
  "utxo_public_inputs rat_field sample_utxo = [10, 0, 0, 13, 12, 10, 7]"
  by (simp add: utxo_public_inputs_def sample_utxo_def utxo_new_transfer_def utxo_new_def
      sample_input_def note_restore_def input_nullifier_def note_nullifier_def note_is_padding_def
      rat_to_base rat_from_base rat_poseidon note_commitment_def hash_merge_def element_consts
      padding_note_def Let_def)

lemma utxo_complete_witness:
  "utxo_synthesize rat_field 2 sample_utxo [10, 0, 0, 13, 12, 10, 7] Honest = Some ((), Honest)"
  using utxo_complete[OF rat_field_ok sample_utxo_valid] by (simp only: sample_inst)

lemma utxo_sound_witness:
  "\<exists>v1 v2 n1 n2. spends rat_field 2 10 13 v1 \<and> spends rat_field 2 10 12 v2
    \<and> creates rat_field 10 n1 \<and> creates rat_field 7 n2
    \<and> (\<forall>m1 m2. v1 = of_nat m1 \<and> v2 = of_nat m2 \<and> m1 < 2 ^ 240 \<and> m2 < 2 ^ 240
          \<longrightarrow> conserves [10, 0, 0, 13, 12, 10, 7 :: rat] m1 m2 n1 n2)"
proof -
  have run: "utxo_synthesize rat_field 2 sample_utxo [10, 0, 0, 13, 12, 10, 7] Honest = Some ((), Honest)"
    using utxo_synthesize_honest[OF rat_field_ok sample_utxo_valid] by (simp only: sample_inst)
  have shape: "utxo_shape 2 sample_utxo" using sample_utxo_valid by (simp add: utxo_valid_def)
  have inj: "inj_on (of_nat :: nat \<Rightarrow> rat) {..<2 ^ 241}" by (simp add: inj_on_def)
  show ?thesis
    using utxo_sound[OF run shape _ inj] by (simp add: rat_to_base element_consts) blast
qed

text \<open>A batch that inserts the leaf 4 into the left half of an empty tree, and nothing else.\<close>

definition sample_inserts :: "insert_leaf list" where
  "sample_inserts = \<lparr>il_leaf = 4, il_path = [0]\<rparr> # replicate 11 \<lparr>il_leaf = 0, il_path = [0]\<rparr>"

lemma rat_canonical: "fr_canonical rat_field"
  by (simp add: fr_canonical_def rat_to_base rat_from_base word_of_nat_unat del: of_nat_unat)

lemma rat_base: "\<forall>e. to_base rat_field e = of_nat (unat e)"
  by (simp only: rat_to_base simp_thms)

abbreviation no_insert :: insert_leaf where
  "no_insert \<equiv> \<lparr>il_leaf = 0, il_path = [0]\<rparr>"

lemma padding_linked: "batch_linked rat_field 2 r (replicate k no_insert) r"
  by (induction k) (simp_all add: canonical_iff MODULUS_def element_consts)

lemma first_linked:
  "is_canonical 4 \<and> insert_null_root rat_field 2 \<lparr>il_leaf = 4, il_path = [0]\<rparr> = 2
    \<and> insert_leaf_root rat_field 2 \<lparr>il_leaf = 4, il_path = [0]\<rparr> = 6"
  by (simp add: canonical_iff MODULUS_def element_consts insert_null_root_def insert_leaf_root_def
      compute_null_root_def compute_root_def compute_root_from_leaf_def least_significant_bits_def
      lsb_eq_map rat_to_base rat_from_base rat_poseidon)

lemma sample_linked: "batch_linked rat_field 2 2 sample_inserts 6"
  unfolding sample_inserts_def using first_linked padding_linked[of 6 11]
  by (simp add: element_consts del: replicate.simps)

lemma sample_length: "length sample_inserts = 12"
  by (simp add: sample_inserts_def)

lemma sample_rows:
  "batch_rows rat_field 2 0 2 sample_inserts Honest = Some ((6, 4 # replicate 11 0), Honest)"
proof -
  have "batch_leafs rat_field sample_inserts = 4 # replicate 11 0"
    by (simp add: batch_leafs_def sample_inserts_def rat_to_base)
  with batch_rows_honest[OF rat_field_ok rat_canonical _ sample_linked] show ?thesis
    by (simp del: batch_rows.simps)
qed

lemma sample_old_root: "batch_old_root rat_field 2 sample_inserts = Some 2"
  using sample_linked by (simp add: batch_old_root_def sample_inserts_def element_consts)

lemma sample_paths: "\<forall>i \<in> set sample_inserts. length (il_path i) = 2 - 1"
  by (simp add: sample_inserts_def)

lemma batch_sound_witness:
  "\<exists>ins. length ins = 12 \<and> to_base rat_field (fst (ins ! 0)) = 4 \<and> insert_chain rat_field 1 2 ins 6"
proof -
  let ?inst = "[2, 6] @ 4 # replicate 11 0 :: rat list"
  have "batch_synthesize rat_field 2 sample_inserts ?inst Honest = Some ((), Honest)"
    by (simp add: batch_synthesize_def batch_enforce_def sample_old_root assign_private_input_honest
        rat_to_base element_consts sample_rows batch_enforce_instances_def constrain_instance_def)
      (simp add: numeral_eq_Suc constrain_instance_def)
  from batch_sound[OF this _ rat_base sample_paths] obtain ins where ins: "length ins = 12"
    "insert_chain rat_field 1 2 ins 6"
    "\<forall>j<12. (4 # replicate 11 0) ! j = to_base rat_field (fst (ins ! j))"
    by (auto simp: sample_length)
  from ins(3) have "to_base rat_field (fst (ins ! 0)) = 4" by (drule_tac spec[of _ 0]) simp
  with ins(1,2) show ?thesis by blast
qed

definition sample_snarks :: "rat list list" where
  "sample_snarks = [[0, 0, 0, 4, 0, 0, 0], replicate 7 0, replicate 7 0]"

definition sample_agg :: "rat list" where
  "sample_agg = replicate 12 0 @ [2, 6] @ replicate 9 0"

lemma sample_proved: "aggregate_proved rat_field 2 sample_agg sample_snarks"
proof -
  have "aggregate_utxo_enforce rat_field 2 0 (replicate 12 0) sample_snarks sample_inserts sample_agg Honest
      = Some ((), Honest)"
    by (simp add: aggregate_utxo_enforce_def batch_enforce_def sample_old_root assign_private_input_honest
        sample_rows sample_agg_def sample_snarks_def sample_length constrain_instance_def)
      (simp add: numeral_eq_Suc constrain_instance_def assert_that_def constrain_equal_def)
  then show ?thesis
    using sample_paths sample_length unfolding aggregate_proved_def
    by (intro conjI exI[of _ "replicate 12 0"] exI[of _ sample_inserts] exI[of _ Honest] exI[of _ "((), Honest)"])
      (simp_all add: sample_snarks_def sample_agg_def)
qed

lemma rollup_sound_witness:
  "\<exists>ins. insert_chain rat_field 1 2 ins 6 \<and> map (\<lambda>i. to_base rat_field (fst i)) ins = 4 # replicate 11 0"
proof -
  have "aggregate_agg_enforce (replicate 12 0) [sample_agg] sample_agg = Some ()"
    by (simp add: aggregate_agg_enforce_def sample_agg_def constrain_instance_def)
      (simp add: numeral_eq_Suc constrain_instance_def assert_that_def constrain_equal_def)
  moreover have "list_all2 (aggregate_proved rat_field 2) [sample_agg] [sample_snarks]"
    using sample_proved by simp
  ultimately show ?thesis
    using rollup_sound[of "replicate 12 0" "[sample_agg]" sample_agg rat_field 2 "[sample_snarks]"] rat_base
    by (auto simp: sample_agg_def sample_snarks_def numeral_eq_Suc)
qed

end
