(* ===== verification/Prover_Batch.thy ===== *)
theory Prover_Batch
  imports Circuit_Insert_Props Smirk_Props Node_Block
begin

text \<open>
  Batches of the prover, \<open>gen_batch\<close> of \<open>pkg/prover/src/lib.rs\<close>: the leaves of a group of
  transactions are inserted into a copy of the tree of notes, each with its path, and the
  insertions become the batch circuit. The theorem is its completeness.
\<close>

section \<open>Constants (constants.rs)\<close>

definition UTXO_AGGREGATIONS :: nat where "UTXO_AGGREGATIONS = 2"
definition UTXO_AGG_NUMBER :: nat where "UTXO_AGG_NUMBER = 3"
definition UTXO_AGG_LEAVES :: nat where "UTXO_AGG_LEAVES = UTXO_AGG_NUMBER * (2 + 2)"
definition MAXIMUM_TXNS :: nat where "MAXIMUM_TXNS = UTXO_AGG_NUMBER * UTXO_AGGREGATIONS"
definition PROVER_TREE_DEPTH :: nat where "PROVER_TREE_DEPTH = 161"
definition MERKLE_TREE_PATH_DEPTH :: nat where "MERKLE_TREE_PATH_DEPTH = 160"

section \<open>Batches of insertions\<close>

type_synonym prover_tree = "(u64, simple_cache) smirk_tree"

definition merkle_path_new :: "nat \<Rightarrow> element list \<Rightarrow> merkle_path option" where
  "merkle_path_new depth siblings = (if depth - 1 = length siblings then Some siblings else None)"

text \<open>The insertion a path stands for: its deepest siblings, as many as the circuit takes.\<close>

definition insert_of_path :: "nat \<Rightarrow> nat \<Rightarrow> element \<Rightarrow> path \<Rightarrow> insert_leaf option" where
  "insert_of_path N path_depth leaf p =
     map_option (\<lambda>mp. \<lparr>il_leaf = leaf, il_path = mp\<rparr>)
       (merkle_path_new N (take path_depth (siblings_deepest_first N p)))"

text \<open>The leaves of a transaction: the instances from the fourth on, made canonical.\<close>

fun txn_leaves :: "'f field_ops \<Rightarrow> snark_witness \<Rightarrow> element list option" where
  "txn_leaves F (WitnessV1 proof) =
     (case sw_instances proof of
        [] \<Rightarrow> None
      | inst # _ \<Rightarrow> Some (map (\<lambda>f. from_base F (to_base F f)) (drop 3 inst)))"

fun gather_leaves :: "'f field_ops \<Rightarrow> snark_witness list \<Rightarrow> element list option" where
  "gather_leaves F [] = Some []"
| "gather_leaves F (t # txns) = do {
     l \<leftarrow> txn_leaves F t;
     ls \<leftarrow> gather_leaves F txns;
     Some (l @ ls) }"

fun gen_inserts ::
  "'f field_ops \<Rightarrow> nat \<Rightarrow> nat \<Rightarrow> path \<Rightarrow> u64 \<Rightarrow> prover_tree \<Rightarrow> element list \<Rightarrow>
     (collision list + prover_tree \<times> insert_leaf list) option" where
  "gen_inserts F N path_depth padding_path block t [] = Some (Inr (t, []))"
| "gen_inserts F N path_depth padding_path block t (leaf # els) =
     (if leaf = ZERO then do {
        i \<leftarrow> insert_of_path N path_depth leaf padding_path;
        r \<leftarrow> gen_inserts F N path_depth padding_path block t els;
        Some (map_sum id (\<lambda>(t, ins). (t, i # ins)) r) }
      else do {
        r \<leftarrow> tree_insert (hash_pair F) (simple_hash (hash_pair F)) N t leaf block;
        (case r of
           Inl e \<Rightarrow> Some (Inl e)
         | Inr t \<Rightarrow> do {
             path \<leftarrow> path_for (hash_pair F) N t leaf;
             i \<leftarrow> insert_of_path N path_depth leaf path;
             r \<leftarrow> gen_inserts F N path_depth padding_path block t els;
             Some (map_sum id (\<lambda>(t, ins). (t, i # ins)) r) }) })"

text \<open>The tree after the insertions, their number, the roots before and after, and the batch.\<close>

definition gen_batch ::
  "'f::field field_ops \<Rightarrow> nat \<Rightarrow> nat \<Rightarrow> nat \<Rightarrow> prover_tree \<Rightarrow> snark_witness list \<Rightarrow> u64 \<Rightarrow>
     (collision list + prover_tree \<times> nat \<times> element \<times> element \<times> insert_leaf list) option" where
  "gen_batch F N path_depth agg_leaves t txns current_block = do {
     old_tree \<leftarrow> root_hash (hash_pair F) t;
     padding_path \<leftarrow> path_for (hash_pair F) N t (note_commitment F (padding_note F));
     els \<leftarrow> gather_leaves F txns;
     r \<leftarrow> gen_inserts F N path_depth padding_path current_block t els;
     (case r of
        Inl e \<Rightarrow> Some (Inl e)
      | Inr (t, inserts) \<Rightarrow> do {
          new_tree \<leftarrow> root_hash (hash_pair F) t;
          assert_that (length inserts = agg_leaves);
          Some (Inr (t, length inserts, old_tree, new_tree, inserts)) }) }"

section \<open>What gen\_batch proves\<close>

lemma base_merkle_root:
  assumes "fr_ok F"
  shows "to_base F (compute_merkle_root (hash_pair F) h (zip ss ds))
    = field_root F (to_base F h) (zip ds (map (to_base F) ss))"
proof (induction ss ds arbitrary: h rule: list_induct2')
  case (4 s ss d ds)
  then show ?case by (auto simp: hash_merge_def fr_okD(3)[OF assms] split: bool.splits)
qed auto

lemma root_of_path:
  assumes "fr_ok F" and "Suc n \<le> 257"
    and "insert_of_path (Suc n) path_depth leaf p = Some i" and "path_element p = leaf"
    and "n \<le> path_depth" and "length (siblings_deepest_first (Suc n) p) = n"
  shows "insert_null_root F (Suc n) i = to_base F (compute_root_hash (hash_pair F) (Suc n) p NULL_HASH)"
    and "insert_leaf_root F (Suc n) i = to_base F (compute_root_hash (hash_pair F) (Suc n) p leaf)"
    and "il_leaf i = leaf" and "length (il_path i) = n"
proof -
  have i: "i = \<lparr>il_leaf = leaf, il_path = siblings_deepest_first (Suc n) p\<rparr>"
    using assms(3,5,6) by (auto simp: insert_of_path_def merkle_path_new_def split: if_splits)
  have bits: "least_significant_bits (Suc n) leaf = rev (path_lsb (Suc n) p)"
    using assms(4) by (simp add: least_significant_bits_def path_lsb_def)
  show "insert_null_root F (Suc n) i = to_base F (compute_root_hash (hash_pair F) (Suc n) p NULL_HASH)"
    "insert_leaf_root F (Suc n) i = to_base F (compute_root_hash (hash_pair F) (Suc n) p leaf)"
    using compute_root_from_leaf_eq[OF assms(1)]
    by (simp_all add: i insert_null_root_def insert_leaf_root_def compute_null_root_def compute_root_def
        compute_root_hash_def base_merkle_root[OF assms(1)] bits NULL_HASH_def)
  show "il_leaf i = leaf" "length (il_path i) = n" using assms(6) by (simp_all add: i)
qed

lemma path_for_shape:
  assumes "tree_inv hm cinv n t" and "n \<le> 256" and "path_for hm (Suc n) t e = Some p"
  shows "path_element p = e" and "length (siblings_deepest_first (Suc n) p) = n"
    and "compute_root_hash hm (Suc n) p x = spec_root hm n ((slots n (keys t))(lsb e n := x))"
proof -
  have p: "p = \<lparr>p_siblings = rev (spec_siblings hm (slots n (keys t)) (lsb e n)) @ [e],
      p_root_hash = spec_root hm n (slots n (keys t))\<rparr>"
    using path_for_eq[OF assms(1,2), of e] assms(3) by simp
  show "path_element p = e" "length (siblings_deepest_first (Suc n) p) = n"
    using assms(2) by (simp_all add: p path_element_def siblings_deepest_first_def)
  show "compute_root_hash hm (Suc n) p x = spec_root hm n ((slots n (keys t))(lsb e n := x))"
    unfolding p by (rule path_root[OF assms(2)])
qed

lemma insert_of_path_some:
  "length (siblings_deepest_first (Suc n) p) = n \<Longrightarrow> n \<le> path_depth \<Longrightarrow>
     \<exists>i. insert_of_path (Suc n) path_depth leaf p = Some i"
  by (simp add: insert_of_path_def merkle_path_new_def)

abbreviation non_zero :: "element list \<Rightarrow> element list" where
  "non_zero es \<equiv> filter (\<lambda>e. e \<noteq> ZERO) es"

abbreviation prover_inv :: "'f field_ops \<Rightarrow> nat \<Rightarrow> prover_tree \<Rightarrow> bool" where
  "prover_inv F n t \<equiv> tree_inv (hash_pair F) (simple_cache_ok (hash_pair F)) n t"

abbreviation prover_root :: "'f field_ops \<Rightarrow> nat \<Rightarrow> prover_tree \<Rightarrow> element" where
  "prover_root F n t \<equiv> spec_root (hash_pair F) n (slots n (keys t))"

lemma gen_inserts_ok:
  fixes F :: "'f::field field_ops"
  assumes ok: "fr_ok F" and n: "n \<le> 256" "n \<le> path_depth"
    and pad: "path_element pp = ZERO" "length (siblings_deepest_first (Suc n) pp) = n"
    and "prover_inv F n t" and "free_in n t (non_zero els)" and "keyed n (non_zero els)"
    and "\<forall>e \<in> set els. is_canonical e"
  shows "\<exists>t' ins. gen_inserts F (Suc n) path_depth pp block t els = Some (Inr (t', ins))
    \<and> prover_inv F n t' \<and> t_entries t' = add_entries (t_entries t) (map (\<lambda>e. (e, block)) (non_zero els))
    \<and> map il_leaf ins = els
    \<and> batch_linked F (Suc n) (to_base F (prover_root F n t)) ins (to_base F (prover_root F n t'))
    \<and> (\<forall>i \<in> set ins. il_leaf i = ZERO
          \<longrightarrow> insert_null_root F (Suc n) i = to_base F (compute_root_hash (hash_pair F) (Suc n) pp NULL_HASH))"
  using assms(6-)
proof (induction els arbitrary: t)
  case (Cons e els)
  have n': "Suc n \<le> 257" using n(1) by simp
  show ?case
  proof (cases "e = ZERO")
    case True
    obtain i where i: "insert_of_path (Suc n) path_depth ZERO pp = Some i"
      using insert_of_path_some[OF pad(2) n(2)] by blast
    note ip = root_of_path[OF ok n' i pad(1) n(2) pad(2)]
    have prems: "free_in n t (non_zero els)" "keyed n (non_zero els)" "\<forall>e \<in> set els. is_canonical e"
      using Cons.prems(2-4) True by simp_all
    from Cons.IH[OF Cons.prems(1) prems] obtain t' ins where
      "gen_inserts F (Suc n) path_depth pp block t els = Some (Inr (t', ins))" "prover_inv F n t'"
      "t_entries t' = add_entries (t_entries t) (map (\<lambda>e. (e, block)) (non_zero els))"
      "map il_leaf ins = els"
      "batch_linked F (Suc n) (to_base F (prover_root F n t)) ins (to_base F (prover_root F n t'))"
      "\<forall>i \<in> set ins. il_leaf i = ZERO
          \<longrightarrow> insert_null_root F (Suc n) i = to_base F (compute_root_hash (hash_pair F) (Suc n) pp NULL_HASH)"
      by blast
    then show ?thesis
      using True Cons.prems(4) i ip(1,3,4) by (intro exI[of _ t'] exI[of _ "i # ins"]) simp
  next
    case False
    have free: "free_in n t [e]" using Cons.prems(2) False by (auto simp: free_in_def)
    obtain t1 where t1: "tree_insert (hash_pair F) (simple_hash (hash_pair F)) (Suc n) t e block = Some (Inr t1)"
      "prover_inv F n t1" "t_entries t1 = bt_insert e block (t_entries t)"
      using simple.tree_insert_ok[OF Cons.prems(1) n(1) free] by blast
    obtain p where p: "path_for (hash_pair F) (Suc n) t1 e = Some p"
      using path_for_eq[OF t1(2) n(1)] by blast
    note ps = path_for_shape[OF t1(2) n(1) p]
    obtain i where i: "insert_of_path (Suc n) path_depth e p = Some i"
      using insert_of_path_some[OF ps(2) n(2)] by blast
    note ip = root_of_path[OF ok n' i ps(1) n(2) ps(2)]
    note roots = simple.path_after_insert[OF Cons.prems(1) t1(2) n(1) free t1(3) p]
    have prems: "free_in n t1 (non_zero els)" "keyed n (non_zero els)" "\<forall>e \<in> set els. is_canonical e"
      using Cons.prems(2-4) False by (auto simp: free_in_def t1(3))
    from Cons.IH[OF t1(2) prems] obtain t' ins where
      rest: "gen_inserts F (Suc n) path_depth pp block t1 els = Some (Inr (t', ins))" "prover_inv F n t'"
      "t_entries t' = add_entries (t_entries t1) (map (\<lambda>e. (e, block)) (non_zero els))"
      "map il_leaf ins = els"
      "batch_linked F (Suc n) (to_base F (prover_root F n t1)) ins (to_base F (prover_root F n t'))"
      "\<forall>i \<in> set ins. il_leaf i = ZERO
          \<longrightarrow> insert_null_root F (Suc n) i = to_base F (compute_root_hash (hash_pair F) (Suc n) pp NULL_HASH)"
      by blast
    have "batch_linked F (Suc n) (to_base F (prover_root F n t)) (i # ins) (to_base F (prover_root F n t'))"
      using rest(5) Cons.prems(4) False ip roots(1,2) by simp
    then show ?thesis
      using False t1(1,3) p i rest(1-4,6) ip(3) by (intro exI[of _ t'] exI[of _ "i # ins"]) simp
  qed
qed simp

lemma linked_new_root:
  assumes "batch_linked F depth root ins fin"
  shows "(case filter (\<lambda>i. \<not> insert_is_padding F i) (rev ins) of
           i # _ \<Rightarrow> insert_leaf_root F depth i | [] \<Rightarrow> root) = fin"
  using assms
proof (induction ins arbitrary: root)
  case (Cons i ins)
  show ?case
  proof (cases "il_leaf i = ZERO")
    case True
    with Cons show ?thesis by (simp add: insert_is_padding_def)
  next
    case False
    with Cons.prems have "batch_linked F depth (insert_leaf_root F depth i) ins fin" by simp
    from Cons.IH[OF this] False show ?thesis
      by (cases "filter (\<lambda>i. \<not> insert_is_padding F i) (rev ins)") (simp_all add: insert_is_padding_def)
  qed
qed simp

text \<open>What a group of transactions does to the tree, and the values of its batch.\<close>

lemma gen_batch_run:
  fixes F :: "'f::field field_ops"
  assumes "fr_ok F" and "n \<le> 256" and "n \<le> path_depth" and "prover_inv F n t"
    and "gather_leaves F txns = Some els" and "els \<noteq> []" and "\<forall>e \<in> set els. is_canonical e"
    and "free_in n t (non_zero els)" and "keyed n (non_zero els)"
    and "lsb ZERO n \<notin> (\<lambda>e. lsb e n) ` set (keys t)"
  shows "\<exists>t' ins. gen_batch F (Suc n) path_depth (length els) t txns block
      = Some (Inr (t', length els, prover_root F n t, prover_root F n t', ins))
    \<and> prover_inv F n t' \<and> t_entries t' = add_entries (t_entries t) (map (\<lambda>e. (e, block)) (non_zero els))
    \<and> map il_leaf ins = els
    \<and> batch_old_root F (Suc n) ins = Some (to_base F (prover_root F n t))
    \<and> batch_new_root F (Suc n) ins = Some (to_base F (prover_root F n t'))
    \<and> batch_linked F (Suc n) (to_base F (prover_root F n t)) ins (to_base F (prover_root F n t'))"
proof -
  let ?r = "prover_root F n"
  obtain pp where pp: "path_for (hash_pair F) (Suc n) t ZERO = Some pp"
    using path_for_eq[OF assms(4,2)] by blast
  note ps = path_for_shape[OF assms(4,2) pp]
  from gen_inserts_ok[OF assms(1,2,3) ps(1,2) assms(4,8,9,7)] obtain t' ins where
    ins: "gen_inserts F (Suc n) path_depth pp block t els = Some (Inr (t', ins))" "prover_inv F n t'"
      "t_entries t' = add_entries (t_entries t) (map (\<lambda>e. (e, block)) (non_zero els))" "map il_leaf ins = els"
      "batch_linked F (Suc n) (to_base F (?r t)) ins (to_base F (?r t'))"
      "\<forall>i \<in> set ins. il_leaf i = ZERO
        \<longrightarrow> insert_null_root F (Suc n) i = to_base F (compute_root_hash (hash_pair F) (Suc n) pp NULL_HASH)"
    by blast
  have roots: "root_hash (hash_pair F) t = Some (?r t)" "root_hash (hash_pair F) t' = Some (?r t')"
    using root_hash_spec[OF assms(4)] root_hash_spec[OF ins(2)] by simp_all
  have "slots n (keys t) (lsb ZERO n) = NULL_HASH" using assms(10) by (intro slots_free) auto
  then have zero: "compute_root_hash (hash_pair F) (Suc n) pp NULL_HASH = ?r t"
    unfolding ps(3) by (simp add: fun_upd_triv[of "slots n (keys t)" "lsb ZERO n"] fun_upd_idem)
  have len: "length ins = length els" using ins(4) by (metis length_map)
  obtain i rest where i: "ins = i # rest" using assms(6) ins(4) by (cases ins) auto
  have old: "batch_old_root F (Suc n) ins = Some (to_base F (?r t))"
    using ins(5,6) zero by (cases "il_leaf i = ZERO") (auto simp: batch_old_root_def i)
  have new: "batch_new_root F (Suc n) ins = Some (to_base F (?r t'))"
    using linked_new_root[OF ins(5)] by (auto simp: batch_new_root_def old split: list.splits)
  have "gen_batch F (Suc n) path_depth (length els) t txns block
      = Some (Inr (t', length els, ?r t, ?r t', ins))"
    by (simp add: gen_batch_def roots pp assms(5) ins(1) len assert_that_def)
  with ins(2-5) old new show ?thesis by blast
qed

text \<open>
  C9: Completeness of a group's batch: for leaves whose slots are free, \<open>gen_batch\<close> adds exactly the
  non-zero leaves to the tree, and the honest prover satisfies the batch circuit with the
  insertions it returns; the public inputs are the root of the tree before, the root after, and
  the leaves.
\<close>

theorem gen_batch_proves:
  fixes F :: "'f::field field_ops"
  assumes "fr_ok F" and "fr_canonical F" and "n \<le> 256" and "n \<le> path_depth" and "prover_inv F n t"
    and "gather_leaves F txns = Some els" and "els \<noteq> []" and "\<forall>e \<in> set els. is_canonical e"
    and "free_in n t (non_zero els)" and "keyed n (non_zero els)"
    and "lsb ZERO n \<notin> (\<lambda>e. lsb e n) ` set (keys t)"
  shows "\<exists>t' h h' ins. gen_batch F (Suc n) path_depth (length els) t txns block
      = Some (Inr (t', length els, h, h', ins))
    \<and> root_hash (hash_pair F) t = Some h \<and> root_hash (hash_pair F) t' = Some h'
    \<and> t_entries t' = add_entries (t_entries t) (map (\<lambda>e. (e, block)) (non_zero els))
    \<and> batch_public_inputs F (Suc n) ins = Some ([to_base F h, to_base F h'] @ map (to_base F) els)
    \<and> batch_synthesize F (Suc n) ins ([to_base F h, to_base F h'] @ map (to_base F) els) Honest
        = Some ((), Honest)"
proof -
  let ?r = "prover_root F n"
  from gen_batch_run[OF assms(1,3-11)] obtain t' ins where
    run: "gen_batch F (Suc n) path_depth (length els) t txns block
      = Some (Inr (t', length els, ?r t, ?r t', ins))" "prover_inv F n t'"
      "t_entries t' = add_entries (t_entries t) (map (\<lambda>e. (e, block)) (non_zero els))" "map il_leaf ins = els"
      "batch_old_root F (Suc n) ins = Some (to_base F (?r t))"
      "batch_new_root F (Suc n) ins = Some (to_base F (?r t'))"
      "batch_linked F (Suc n) (to_base F (?r t)) ins (to_base F (?r t'))" by blast
  have leafs: "batch_leafs F ins = map (to_base F) els"
    unfolding batch_leafs_def run(4)[symmetric] by simp
  have "batch_public_inputs F (Suc n) ins = Some ([to_base F (?r t), to_base F (?r t')] @ map (to_base F) els)"
    by (simp add: batch_public_inputs_def run(5,6) leafs)
  moreover have "batch_enforce_instances \<lparr>bc_old_root = to_base F (?r t), bc_new_root = to_base F (?r t'),
      bc_leafs = batch_leafs F ins\<rparr> ([to_base F (?r t), to_base F (?r t')] @ map (to_base F) els) = Some ()"
    by (simp add: batch_enforce_instances_def constrain_instance_def leafs)
  then have "batch_synthesize F (Suc n) ins ([to_base F (?r t), to_base F (?r t')] @ map (to_base F) els) Honest
      = Some ((), Honest)"
    using batch_rows_honest[OF assms(1,2) _ run(7)] assms(3)
    by (simp add: batch_synthesize_def batch_enforce_def run(5) assign_private_input_honest
        fr_ok_simps[OF assms(1)])
  ultimately show ?thesis
    using run(1,3) root_hash_spec[OF assms(5)] root_hash_spec[OF run(2)] by blast
qed

end
