(* ===== verification/Prover.thy ===== *)
theory Prover
  imports Prover_Batch Circuit_Rollup
begin

text \<open>
  The prover, \<open>pkg/prover/src/lib.rs\<close>: \<open>generate_aggregate_proof\<close> fills a block up with padding
  transactions, aggregates its groups one after the other and then the aggregations; \<open>prove\<close> reads
  the result off the public inputs (\<open>rollup\<close>, its transaction to Ethereum, is left out). With it the native halves of
  \<open>aggregate_utxo/aggregate.rs\<close> and \<open>aggregate_agg/aggregate.rs\<close>. The proof systems are
  dependencies: the record \<open>prover_env\<close> holds the accumulator of some proofs, or \<open>None\<close> when reading one
  of them panics, and the bytes of a proof, given the circuit with its witness and the public inputs. Keys and parameters are left out.
\<close>

section \<open>Proofs with their public inputs (snark.rs, proof\_format.rs)\<close>

record 'f snark =
  sn_instances :: "'f list list"
  sn_proof :: "u8 list"

definition fr_instances :: "'f field_ops \<Rightarrow> snark_witness_v1 \<Rightarrow> 'f list list" where
  "fr_instances F w = map (map (to_base F)) (sw_instances w)"

definition snark_from_witness :: "'f field_ops \<Rightarrow> snark_witness_v1 \<Rightarrow> 'f snark" where
  "snark_from_witness F w = \<lparr>sn_instances = fr_instances F w, sn_proof = sw_proof w\<rparr>"

definition snark_to_witness :: "'f field_ops \<Rightarrow> 'f snark \<Rightarrow> snark_witness_v1" where
  "snark_to_witness F s = \<lparr>sw_instances = map (map (from_base F)) (sn_instances s), sw_proof = sn_proof s\<rparr>"

record 'f aggregate_utxo =
  au_utxo :: "'f snark list"
  au_insert :: "insert_leaf list"
  au_agg_instances :: "'f list"
  au_proof :: "u8 list"

record 'f aggregate_agg =
  aa_aggregates :: "'f snark list"
  aa_agg_instances :: "element list"
  aa_proof :: "u8 list"

text \<open>The circuits a proof can be made of, with their witnesses.\<close>

datatype 'f circuit =
  UtxoCircuit utxo | AggUtxoCircuit "'f aggregate_utxo" | AggAggCircuit "'f aggregate_agg"

record 'f prover_env =
  accumulator_native :: "'f snark list \<Rightarrow> ('f list \<times> u8 list) option"
  create_proof :: "'f circuit \<Rightarrow> 'f list list \<Rightarrow> u8 list option"
  evm_gen_proof :: "'f circuit \<Rightarrow> 'f list list \<Rightarrow> u8 list option"

text \<open>\<open>Snark::create\<close> panics when the proof cannot be made.\<close>

definition snark_create :: "'f prover_env \<Rightarrow> 'f circuit \<Rightarrow> 'f list list \<Rightarrow> 'f snark option" where
  "snark_create E circuit insts =
     map_option (\<lambda>proof. \<lparr>sn_instances = insts, sn_proof = proof\<rparr>) (create_proof E circuit insts)"

definition utxo_snark :: "'f::field prover_env \<Rightarrow> 'f field_ops \<Rightarrow> utxo \<Rightarrow> 'f snark option" where
  "utxo_snark E F u = snark_create E (UtxoCircuit u) [utxo_public_inputs F u]"

section \<open>Default circuits (data.rs)\<close>

definition note_default :: utxo_note where
  "note_default = \<lparr>nt_address = ZERO, nt_psi = ZERO, nt_value = ZERO, nt_token = '''', nt_source = ZERO\<rparr>"

definition input_note_default :: "'f field_ops \<Rightarrow> nat \<Rightarrow> input_note" where
  "input_note_default F N =
     \<lparr>in_note = note_default, in_secret_key = ZERO, in_merkle_path = default_path F N\<rparr>"

definition utxo_default :: "'f field_ops \<Rightarrow> nat \<Rightarrow> utxo" where
  "utxo_default F N =
     \<lparr>ux_inputs = replicate 2 (input_note_default F N), ux_outputs = replicate 2 note_default,
      ux_root = ZERO, ux_kind = utxo_kind_default\<rparr>"

definition insert_default :: "'f field_ops \<Rightarrow> nat \<Rightarrow> insert_leaf" where
  "insert_default F N = \<lparr>il_leaf = ZERO, il_path = default_path F N\<rparr>"

definition batch_default :: "'f field_ops \<Rightarrow> nat \<Rightarrow> nat \<Rightarrow> insert_leaf list" where
  "batch_default F N inserts = replicate inserts (insert_default F N)"

section \<open>Aggregated transactions (aggregate\_utxo/aggregate.rs, circuit.rs)\<close>

definition aggregate_utxo_new ::
  "'f prover_env \<Rightarrow> 'f snark list \<Rightarrow> insert_leaf list \<Rightarrow> 'f aggregate_utxo option" where
  "aggregate_utxo_new E utxos batch = do {
     (agg_instances, proof) \<leftarrow> accumulator_native E utxos;
     Some \<lparr>au_utxo = utxos, au_insert = batch, au_agg_instances = agg_instances, au_proof = proof\<rparr> }"

text \<open>A transaction without three instances panics, as an empty batch does.\<close>

fun utxo_values :: "'f snark list \<Rightarrow> 'f list option" where
  "utxo_values [] = Some []"
| "utxo_values (s # snarks) =
     (case sn_instances s of
        (recent_root # mb_hash # v # _) # _ \<Rightarrow>
          map_option (\<lambda>rest. [recent_root, mb_hash, v] @ rest) (utxo_values snarks)
      | _ \<Rightarrow> None)"

definition agg_utxo_public_inputs ::
  "'f::field field_ops \<Rightarrow> nat \<Rightarrow> 'f aggregate_utxo \<Rightarrow> 'f list option" where
  "agg_utxo_public_inputs F N a = do {
     old_root \<leftarrow> batch_old_root F N (au_insert a);
     new_root \<leftarrow> batch_new_root F N (au_insert a);
     vals \<leftarrow> utxo_values (au_utxo a);
     Some (au_agg_instances a @ [old_root, new_root] @ vals) }"

text \<open>
  The circuit of an aggregation. The chip that verifies the transactions gives the cells of the
  accumulator and of their first instance columns.
\<close>

definition agg_utxo_synthesize ::
  "'f::field field_ops \<Rightarrow> nat \<Rightarrow> 'f aggregate_utxo \<Rightarrow> 'f list \<Rightarrow> 'f list list \<Rightarrow> 'f list \<Rightarrow> 'f prover \<Rightarrow>
     (unit \<times> 'f prover) option" where
  "agg_utxo_synthesize F N a agg_cells utxo_cells inst p =
     aggregate_utxo_enforce F N (to_base F (note_commitment F (padding_note F)))
       agg_cells utxo_cells (au_insert a) inst p"

definition agg_utxo_default ::
  "'f::field prover_env \<Rightarrow> 'f field_ops \<Rightarrow> nat \<Rightarrow> nat \<Rightarrow> nat \<Rightarrow> 'f aggregate_utxo option" where
  "agg_utxo_default E F N utxo_n agg_leaves = do {
     s \<leftarrow> utxo_snark E F (utxo_default F N);
     aggregate_utxo_new E (replicate utxo_n s) (batch_default F N agg_leaves) }"

text \<open>The proof is made from the default circuit, with the public inputs of \<open>a\<close>.\<close>

definition agg_utxo_snark ::
  "'f::field prover_env \<Rightarrow> 'f field_ops \<Rightarrow> nat \<Rightarrow> nat \<Rightarrow> nat \<Rightarrow> 'f aggregate_utxo \<Rightarrow> 'f snark option" where
  "agg_utxo_snark E F N utxo_n agg_leaves a = do {
     d \<leftarrow> agg_utxo_default E F N utxo_n agg_leaves;
     inst \<leftarrow> agg_utxo_public_inputs F N a;
     snark_create E (AggUtxoCircuit d) [inst] }"

section \<open>Aggregated aggregations (aggregate\_agg/aggregate.rs)\<close>

definition aggregate_agg_new ::
  "'f prover_env \<Rightarrow> 'f field_ops \<Rightarrow> 'f snark list \<Rightarrow> 'f aggregate_agg option" where
  "aggregate_agg_new E F aggregates = do {
     (agg_instances, proof) \<leftarrow> accumulator_native E aggregates;
     Some \<lparr>aa_aggregates = aggregates, aa_agg_instances = map (from_base F) agg_instances, aa_proof = proof\<rparr> }"

text \<open>The first instance column of a proof; \<open>None\<close> where the index is out of range.\<close>

fun column :: "'f snark \<Rightarrow> 'f list option" where
  "column s = (case sn_instances s of c # _ \<Rightarrow> Some c | [] \<Rightarrow> None)"

definition agg_agg_old_root :: "'f aggregate_agg \<Rightarrow> 'f option" where
  "agg_agg_old_root a =
     (case aa_aggregates a of
        s # _ \<Rightarrow> Option.bind (column s) (\<lambda>c. if 12 < length c then Some (c ! 12) else None)
      | [] \<Rightarrow> None)"

definition agg_agg_new_root :: "'f aggregate_agg \<Rightarrow> 'f option" where
  "agg_agg_new_root a =
     (case rev (aa_aggregates a) of
        s # _ \<Rightarrow> Option.bind (column s) (\<lambda>c. if 13 < length c then Some (c ! 13) else None)
      | [] \<Rightarrow> None)"

fun agg_agg_utxo_values :: "'f snark list \<Rightarrow> 'f list option" where
  "agg_agg_utxo_values [] = Some []"
| "agg_agg_utxo_values (s # snarks) = do {
     c \<leftarrow> column s;
     assert_that (14 \<le> length c);
     rest \<leftarrow> agg_agg_utxo_values snarks;
     Some (drop 14 c @ rest) }"

definition agg_agg_public_inputs :: "'f field_ops \<Rightarrow> 'f aggregate_agg \<Rightarrow> 'f list option" where
  "agg_agg_public_inputs F a = do {
     old_root \<leftarrow> agg_agg_old_root a;
     new_root \<leftarrow> agg_agg_new_root a;
     vals \<leftarrow> agg_agg_utxo_values (aa_aggregates a);
     Some (map (to_base F) (aa_agg_instances a) @ [old_root, new_root] @ vals) }"

definition agg_agg_snark ::
  "'f prover_env \<Rightarrow> 'f field_ops \<Rightarrow> 'f aggregate_agg \<Rightarrow> 'f snark option" where
  "agg_agg_snark E F a = do {
     inst \<leftarrow> agg_agg_public_inputs F a;
     snark_create E (AggAggCircuit a) [inst] }"

section \<open>Proving a block\<close>

text \<open>The errors of the prover that its own code returns; those of Ethereum keep their cause.\<close>

datatype 'x prover_error =
  RollupTransactionTimeout | PZk | PSmirkCollision "collision list" | PContract 'x | PWeb3 'x

record prover_proof =
  pr_proof :: "u8 list"
  pr_agg_instances :: "element list"
  pr_old_root :: element
  pr_new_root :: element
  pr_utxo_hashes :: "element list"

definition aggregate_utxo_group ::
  "'f::field prover_env \<Rightarrow> 'f field_ops \<Rightarrow> prover_tree \<Rightarrow> snark_witness list \<Rightarrow> u64 \<Rightarrow>
     ('x prover_error + prover_tree \<times> 'f aggregate_utxo) option" where
  "aggregate_utxo_group E F t utxos current_block =
     (case gen_batch F PROVER_TREE_DEPTH MERKLE_TREE_PATH_DEPTH UTXO_AGG_LEAVES t utxos current_block of
        None \<Rightarrow> None
      | Some (Inl e) \<Rightarrow> Some (Inl (PSmirkCollision e))
      | Some (Inr (t, _, _, _, batch)) \<Rightarrow>
          map_option (\<lambda>a. Inr (t, a))
            (aggregate_utxo_new E (map (\<lambda>u. case u of WitnessV1 proof \<Rightarrow> snark_from_witness F proof) utxos) batch))"

definition padding_txn ::
  "'f::field prover_env \<Rightarrow> 'f field_ops \<Rightarrow> snark_witness option" where
  "padding_txn E F =
     map_option (\<lambda>s. WitnessV1 (snark_to_witness F s))
       (utxo_snark E F (utxo_new_padding F PROVER_TREE_DEPTH))"

fun txns_or_padding ::
  "'f::field prover_env \<Rightarrow> 'f field_ops \<Rightarrow> snark_witness option list \<Rightarrow> snark_witness list option" where
  "txns_or_padding E F [] = Some []"
| "txns_or_padding E F (t # ts) = do {
     t \<leftarrow> (case t of Some t \<Rightarrow> Some t | None \<Rightarrow> padding_txn E F);
     ts \<leftarrow> txns_or_padding E F ts;
     Some (t # ts) }"

text \<open>The loop over the groups; the iterator goes on where the previous group ended.\<close>

fun aggregate_groups ::
  "'f::field prover_env \<Rightarrow> 'f field_ops \<Rightarrow> u64 \<Rightarrow> nat \<Rightarrow> prover_tree \<Rightarrow> snark_witness option list \<Rightarrow>
     ('x prover_error + prover_tree \<times> 'f aggregate_utxo list) option" where
  "aggregate_groups E F current_block 0 t txns = Some (Inr (t, []))"
| "aggregate_groups E F current_block (Suc rounds) t txns = do {
     group \<leftarrow> txns_or_padding E F (take 3 txns);
     assert_that (length group = UTXO_AGG_NUMBER);
     try_bind (aggregate_utxo_group E F t group current_block) (\<lambda>(t, a).
     try_bind (aggregate_groups E F current_block rounds t (drop 3 txns)) (\<lambda>(t, as).
     Some (Inr (t, a # as)))) }"

fun agg_utxo_snarks ::
  "'f::field prover_env \<Rightarrow> 'f field_ops \<Rightarrow> 'f aggregate_utxo list \<Rightarrow> 'f snark list option" where
  "agg_utxo_snarks E F [] = Some []"
| "agg_utxo_snarks E F (a # as) = do {
     s \<leftarrow> agg_utxo_snark E F PROVER_TREE_DEPTH UTXO_AGG_NUMBER UTXO_AGG_LEAVES a;
     ss \<leftarrow> agg_utxo_snarks E F as;
     Some (s # ss) }"

definition generate_aggregate_proof ::
  "'f::field prover_env \<Rightarrow> 'f field_ops \<Rightarrow> prover_tree \<Rightarrow> snark_witness option list \<Rightarrow> u64 \<Rightarrow>
     ('x prover_error + 'f aggregate_agg \<times> u8 list) option" where
  "generate_aggregate_proof E F t txns current_block =
     try_bind (aggregate_groups E F current_block UTXO_AGGREGATIONS t txns) (\<lambda>(_, utxo_aggregations). do {
       snarks \<leftarrow> agg_utxo_snarks E F utxo_aggregations;
       agg \<leftarrow> aggregate_agg_new E F snarks;
       s \<leftarrow> agg_agg_snark E F agg;
       agg \<leftarrow> aggregate_agg_new E F [s];
       inst \<leftarrow> agg_agg_public_inputs F agg;
       (case evm_gen_proof E (AggAggCircuit agg) [inst] of
          None \<Rightarrow> Some (Inl PZk)
        | Some proof \<Rightarrow> Some (Inr (agg, proof))) })"

definition prove ::
  "'f::field prover_env \<Rightarrow> 'f field_ops \<Rightarrow> prover_tree \<Rightarrow> u64 \<Rightarrow> snark_witness option list \<Rightarrow>
     ('x prover_error + prover_proof) option" where
  "prove E F notes_tree height txns =
     try_bind (generate_aggregate_proof E F notes_tree txns height) (\<lambda>(agg, proof). do {
       old_root \<leftarrow> agg_agg_old_root agg;
       new_root \<leftarrow> agg_agg_new_root agg;
       vals \<leftarrow> agg_agg_utxo_values (aa_aggregates agg);
       Some (Inr \<lparr>pr_proof = proof, pr_agg_instances = aa_agg_instances agg,
                  pr_old_root = from_base F old_root, pr_new_root = from_base F new_root,
                  pr_utxo_hashes = map (from_base F) vals\<rparr>) })"

section \<open>Paths (get\_proof, compliance\_check)\<close>

definition prover_get_proof ::
  "'f field_ops \<Rightarrow> ('v, 'c) smirk_tree \<Rightarrow> 'f \<Rightarrow> 'f list option" where
  "prover_get_proof F notes_tree note_cm = do {
     path \<leftarrow> path_for (hash_pair F) PROVER_TREE_DEPTH notes_tree (from_base F note_cm);
     Some (map (to_base F) (siblings_deepest_first PROVER_TREE_DEPTH path)) }"

definition compliance_check ::
  "'f field_ops \<Rightarrow> ('v, 'c) smirk_tree \<Rightarrow> 'f \<Rightarrow> (bool \<times> 'f list) option" where
  "compliance_check F ban_tree address = do {
     let el = from_base F address;
     path \<leftarrow> path_for (hash_pair F) PROVER_TREE_DEPTH ban_tree el;
     Some (contains_element ban_tree el, map (to_base F) (siblings_deepest_first PROVER_TREE_DEPTH path)) }"

end
