(* ===== verification/Prover_Props.thy ===== *)
theory Prover_Props
  imports Prover
begin

text \<open>
  What \<open>prove\<close> returns for the transactions of a block, and which circuit the proofs of the
  aggregations are made of.
\<close>

section \<open>What the proof system gives\<close>

text \<open>
  Proofs are created, and the accumulator, with its twelve instances, exists for proofs that can be read;
  the created ones can. What \<open>readable\<close> is stays open: reading any other proof may panic.
\<close>

definition proofs_work :: "'f prover_env \<Rightarrow> ('f snark \<Rightarrow> bool) \<Rightarrow> bool" where
  "proofs_work E readable \<longleftrightarrow>
     (\<forall>c i. \<exists>pf. create_proof E c i = Some pf \<and> readable \<lparr>sn_instances = i, sn_proof = pf\<rparr>)
     \<and> (\<forall>c i. evm_gen_proof E c i \<noteq> None)
     \<and> (\<forall>ss. (\<forall>s \<in> set ss. readable s) \<longrightarrow>
          (\<exists>cells pf. accumulator_native E ss = Some (cells, pf) \<and> length cells = 12))"

lemma proofs_workD:
  assumes "proofs_work E readable"
  shows "\<exists>pf. create_proof E c i = Some pf \<and> readable \<lparr>sn_instances = i, sn_proof = pf\<rparr>"
    "evm_gen_proof E c i \<noteq> None"
    "\<forall>s \<in> set ss. readable s \<Longrightarrow> \<exists>cells pf. accumulator_native E ss = Some (cells, pf) \<and> length cells = 12"
  using assms unfolding proofs_work_def by blast+

definition txn_snark :: "'f field_ops \<Rightarrow> snark_witness \<Rightarrow> 'f snark" where
  "txn_snark F w = (case w of WitnessV1 p \<Rightarrow> snark_from_witness F p)"

section \<open>Transactions and padding\<close>

text \<open>A transaction with the given instances; the padding transaction has seven zeros.\<close>

definition has_instances :: "snark_witness \<Rightarrow> element list \<Rightarrow> bool" where
  "has_instances w i \<longleftrightarrow> (\<exists>proof. w = WitnessV1 \<lparr>sw_instances = [i], sw_proof = proof\<rparr>)"

definition slot_instances :: "snark_witness option \<Rightarrow> element list \<Rightarrow> bool" where
  "slot_instances t i = (case t of Some w \<Rightarrow> has_instances w i | None \<Rightarrow> i = replicate 7 ZERO)"

abbreviation instances_ok :: "element list \<Rightarrow> bool" where
  "instances_ok i \<equiv> length i = 7 \<and> (\<forall>e \<in> set i. is_canonical e)"

lemma padding_inputs:
  assumes "fr_ok F"
  shows "utxo_public_inputs F (utxo_new_padding F N) = replicate 7 0"
  by (simp add: utxo_public_inputs_def utxo_new_padding_def utxo_new_def input_padding_note_def
      input_nullifier_def note_nullifier_def note_is_padding_def numeral_eq_Suc fr_ok_simps[OF assms])

lemma canonical_zero: "is_canonical ZERO"
  by (simp add: canonical_iff element_consts MODULUS_def)

lemma padding_txn_instances:
  assumes "fr_ok F" "fr_canonical F" "proofs_work E readable"
  shows "\<exists>w. padding_txn E F = Some w \<and> has_instances w (replicate 7 ZERO) \<and> readable (txn_snark F w)"
proof -
  have zero: "from_base F 0 = ZERO" "to_base F ZERO = 0"
    using assms(2) canonical_zero fr_ok_simps(1)[OF assms(1)] by (metis fr_canonical_def)+
  obtain pf where "create_proof E (UtxoCircuit (utxo_new_padding F PROVER_TREE_DEPTH)) [replicate 7 0] = Some pf"
    "readable \<lparr>sn_instances = [replicate 7 0], sn_proof = pf\<rparr>"
    using proofs_workD(1)[OF assms(3)] by blast
  then show ?thesis
    by (auto simp: padding_txn_def utxo_snark_def snark_create_def snark_to_witness_def has_instances_def
        txn_snark_def snark_from_witness_def fr_instances_def padding_inputs[OF assms(1)] zero)
qed

lemma txns_or_padding_ok:
  assumes "fr_ok F" "fr_canonical F" "proofs_work E readable" "list_all2 slot_instances ts is"
    and "\<forall>w. Some w \<in> set ts \<longrightarrow> readable (txn_snark F w)"
  shows "\<exists>ws. txns_or_padding E F ts = Some ws \<and> list_all2 has_instances ws is \<and> (\<forall>w \<in> set ws. readable (txn_snark F w))"
  using assms(4,5)
proof (induction rule: list_all2_induct)
  case (Cons t ts i "is")
  obtain w where "padding_txn E F = Some w" "has_instances w (replicate 7 ZERO)" "readable (txn_snark F w)"
    using padding_txn_instances[OF assms(1-3)] by blast
  with Cons show ?case by (cases t) (auto simp: slot_instances_def)
qed simp

lemma gather_instances:
  assumes "fr_ok F" "fr_canonical F" "list_all2 has_instances ws is" "\<forall>i \<in> set is. instances_ok i"
  shows "gather_leaves F ws = Some (concat (map (drop 3) is))"
  using assms(3,4)
proof (induction rule: list_all2_induct)
  case (Cons w ws i "is")
  have "map (\<lambda>f. from_base F (to_base F f)) (drop 3 i) = drop 3 i"
    using Cons.prems assms(2) by (intro map_idI) (auto simp: fr_canonical_def dest: in_set_dropD)
  with Cons show ?case by (auto simp: has_instances_def)
qed simp

section \<open>One group\<close>

abbreviation field_values :: "'f field_ops \<Rightarrow> element list list \<Rightarrow> 'f list" where
  "field_values F is \<equiv> concat (map (\<lambda>i. map (to_base F) (take 3 i)) is)"

abbreviation group_leaves :: "element list list \<Rightarrow> element list" where
  "group_leaves is \<equiv> concat (map (drop 3) is)"

lemma utxo_values_ok:
  assumes "list_all2 has_instances ws is" "\<forall>i \<in> set is. instances_ok i"
  shows "utxo_values (map (\<lambda>u. case u of WitnessV1 proof \<Rightarrow> snark_from_witness F proof) ws)
    = Some (field_values F is)"
  using assms
proof (induction rule: list_all2_induct)
  case (Cons w ws i "is")
  then obtain a b c rest where "i = a # b # c # rest"
    by (auto simp: numeral_eq_Suc length_Suc_conv)
  with Cons show ?case
    by (auto simp: has_instances_def snark_from_witness_def fr_instances_def)
qed simp

text \<open>The new notes fit into the tree, beside the slot of the null leaf.\<close>

definition leaves_fit :: "prover_tree \<Rightarrow> element list \<Rightarrow> bool" where
  "leaves_fit t els \<longleftrightarrow> free_in 160 t (non_zero els) \<and> keyed 160 (non_zero els)
     \<and> lsb ZERO 160 \<notin> (\<lambda>e. lsb e 160) ` (set (keys t) \<union> set (non_zero els))"

lemma leaves_fit_first: "leaves_fit t (a @ b) \<Longrightarrow> leaves_fit t a"
  by (auto simp: leaves_fit_def free_in_def)

lemma leaves_fit_rest:
  assumes "leaves_fit t (a @ b)" "t_entries t' = add_entries (t_entries t) (map (\<lambda>e. (e, h)) (non_zero a))"
  shows "leaves_fit t' b"
proof -
  let ?es = "map (\<lambda>e. (e, h)) (non_zero a)" and ?fs = "map (\<lambda>e. (e, h)) (non_zero b)"
  have ids: "map fst ?es = non_zero a" "map fst ?fs = non_zero b" by (simp_all add: comp_def)
  have "free_in 160 t' (map fst ?fs)"
    by (rule free_in_add[OF _ _ assms(2)])
      (use assms(1) in \<open>auto simp: leaves_fit_def free_in_def ids\<close>)
  moreover have "set (keys t') = set (keys t) \<union> set (non_zero a)"
    using keys_add_entries[of "t_entries t" ?es] by (simp add: assms(2) image_image)
  ultimately show ?thesis
    using assms(1) unfolding ids by (auto simp: leaves_fit_def)
qed

lemma leaf_count: "\<forall>i \<in> set is. length i = 7 \<Longrightarrow> length (group_leaves is) = 4 * length is"
  by (induction "is") simp_all

lemma depths: "PROVER_TREE_DEPTH = Suc 160" "MERKLE_TREE_PATH_DEPTH = 160" "UTXO_AGG_LEAVES = 12"
  "UTXO_AGG_NUMBER = 3" "UTXO_AGGREGATIONS = 2"
  by (simp_all add: PROVER_TREE_DEPTH_def MERKLE_TREE_PATH_DEPTH_def UTXO_AGG_LEAVES_def
      UTXO_AGG_NUMBER_def UTXO_AGGREGATIONS_def)

lemma group_ok:
  fixes F :: "'f::field field_ops"
  assumes ok: "fr_ok F" "fr_canonical F" and inv: "prover_inv F 160 t"
    and ws: "list_all2 has_instances ws is" "length is = 3" "\<forall>i \<in> set is. instances_ok i"
    and fit: "leaves_fit t (group_leaves is)"
    and env: "proofs_work E readable" and read: "\<forall>w \<in> set ws. readable (txn_snark F w)"
  shows "\<exists>t' a acc. aggregate_utxo_group E F t ws h = Some (Inr (t', a)) \<and> prover_inv F 160 t'
    \<and> t_entries t' = add_entries (t_entries t) (map (\<lambda>e. (e, h)) (non_zero (group_leaves is)))
    \<and> agg_utxo_public_inputs F PROVER_TREE_DEPTH a
        = Some (acc @ [to_base F (prover_root F 160 t), to_base F (prover_root F 160 t')] @ field_values F is)
    \<and> length acc = 12"
proof -
  let ?els = "group_leaves is"
  have len: "length ?els = 12" using leaf_count[of "is"] ws(2,3) by simp
  have "\<forall>e \<in> set ?els. is_canonical e" using ws(3) by (auto dest: in_set_dropD)
  moreover have "?els \<noteq> []" using len by (metis list.size(3) zero_neq_numeral)
  moreover have "lsb ZERO 160 \<notin> (\<lambda>e. lsb e 160) ` set (keys t)" using fit by (auto simp: leaves_fit_def)
  ultimately obtain t' ins where run:
    "gen_batch F (Suc 160) 160 12 t ws h
      = Some (Inr (t', 12, prover_root F 160 t, prover_root F 160 t', ins))"
    "prover_inv F 160 t'" "t_entries t' = add_entries (t_entries t) (map (\<lambda>e. (e, h)) (non_zero ?els))"
    "batch_old_root F (Suc 160) ins = Some (to_base F (prover_root F 160 t))"
    "batch_new_root F (Suc 160) ins = Some (to_base F (prover_root F 160 t'))"
    using gen_batch_run[OF ok(1) _ _ inv gather_instances[OF ok ws(1,3)], of 160 h] fit
    unfolding len leaves_fit_def by auto
  let ?ss = "map (\<lambda>u. case u of WitnessV1 proof \<Rightarrow> snark_from_witness F proof) ws"
  have "\<forall>s \<in> set ?ss. readable s" using read by (auto simp: txn_snark_def)
  then obtain cells pf where acc: "accumulator_native E ?ss = Some (cells, pf)" "length cells = 12"
    using proofs_workD(3)[OF env] by blast
  let ?a = "\<lparr>au_utxo = ?ss, au_insert = ins, au_agg_instances = cells, au_proof = pf\<rparr>"
  have "aggregate_utxo_group E F t ws h = Some (Inr (t', ?a))"
    unfolding aggregate_utxo_group_def depths run(1) by (simp add: aggregate_utxo_new_def acc(1))
  moreover have "agg_utxo_public_inputs F PROVER_TREE_DEPTH ?a
      = Some (cells @ [to_base F (prover_root F 160 t), to_base F (prover_root F 160 t')] @ field_values F is)"
    using run(4,5) unfolding depths(1)[symmetric]
    by (simp add: agg_utxo_public_inputs_def utxo_values_ok[OF ws(1,3)])
  ultimately show ?thesis using run(2,3) acc(2) by blast
qed

section \<open>All groups\<close>

lemma root_back:
  assumes "fr_ok F"
  shows "from_base F (to_base F (spec_root (hash_pair F) (Suc n) f)) = spec_root (hash_pair F) (Suc n) f"
  by (simp add: hash_merge_def fr_okD(3)[OF assms])

lemma agg_utxo_snark_ok:
  assumes "proofs_work E readable" "agg_utxo_public_inputs F PROVER_TREE_DEPTH a = Some inst"
  shows "\<exists>proof. agg_utxo_snark E F PROVER_TREE_DEPTH k l a = Some \<lparr>sn_instances = [inst], sn_proof = proof\<rparr>
    \<and> readable \<lparr>sn_instances = [inst], sn_proof = proof\<rparr>"
proof -
  let ?i = "[utxo_public_inputs F (utxo_default F PROVER_TREE_DEPTH)]"
  obtain p where p: "create_proof E (UtxoCircuit (utxo_default F PROVER_TREE_DEPTH)) ?i = Some p"
    "readable \<lparr>sn_instances = ?i, sn_proof = p\<rparr>" using proofs_workD(1)[OF assms(1)] by blast
  let ?ss = "replicate k \<lparr>sn_instances = ?i, sn_proof = p\<rparr>"
  have "\<forall>s \<in> set ?ss. readable s" using p(2) by simp
  then obtain cells pf where acc: "accumulator_native E ?ss = Some (cells, pf)"
    using proofs_workD(3)[OF assms(1)] by blast
  let ?d = "\<lparr>au_utxo = ?ss, au_insert = batch_default F PROVER_TREE_DEPTH l, au_agg_instances = cells, au_proof = pf\<rparr>"
  obtain q where "create_proof E (AggUtxoCircuit ?d) [inst] = Some q" "readable \<lparr>sn_instances = [inst], sn_proof = q\<rparr>"
    using proofs_workD(1)[OF assms(1)] by blast
  with p(1) acc assms(2) show ?thesis
    by (simp add: agg_utxo_snark_def agg_utxo_default_def aggregate_utxo_new_def utxo_snark_def snark_create_def)
qed

text \<open>The first and the last root of a chain of aggregations, and the values of its transactions.\<close>

definition chain_columns :: "'f snark list \<Rightarrow> 'f \<Rightarrow> 'f \<Rightarrow> 'f list \<Rightarrow> bool" where
  "chain_columns ss old new vals \<longleftrightarrow> agg_agg_utxo_values ss = Some vals
     \<and> (\<forall>a. aa_aggregates a = ss \<longrightarrow> ss \<noteq> [] \<longrightarrow> agg_agg_old_root a = Some old \<and> agg_agg_new_root a = Some new)"

lemma chain_columns_one:
  "length acc = 12 \<Longrightarrow> chain_columns [\<lparr>sn_instances = [acc @ [old, new] @ vals], sn_proof = proof\<rparr>] old new vals"
  by (simp add: chain_columns_def agg_agg_old_root_def agg_agg_new_root_def assert_that_def nth_append)

lemma chain_columns_Cons:
  assumes "length acc = 12" "chain_columns ss mid new vals'"
  shows "chain_columns (\<lparr>sn_instances = [acc @ [old, mid] @ vals], sn_proof = proof\<rparr> # ss) old
    (if ss = [] then mid else new) (vals @ vals')"
proof -
  let ?s = "\<lparr>sn_instances = [acc @ [old, mid] @ vals], sn_proof = proof\<rparr>"
  have "agg_agg_old_root a = Some old" if "aa_aggregates a = ?s # ss" for a
    using assms(1) that by (simp add: agg_agg_old_root_def nth_append)
  moreover have "agg_agg_new_root a = Some (if ss = [] then mid else new)" if "aa_aggregates a = ?s # ss" for a
  proof (cases "ss = []")
    case True
    with assms(1) that show ?thesis by (simp add: agg_agg_new_root_def nth_append)
  next
    case False
    then obtain l ls where l: "rev ss = l # ls" by (cases "rev ss") auto
    have "agg_agg_new_root (a\<lparr>aa_aggregates := ss\<rparr>) = Some new"
      using assms(2) False by (simp add: chain_columns_def)
    with False l that show ?thesis by (simp add: agg_agg_new_root_def)
  qed
  ultimately show ?thesis using assms by (simp add: chain_columns_def assert_that_def)
qed

lemma groups_ok:
  fixes F :: "'f::field field_ops"
  assumes ok: "fr_ok F" "fr_canonical F"
    and env: "proofs_work E readable"
    and "prover_inv F 160 t" and "list_all2 slot_instances ts is" "length is = 3 * k"
    and "\<forall>i \<in> set is. instances_ok i" and "leaves_fit t (group_leaves is)"
    and "\<forall>w. Some w \<in> set ts \<longrightarrow> readable (txn_snark F w)"
  shows "\<exists>t' as ss. aggregate_groups E F h k t ts = (Some (Inr (t', as)) :: ('x prover_error + _) option) \<and> prover_inv F 160 t'
    \<and> t_entries t' = add_entries (t_entries t) (map (\<lambda>e. (e, h)) (non_zero (group_leaves is)))
    \<and> agg_utxo_snarks E F as = Some ss \<and> length ss = k \<and> (\<forall>s \<in> set ss. readable s)
    \<and> chain_columns ss (to_base F (prover_root F 160 t)) (to_base F (prover_root F 160 t')) (field_values F is)"
  using assms(4-)
proof (induction k arbitrary: t ts "is")
  case 0
  then show ?case by (simp add: chain_columns_def)
next
  case (Suc k)
  let ?g = "take 3 is" and ?r = "drop 3 is"
  have split: "group_leaves is = group_leaves ?g @ group_leaves ?r" "field_values F is = field_values F ?g @ field_values F ?r"
    unfolding concat_append[symmetric] map_append[symmetric] append_take_drop_id by simp_all
  have len: "length ?g = 3" "length ?r = 3 * k" using Suc.prems(3) by simp_all
  have inst: "\<forall>i \<in> set ?g. instances_ok i" "\<forall>i \<in> set ?r. instances_ok i"
    using Suc.prems(4) by (auto dest: in_set_takeD in_set_dropD)
  have rel: "list_all2 slot_instances (take 3 ts) ?g" "list_all2 slot_instances (drop 3 ts) ?r"
    using Suc.prems(2) by (simp_all add: list_all2_takeI list_all2_dropI)
  have read: "\<forall>w. Some w \<in> set (take 3 ts) \<longrightarrow> readable (txn_snark F w)"
    "\<forall>w. Some w \<in> set (drop 3 ts) \<longrightarrow> readable (txn_snark F w)"
    using Suc.prems(6) by (auto dest: in_set_takeD in_set_dropD)
  obtain ws where ws: "txns_or_padding E F (take 3 ts) = Some ws" "list_all2 has_instances ws ?g"
    "\<forall>w \<in> set ws. readable (txn_snark F w)"
    using txns_or_padding_ok[OF ok env rel(1) read(1)] by blast
  have wlen: "length ws = 3" using ws(2) len(1) list_all2_lengthD by fastforce
  have fit: "leaves_fit t (group_leaves ?g @ group_leaves ?r)" using Suc.prems(5) by (simp only: split)
  from group_ok[OF ok Suc.prems(1) ws(2) len(1) inst(1) leaves_fit_first[OF fit] env ws(3), of h] obtain t1 a acc where
    g: "aggregate_utxo_group E F t ws h = (Some (Inr (t1, a)) :: ('x prover_error + _) option)" "prover_inv F 160 t1"
      "t_entries t1 = add_entries (t_entries t) (map (\<lambda>e. (e, h)) (non_zero (group_leaves ?g)))"
      "agg_utxo_public_inputs F PROVER_TREE_DEPTH a
        = Some (acc @ [to_base F (prover_root F 160 t), to_base F (prover_root F 160 t1)] @ field_values F ?g)"
      "length acc = 12" by blast
  from Suc.IH[OF g(2) rel(2) len(2) inst(2) leaves_fit_rest[OF fit g(3)] read(2)] obtain t' as ss where
    r: "aggregate_groups E F h k t1 (drop 3 ts) = (Some (Inr (t', as)) :: ('x prover_error + _) option)" "prover_inv F 160 t'"
      "t_entries t' = add_entries (t_entries t1) (map (\<lambda>e. (e, h)) (non_zero (group_leaves ?r)))"
      "agg_utxo_snarks E F as = Some ss" "length ss = k"
      "chain_columns ss (to_base F (prover_root F 160 t1)) (to_base F (prover_root F 160 t')) (field_values F ?r)"
      "\<forall>s \<in> set ss. readable s"
    by blast
  obtain proof' where s: "agg_utxo_snark E F PROVER_TREE_DEPTH UTXO_AGG_NUMBER UTXO_AGG_LEAVES a
      = Some \<lparr>sn_instances = [acc @ [to_base F (prover_root F 160 t), to_base F (prover_root F 160 t1)] @ field_values F ?g],
              sn_proof = proof'\<rparr>"
    "readable \<lparr>sn_instances = [acc @ [to_base F (prover_root F 160 t), to_base F (prover_root F 160 t1)] @ field_values F ?g],
              sn_proof = proof'\<rparr>"
    using agg_utxo_snark_ok[OF env g(4)] by blast
  have "t' = t1" if "ss = []" using r(1,5) that by simp
  with chain_columns_Cons[OF g(5) r(6), of "to_base F (prover_root F 160 t)" "field_values F ?g" proof']
  have "chain_columns (\<lparr>sn_instances = [acc @ [to_base F (prover_root F 160 t), to_base F (prover_root F 160 t1)] @ field_values F ?g],
              sn_proof = proof'\<rparr> # ss)
      (to_base F (prover_root F 160 t)) (to_base F (prover_root F 160 t')) (field_values F is)"
    unfolding split(2) by (cases "ss = []") auto
  moreover have "t_entries t' = add_entries (t_entries t) (map (\<lambda>e. (e, h)) (non_zero (group_leaves is)))"
    by (simp only: r(3) g(3) split(1) filter_append map_append add_entries_append)
  ultimately show ?case
    using ws(1) g(1) r(1,2,4,5,7) s
    by (intro exI[of _ t'] exI[of _ "a # as"] exI[of _ "_ # ss"]) (simp add: assert_that_def depths wlen)
qed

section \<open>A block\<close>

lemma slots_after:
  assumes "prover_inv F 160 t" "leaves_fit t els"
    and "t_entries t' = add_entries (t_entries t) (map (\<lambda>e. (e, h)) (non_zero els))"
  shows "slots 160 (keys t') = slots 160 (keys t @ non_zero els)"
proof -
  have ids: "map fst (map (\<lambda>e. (e, h)) (non_zero els)) = non_zero els" by (simp add: comp_def)
  note k = keys_after[of "hash_pair F" _ 160 t "map (\<lambda>e. (e, h)) (non_zero els)", unfolded ids, OF assms(1)]
  show ?thesis
    using k assms(2) by (intro slots_set) (simp_all add: assms(3) leaves_fit_def)
qed

lemma field_values_back:
  assumes "fr_canonical F" "\<forall>i \<in> set is. instances_ok i"
  shows "map (from_base F) (field_values F is) = concat (map (take 3) is)"
  using assms(2)
proof (induction "is")
  case (Cons i "is")
  have "map (from_base F \<circ> to_base F) (take 3 i) = take 3 i"
    using Cons.prems assms(1) by (intro map_idI) (auto simp: fr_canonical_def dest: in_set_takeD)
  with Cons show ?case by (simp add: comp_def)
qed simp

text \<open>The transactions of a block, and what stands for the missing ones.\<close>

definition padded_txns :: "utxo_proof list \<Rightarrow> snark_witness option list" where
  "padded_txns txns = map (\<lambda>u. Some (to_snark_witness u)) txns @ replicate (MAXIMUM_TXNS - length txns) None"

definition padded_instances :: "utxo_proof list \<Rightarrow> element list list" where
  "padded_instances txns = map instances txns @ replicate (MAXIMUM_TXNS - length txns) (replicate 7 ZERO)"

lemma block_slots: "list_all2 slot_instances (padded_txns txns) (padded_instances txns)"
  by (auto simp: padded_txns_def padded_instances_def slot_instances_def has_instances_def to_snark_witness_def
      list_all2_map1 list_all2_map2 intro!: list_all2_appendI list_all2_refl intro: list_all2I)

lemma padded_instances_ok:
  assumes "\<forall>u \<in> set txns. \<forall>e \<in> set (instances u). is_canonical e"
  shows "\<forall>i \<in> set (padded_instances txns). instances_ok i"
  using assms canonical_zero
  by (auto simp: padded_instances_def instances_def leaves_def array2_def)

lemma block_leaves: "non_zero (group_leaves (padded_instances txns)) = non_zero (concat (map leaves txns))"
proof -
  have "non_zero (concat (replicate k (replicate 4 ZERO))) = []" for k by (induction k) simp_all
  moreover have "map (drop 3) (padded_instances txns)
      = map leaves txns @ replicate (MAXIMUM_TXNS - length txns) (replicate 4 ZERO)"
    by (simp add: padded_instances_def instances_def)
  ultimately show ?thesis by simp
qed

lemma block_values:
  "concat (map (take 3) (padded_instances txns))
    = concat (map (\<lambda>u. [up_recent_root u, up_mb_hash u, up_mb_value u]) txns)
      @ concat (replicate (MAXIMUM_TXNS - length txns) (replicate 3 ZERO))"
  by (simp add: padded_instances_def instances_def comp_def)

lemma block_fit: "leaves_fit t (group_leaves (padded_instances txns)) \<longleftrightarrow> leaves_fit t (concat (map leaves txns))"
  by (simp add: leaves_fit_def block_leaves)

lemma prove_run:
  fixes F :: "'f::field field_ops"
  assumes ok: "fr_ok F" "fr_canonical F"
    and env: "proofs_work E readable" and read: "\<forall>u \<in> set txns. readable (txn_snark F (to_snark_witness u))"
    and "prover_inv F 160 t" and "length txns \<le> MAXIMUM_TXNS"
    and "\<forall>u \<in> set txns. \<forall>e \<in> set (instances u). is_canonical e"
    and "leaves_fit t (concat (map leaves txns))"
  shows "\<exists>p. prove E F t h (padded_txns txns) = (Some (Inr p) :: ('x prover_error + _) option)
    \<and> pr_old_root p = prover_root F 160 t
    \<and> pr_new_root p = spec_root (hash_pair F) 160 (slots 160 (keys t @ non_zero (concat (map leaves txns))))
    \<and> pr_utxo_hashes p = concat (map (\<lambda>u. [up_recent_root u, up_mb_hash u, up_mb_value u]) txns)
        @ concat (replicate (MAXIMUM_TXNS - length txns) (replicate 3 ZERO))
    \<and> length (pr_agg_instances p) = 12"
proof -
  let ?is = "padded_instances txns"
  note inst = padded_instances_ok[OF assms(7)]
  have len: "length ?is = 3 * UTXO_AGGREGATIONS"
    using assms(6) by (simp add: padded_instances_def MAXIMUM_TXNS_def depths)
  have fit: "leaves_fit t (group_leaves ?is)" using assms(8) by (simp add: block_fit)
  have "\<forall>w. Some w \<in> set (padded_txns txns) \<longrightarrow> readable (txn_snark F w)" using read by (auto simp: padded_txns_def)
  from groups_ok[OF ok env assms(5) block_slots len inst fit this, of h] obtain t' as ss where
    g: "aggregate_groups E F h UTXO_AGGREGATIONS t (padded_txns txns)
        = (Some (Inr (t', as)) :: ('x prover_error + _) option)" "prover_inv F 160 t'"
      "t_entries t' = add_entries (t_entries t) (map (\<lambda>e. (e, h)) (non_zero (group_leaves ?is)))"
      "agg_utxo_snarks E F as = Some ss" "length ss = UTXO_AGGREGATIONS"
      "chain_columns ss (to_base F (prover_root F 160 t)) (to_base F (prover_root F 160 t')) (field_values F ?is)"
      "\<forall>s \<in> set ss. readable s"
    by blast
  have ne: "ss \<noteq> []" using g(5) by (auto simp: depths)
  obtain a where a': "aggregate_agg_new E F ss = Some a" "aa_aggregates a = ss" "length (aa_agg_instances a) = 12"
    using proofs_workD(3)[OF env g(7)] by (auto simp: aggregate_agg_new_def)
  let ?a = a
  note a = a'(2,3)
  define inst1 where "inst1 = map (to_base F) (aa_agg_instances ?a)
    @ [to_base F (prover_root F 160 t), to_base F (prover_root F 160 t')] @ field_values F ?is"
  have pub: "agg_agg_public_inputs F ?a = Some inst1"
    using g(6) ne a by (simp add: agg_agg_public_inputs_def chain_columns_def inst1_def)
  obtain pf where pf: "create_proof E (AggAggCircuit ?a) [inst1] = Some pf" "readable \<lparr>sn_instances = [inst1], sn_proof = pf\<rparr>"
    using proofs_workD(1)[OF env] by blast
  let ?s = "\<lparr>sn_instances = [inst1], sn_proof = pf\<rparr>"
  have s: "agg_agg_snark E F ?a = Some ?s" by (simp add: agg_agg_snark_def pub snark_create_def pf(1))
  have "\<forall>s \<in> set [?s]. readable s" using pf(2) by simp
  then obtain bb where b': "aggregate_agg_new E F [?s] = Some bb" "aa_aggregates bb = [?s]" "length (aa_agg_instances bb) = 12"
    using proofs_workD(3)[OF env, of "[?s]"] by (auto simp: aggregate_agg_new_def)
  let ?b = bb
  note b = b'(2,3)
  have "chain_columns [?s] (to_base F (prover_root F 160 t)) (to_base F (prover_root F 160 t')) (field_values F ?is)"
    unfolding inst1_def by (rule chain_columns_one) (simp add: a(2))
  then have vals: "agg_agg_old_root ?b = Some (to_base F (prover_root F 160 t))"
    "agg_agg_new_root ?b = Some (to_base F (prover_root F 160 t'))"
    "agg_agg_utxo_values (aa_aggregates ?b) = Some (field_values F ?is)"
    using b(1) by (auto simp: chain_columns_def simp del: agg_agg_utxo_values.simps)
  obtain inst2 where i2: "agg_agg_public_inputs F ?b = Some inst2"
    by (simp add: agg_agg_public_inputs_def vals)
  obtain pf2 where pf2: "evm_gen_proof E (AggAggCircuit ?b) [inst2] = Some pf2" using proofs_workD(2)[OF env] by blast
  have gen: "generate_aggregate_proof E F t (padded_txns txns) h
      = (Some (Inr (?b, pf2)) :: ('x prover_error + _) option)"
    by (simp add: generate_aggregate_proof_def g(1,4) s i2 pf2 a'(1) b'(1))
  have "prover_root F 160 t' = spec_root (hash_pair F) 160 (slots 160 (keys t @ non_zero (concat (map leaves txns))))"
    using slots_after[OF assms(5) fit g(3)] by (simp add: block_leaves)
  moreover have "from_base F (to_base F (spec_root (hash_pair F) 160 f)) = spec_root (hash_pair F) 160 f" for f
    using root_back[OF ok(1), of 159] by simp
  ultimately show ?thesis
    using b(2) field_values_back[OF ok(2) inst]
    by (simp add: prove_def gen vals block_values)
qed

text \<open>
  C4: \<open>prove\<close> of a block of at most six transactions with readable proofs, whose notes fit into the tree,
  succeeds when the creation of proofs does: its old
  root is that of the tree, its new root that of the tree with all non-zero leaves of the block,
  and its hashes are the recent root, the mint or burn hash and the value of each transaction,
  and zeros for the padding.
\<close>

theorem prove_spec:
  fixes F :: "'f::field field_ops"
  assumes "fr_ok F" and "fr_canonical F"
    and "proofs_work E readable" and "\<forall>u \<in> set txns. readable (txn_snark F (to_snark_witness u))"
    and "prover_inv F 160 t" and "length txns \<le> MAXIMUM_TXNS"
    and "\<forall>u \<in> set txns. \<forall>e \<in> set (instances u). is_canonical e"
    and "leaves_fit t (concat (map leaves txns))"
  shows "\<exists>p. prove E F t h (padded_txns txns) = (Some (Inr p) :: ('x prover_error + _) option)
    \<and> Some (pr_old_root p) = root_hash (hash_pair F) t
    \<and> pr_new_root p = spec_root (hash_pair F) 160 (slots 160 (keys t @ non_zero (concat (map leaves txns))))
    \<and> pr_utxo_hashes p = concat (map (\<lambda>u. [up_recent_root u, up_mb_hash u, up_mb_value u]) txns)
        @ concat (replicate (MAXIMUM_TXNS - length txns) (replicate 3 ZERO))"
  using prove_run[OF assms, of h] root_hash_spec[OF assms(5)] by auto

section \<open>The circuit of an aggregation's proof\<close>

lemma default_linked:
  "batch_linked F N r (replicate k (insert_default F N)) r"
  by (induction k) (simp_all add: insert_default_def default_path_def canonical_zero)

text \<open>
  C8: The proof of an aggregation is made of the default circuit: whatever the aggregation holds,
  the honest assignment of that circuit satisfies its public inputs only if they show the root of
  the empty tree as the old root and as the new root. So the aggregation of any group that
  changes the tree, or of any group in a tree with notes, has no valid proof.
\<close>

theorem agg_utxo_snark_default:
  fixes F :: "'f::field field_ops"
  assumes "fr_ok F" and "fr_canonical F" and "N \<le> 257" and "0 < agg_leaves"
    and "agg_utxo_snark E F N utxo_n agg_leaves a = Some s"
  shows "\<exists>d inst proof. agg_utxo_public_inputs F N a = Some inst
    \<and> s = \<lparr>sn_instances = [inst], sn_proof = proof\<rparr>
    \<and> create_proof E (AggUtxoCircuit d) [inst] = Some proof
    \<and> au_insert d = batch_default F N agg_leaves
    \<and> (\<forall>agg_cells utxo_cells. length agg_cells = 12
          \<and> agg_utxo_synthesize F N d agg_cells utxo_cells inst Honest \<noteq> None
        \<longrightarrow> inst ! 12 = insert_null_root F N (insert_default F N) \<and> inst ! 13 = inst ! 12)"
proof -
  from assms(5) obtain d inst pf where d: "agg_utxo_default E F N utxo_n agg_leaves = Some d"
    "agg_utxo_public_inputs F N a = Some inst" "create_proof E (AggUtxoCircuit d) [inst] = Some pf"
    "s = \<lparr>sn_instances = [inst], sn_proof = pf\<rparr>"
    by (auto simp: agg_utxo_snark_def snark_create_def some_bind)
  have ins: "au_insert d = batch_default F N agg_leaves"
    using d(1) by (auto simp: agg_utxo_default_def aggregate_utxo_new_def some_bind)
  have "inst ! 12 = insert_null_root F N (insert_default F N) \<and> inst ! 13 = inst ! 12"
    if cells: "length agg_cells = 12" "agg_utxo_synthesize F N d agg_cells utxo_cells inst Honest \<noteq> None"
    for agg_cells utxo_cells
  proof -
    let ?r = "insert_null_root F N (insert_default F N)"
    obtain k where k: "agg_leaves = Suc k" using assms(4) gr0_implies_Suc by blast
    have old: "batch_old_root F N (batch_default F N agg_leaves) = Some ?r"
      by (simp add: batch_old_root_def batch_default_def k)
    have "batch_rows F N 0 ?r (batch_default F N agg_leaves) Honest
        = Some ((?r, batch_leafs F (batch_default F N agg_leaves)), Honest)"
      by (rule batch_rows_honest[OF assms(1-3)]) (simp only: batch_default_def default_linked)
    with old cells show ?thesis
      by (auto simp: agg_utxo_synthesize_def ins aggregate_utxo_enforce_def batch_enforce_def
          assign_private_input_honest fr_ok_simps[OF assms(1)] some_bind Let_def constrain_instance_def
          split: if_splits)
  qed
  with d(2-4) ins show ?thesis by blast
qed

end
