(* ===== verification/Prover_Sample.thy ===== *)
theory Prover_Sample
  imports Circuit_Sample Prover_Props
begin

text \<open>
  Concrete instances over the field of \<open>Circuit_Sample\<close>: a batch of one transaction in an empty
  tree of depth 2, a block of one transaction, and an aggregation whose proof cannot be valid.
\<close>

definition sample_txn :: snark_witness where
  "sample_txn = WitnessV1 \<lparr>sw_instances = [[0, 0, 0, 4, 0, 0, 0]], sw_proof = []\<rparr>"

abbreviation empty_prover_tree :: prover_tree where
  "empty_prover_tree \<equiv> new_with_cache 2 simple_cache_new"

lemma empty_prover_inv: "prover_inv rat_field 1 empty_prover_tree"
  using tree_inv_new[where cinv = "simple_cache_ok (hash_pair rat_field)" and c = simple_cache_new
      and n = 1 and hm = "hash_pair rat_field", OF simple_cache_new_ok]
  by (simp add: eval_nat_numeral)

lemma empty_prover_keys: "keys empty_prover_tree = []" "t_entries empty_prover_tree = []"
  by (simp_all add: new_with_cache_def)

lemma sample_leaves: "gather_leaves rat_field [sample_txn] = Some [4, 0, 0, 0]"
  by (simp add: sample_txn_def rat_to_base rat_from_base)

lemma gen_batch_proves_witness:
  "\<exists>t' h h' ins. gen_batch rat_field 2 1 4 empty_prover_tree [sample_txn] 5 = Some (Inr (t', 4, h, h', ins))
     \<and> t_entries t' = [(4, 5)]
     \<and> batch_synthesize rat_field 2 ins [to_base rat_field h, to_base rat_field h', 4, 0, 0, 0] Honest
         = Some ((), Honest)"
proof -
  have els: "\<forall>e \<in> set [4, 0, 0, 0]. is_canonical e"
    by (simp add: canonical_iff MODULUS_def)
  have free: "free_in 1 empty_prover_tree (non_zero [4, 0, 0, 0])"
    by (simp add: free_in_def empty_prover_keys element_consts lsb_eq_map)
  have keyed: "keyed 1 (non_zero [4, 0, 0, 0])"
    by (simp add: element_consts)
  show ?thesis
    using gen_batch_proves[OF rat_field_ok rat_canonical _ _ empty_prover_inv sample_leaves _ els free keyed,
        of 1 5]
    by (simp add: empty_prover_keys element_consts numeral_2_eq_2[symmetric] rat_to_base
        flip: numeral_2_eq_2) blast
qed

section \<open>Proving a block\<close>

definition sample_prover :: "rat prover_env" where
  "sample_prover = \<lparr>accumulator_native = (\<lambda>_. Some (replicate 12 0, [])),
     create_proof = (\<lambda>_ _. Some []), evm_gen_proof = (\<lambda>_ _. Some [])\<rparr>"

lemma sample_prover_ok: "proofs_work sample_prover (\<lambda>_. True)"
  by (simp add: proofs_work_def sample_prover_def)

definition sample_block_txn :: utxo_proof where
  "sample_block_txn = \<lparr>up_recent_root = 3, up_mb_hash = 0, up_mb_value = 0, up_input_leaves = (0, 0),
     up_output_leaves = (4, 0), up_proof = []\<rparr>"

abbreviation block_tree :: prover_tree where
  "block_tree \<equiv> new_with_cache (Suc 160) simple_cache_new"

lemma block_tree_inv: "prover_inv rat_field 160 block_tree"
  by (rule tree_inv_new) (rule simple_cache_new_ok)

lemma sample_block_leaves: "concat (map leaves [sample_block_txn]) = [0, 0, 4, 0]"
  by (simp add: sample_block_txn_def leaves_def array2_def)

lemma four_slot: "lsb 4 160 \<noteq> lsb 0 160"
proof
  assume eq: "lsb 4 160 = lsb 0 160"
  have "lsb (4 :: element) 160 ! 157 = bit (4 :: element) 2" "lsb (0 :: element) 160 ! 157 = bit (0 :: element) 2"
    by (simp_all add: lsb_eq_map rev_nth)
  with eq show False by (simp add: bit_numeral_rec)
qed

lemma block_tree_fits: "leaves_fit block_tree (concat (map leaves [sample_block_txn]))"
  unfolding sample_block_leaves
  using four_slot by (simp add: leaves_fit_def free_in_def element_consts new_with_cache_def eq_commute)

lemma prove_spec_witness:
  "\<exists>p. prove sample_prover rat_field block_tree 1 (padded_txns [sample_block_txn])
      = (Some (Inr p) :: (unit prover_error + _) option)
    \<and> pr_new_root p = spec_root (hash_pair rat_field) 160 (slots 160 [4])
    \<and> take 3 (pr_utxo_hashes p) = [3, 0, 0]"
proof -
  have "\<forall>u \<in> set [sample_block_txn]. \<forall>e \<in> set (instances u). is_canonical e"
    by (simp add: sample_block_txn_def instances_def leaves_def array2_def canonical_iff MODULUS_def)
  moreover have "length [sample_block_txn] \<le> MAXIMUM_TXNS"
    by (simp add: MAXIMUM_TXNS_def depths)
  ultimately obtain p where "prove sample_prover rat_field block_tree 1 (padded_txns [sample_block_txn])
      = (Some (Inr p) :: (unit prover_error + _) option)"
    "pr_new_root p = spec_root (hash_pair rat_field) 160
       (slots 160 (keys block_tree @ non_zero (concat (map leaves [sample_block_txn]))))"
    "pr_utxo_hashes p = concat (map (\<lambda>u. [up_recent_root u, up_mb_hash u, up_mb_value u]) [sample_block_txn])
        @ concat (replicate (MAXIMUM_TXNS - length [sample_block_txn]) (replicate 3 ZERO))"
    using prove_spec[OF rat_field_ok rat_canonical sample_prover_ok _ block_tree_inv _ _ block_tree_fits, of 1]
    by blast
  then show ?thesis
    unfolding sample_block_leaves
    by (simp add: new_with_cache_def element_consts) (simp add: sample_block_txn_def)
qed

section \<open>An aggregation without a valid proof\<close>

definition sample_aggregate :: "rat aggregate_utxo" where
  "sample_aggregate = \<lparr>au_utxo = map (\<lambda>c. \<lparr>sn_instances = [c], sn_proof = []\<rparr>) sample_snarks,
     au_insert = sample_inserts, au_agg_instances = replicate 12 0, au_proof = []\<rparr>"

lemma sample_aggregate_inputs:
  "agg_utxo_public_inputs rat_field 2 sample_aggregate = Some (replicate 12 0 @ [2, 6] @ replicate 9 0)"
proof -
  have "batch_new_root rat_field 2 sample_inserts = Some 6"
    using linked_new_root[OF sample_linked]
    by (auto simp: batch_new_root_def sample_old_root split: list.splits)
  then show ?thesis
    by (simp add: agg_utxo_public_inputs_def sample_aggregate_def sample_old_root sample_snarks_def)
      (simp add: numeral_eq_Suc)
qed

lemma agg_utxo_snark_default_witness:
  "\<exists>d proof. agg_utxo_snark sample_prover rat_field 2 3 12 sample_aggregate
      = Some \<lparr>sn_instances = [replicate 12 0 @ [2, 6] @ replicate 9 0], sn_proof = proof\<rparr>
    \<and> create_proof sample_prover (AggUtxoCircuit d) [replicate 12 0 @ [2, 6] @ replicate 9 0] = Some proof
    \<and> (\<forall>utxo_cells. agg_utxo_synthesize rat_field 2 d (replicate 12 0) utxo_cells
          (replicate 12 0 @ [2, 6] @ replicate 9 0) Honest = None)"
proof -
  obtain s where s: "agg_utxo_snark sample_prover rat_field 2 3 12 sample_aggregate = Some s"
    by (simp add: agg_utxo_snark_def agg_utxo_default_def utxo_snark_def snark_create_def sample_prover_def aggregate_utxo_new_def
        sample_aggregate_inputs)
  have n: "(replicate 12 0 @ [2, 6] @ replicate 9 0 :: rat list) ! 13 \<noteq>
      (replicate 12 0 @ [2, 6] @ replicate 9 0) ! 12"
    by (simp add: nth_append)
  from agg_utxo_snark_default[OF rat_field_ok rat_canonical _ _ s] obtain d inst pf where d:
    "agg_utxo_public_inputs rat_field 2 sample_aggregate = Some inst"
    "s = \<lparr>sn_instances = [inst], sn_proof = pf\<rparr>"
    "create_proof sample_prover (AggUtxoCircuit d) [inst] = Some pf"
    "\<forall>agg_cells utxo_cells. length agg_cells = 12
        \<and> agg_utxo_synthesize rat_field 2 d agg_cells utxo_cells inst Honest \<noteq> None
      \<longrightarrow> inst ! 13 = inst ! 12" by auto
  have inst: "inst = replicate 12 0 @ [2, 6] @ replicate 9 0"
    using d(1) by (simp only: sample_aggregate_inputs option.inject)
  have "\<forall>utxo_cells. agg_utxo_synthesize rat_field 2 d (replicate 12 0) utxo_cells inst Honest = None"
    using d(4) n unfolding inst by (metis length_replicate)
  with s d(2,3) show ?thesis unfolding inst by blast
qed

end
