(* ===== verification/Prover_Db.thy ===== *)
theory Prover_Db
  imports Kv_Store Prover
begin

text \<open>
  The database of the prover worker, \<open>pkg/node/src/prover/db.rs\<close>, with the \<open>RollupInput\<close> of
  \<open>pkg/prover/src/lib.rs\<close> it stores: the last block the worker has seen, the proofs that wait to be
  rolled up under their heights, and a version. The wire format of the values is the record
  \<open>prover_wire\<close>.
\<close>

section \<open>Keys and values\<close>

record rollup_input =
  ri_proof :: prover_proof
  ri_height :: u64
  ri_other_hash :: crypto_hash
  ri_signatures :: "signature list"

definition rollup_input_new :: "prover_proof \<Rightarrow> u64 \<Rightarrow> crypto_hash \<Rightarrow> signature list \<Rightarrow> rollup_input" where
  "rollup_input_new proof height other_hash signatures =
     \<lparr>ri_proof = proof, ri_height = height, ri_other_hash = other_hash, ri_signatures = signatures\<rparr>"

definition ri_old_root :: "rollup_input \<Rightarrow> element" where
  "ri_old_root input = pr_old_root (ri_proof input)"

datatype prover_key = KeyLastSeenBlock | KeyRollup u64 | KeyProverVersion

fun prover_key_kind :: "prover_key \<Rightarrow> u8" where
  "prover_key_kind KeyLastSeenBlock = 0"
| "prover_key_kind (KeyRollup _) = 1"
| "prover_key_kind KeyProverVersion = 2"

definition prover_key_serialize :: "prover_key \<Rightarrow> bytes" where
  "prover_key_serialize k =
     (let out = [prover_key_kind k]
      in case k of
           KeyLastSeenBlock \<Rightarrow> out
         | KeyRollup height \<Rightarrow> out @ be_bytes 8 height
         | KeyProverVersion \<Rightarrow> out)"

datatype 'e prover_db_error = DbInvalidKey | DbInvalidValue | DbRocksDB 'e | DbWireMessage 'e

text \<open>Slicing \<open>bytes[1..9]\<close> of a shorter key panics.\<close>

fun prover_key_deserialize :: "bytes \<Rightarrow> ('e prover_db_error + prover_key) option" where
  "prover_key_deserialize [] = Some (Inl DbInvalidKey)"
| "prover_key_deserialize (k # bs) =
     (if k = 0 then Some (Inr KeyLastSeenBlock)
      else if k = 1 then
        (if length bs < 8 then None else Some (Inr (KeyRollup (from_be (take 8 bs)))))
      else if k = 2 then Some (Inr KeyProverVersion)
      else Some (Inl DbInvalidKey))"

record last_seen_block =
  ls_height :: u64
  ls_root_hash :: element

datatype prover_value = ValueLastSeenBlock last_seen_block | ValueRollup rollup_input | ValueProverVersion u64

record 'e prover_wire =
  pv_to_bytes :: "prover_value \<Rightarrow> 'e + bytes"
  pv_from_bytes :: "bytes \<Rightarrow> 'e + prover_value"

definition LATEST_VERSION :: u64 where "LATEST_VERSION = 1"

section \<open>Reading and writing\<close>

text \<open>\<open>None\<close>: the panic of \<open>unwrap\<close> in \<open>deserialize\<close>; the database itself never panics.\<close>

definition prover_db_get ::
  "('db, 'e) kv_ops \<Rightarrow> 'db \<Rightarrow> prover_key \<Rightarrow> 'e prover_db_error + bytes option" where
  "prover_db_get K db k = map_sum DbRocksDB id (kv_get K db (prover_key_serialize k))"

definition prover_db_set ::
  "('db, 'e) kv_ops \<Rightarrow> 'e prover_wire \<Rightarrow> 'db \<Rightarrow> prover_key \<Rightarrow> prover_value \<Rightarrow> 'e prover_db_error + 'db" where
  "prover_db_set K W db k v =
     (case pv_to_bytes W v of
        Inl e \<Rightarrow> Inl (DbWireMessage e)
      | Inr bytes \<Rightarrow> map_sum DbRocksDB id (kv_put K db (prover_key_serialize k) bytes))"

definition get_last_seen_block ::
  "('db, 'e) kv_ops \<Rightarrow> 'e prover_wire \<Rightarrow> 'db \<Rightarrow> 'e prover_db_error + last_seen_block option" where
  "get_last_seen_block K W db =
     (case prover_db_get K db KeyLastSeenBlock of
        Inl e \<Rightarrow> Inl e
      | Inr None \<Rightarrow> Inr None
      | Inr (Some bytes) \<Rightarrow>
          (case pv_from_bytes W bytes of
             Inl e \<Rightarrow> Inl (DbWireMessage e)
           | Inr (ValueLastSeenBlock v) \<Rightarrow> Inr (Some v)
           | Inr _ \<Rightarrow> Inl DbInvalidValue))"

definition set_last_seen_block ::
  "('db, 'e) kv_ops \<Rightarrow> 'e prover_wire \<Rightarrow> 'db \<Rightarrow> last_seen_block \<Rightarrow> 'e prover_db_error + 'db" where
  "set_last_seen_block K W db last_seen = prover_db_set K W db KeyLastSeenBlock (ValueLastSeenBlock last_seen)"

definition set_rollup ::
  "('db, 'e) kv_ops \<Rightarrow> 'e prover_wire \<Rightarrow> 'db \<Rightarrow> u64 \<Rightarrow> rollup_input \<Rightarrow> 'e prover_db_error + 'db" where
  "set_rollup K W db height v = prover_db_set K W db (KeyRollup height) (ValueRollup v)"

definition get_version ::
  "('db, 'e) kv_ops \<Rightarrow> 'e prover_wire \<Rightarrow> 'db \<Rightarrow> 'e prover_db_error + u64 option" where
  "get_version K W db =
     (case prover_db_get K db KeyProverVersion of
        Inl e \<Rightarrow> Inl e
      | Inr None \<Rightarrow> Inr None
      | Inr (Some bytes) \<Rightarrow>
          (case pv_from_bytes W bytes of
             Inl e \<Rightarrow> Inl (DbWireMessage e)
           | Inr (ValueProverVersion v) \<Rightarrow> Inr (Some v)
           | Inr _ \<Rightarrow> Inl DbInvalidValue))"

definition set_version ::
  "('db, 'e) kv_ops \<Rightarrow> 'e prover_wire \<Rightarrow> 'db \<Rightarrow> u64 \<Rightarrow> 'e prover_db_error + 'db" where
  "set_version K W db version = prover_db_set K W db KeyProverVersion (ValueProverVersion version)"

text \<open>\<open>new_db\<close> is whether the directory is absent or empty, \<open>opened\<close> the database in it.\<close>

definition create_or_load ::
  "('db, 'e) kv_ops \<Rightarrow> 'e prover_wire \<Rightarrow> bool \<Rightarrow> 'e + 'db \<Rightarrow> 'e prover_db_error + 'db" where
  "create_or_load K W new_db opened =
     (case opened of
        Inl e \<Rightarrow> Inl (DbRocksDB e)
      | Inr db \<Rightarrow> if new_db then set_version K W db LATEST_VERSION else Inr db)"

definition read_rollup ::
  "'e prover_wire \<Rightarrow> 'e + bytes \<times> bytes \<Rightarrow> ('e prover_db_error + u64 \<times> rollup_input) option" where
  "read_rollup W r =
     (case r of
        Inl e \<Rightarrow> Some (Inl (DbRocksDB e))
      | Inr (k, v) \<Rightarrow>
          try_bind (map_option (map_sum (\<lambda>_. DbInvalidKey) id)
                      (prover_key_deserialize k :: ('e prover_db_error + prover_key) option)) (\<lambda>k.
            case k of
              KeyRollup height \<Rightarrow>
                (case pv_from_bytes W v of
                   Inl e \<Rightarrow> Some (Inl (DbWireMessage e))
                 | Inr (ValueRollup rollup) \<Rightarrow> Some (Inr (height, rollup))
                 | Inr _ \<Rightarrow> Some (Inl DbInvalidValue))
            | _ \<Rightarrow> Some (Inl DbInvalidKey)))"

text \<open>The items of the iterator, from the first height up to and without the second.\<close>

definition list_rollups ::
  "('db, 'e) kv_ops \<Rightarrow> 'e prover_wire \<Rightarrow> 'db \<Rightarrow> u64 \<Rightarrow> u64
     \<Rightarrow> ('e prover_db_error + u64 \<times> rollup_input) option list" where
  "list_rollups K W db from_height to_height =
     map (read_rollup W)
       (kv_scan K db True (prover_key_serialize (KeyRollup from_height)) (prover_key_serialize (KeyRollup to_height)))"

section \<open>What the database holds\<close>

lemma prover_key_roundtrip [simp]: "prover_key_deserialize (prover_key_serialize k) = Some (Inr k)"
  by (cases k) (simp_all add: prover_key_serialize_def from_be_bytes_gen)

lemma prover_key_inject [simp]: "prover_key_serialize k = prover_key_serialize k' \<longleftrightarrow> k = k'"
  by (metis option.inject prover_key_roundtrip sum.inject(2))

lemma rollup_key_less [simp]:
  "prover_key_serialize (KeyRollup a) < prover_key_serialize (KeyRollup b) \<longleftrightarrow> a < b"
  "prover_key_serialize (KeyRollup a) \<le> prover_key_serialize (KeyRollup b) \<longleftrightarrow> a \<le> b"
proof -
  have "be_bytes 8 a < be_bytes 8 b \<longleftrightarrow> a < b" for a b :: u64 by (rule be_bytes_less_iff) simp
  then show "prover_key_serialize (KeyRollup a) < prover_key_serialize (KeyRollup b) \<longleftrightarrow> a < b"
    "prover_key_serialize (KeyRollup a) \<le> prover_key_serialize (KeyRollup b) \<longleftrightarrow> a \<le> b"
    by (auto simp: prover_key_serialize_def not_less[symmetric])
qed

text \<open>Values survive their wire format.\<close>

definition prover_wire_ok :: "'e prover_wire \<Rightarrow> bool" where
  "prover_wire_ok W \<longleftrightarrow> (\<forall>v. \<exists>bs. pv_to_bytes W v = Inr bs \<and> pv_from_bytes W bs = Inr v)"

definition prover_enc :: "'e prover_wire \<Rightarrow> prover_value \<Rightarrow> bytes" where
  "prover_enc W v = projr (pv_to_bytes W v)"

lemma prover_wire_okD:
  assumes "prover_wire_ok W"
  shows "pv_to_bytes W v = Inr (prover_enc W v)" "pv_from_bytes W (prover_enc W v) = Inr v"
proof -
  obtain bs where "pv_to_bytes W v = Inr bs" "pv_from_bytes W bs = Inr v"
    using assms by (auto simp: prover_wire_ok_def)
  then show "pv_to_bytes W v = Inr (prover_enc W v)" "pv_from_bytes W (prover_enc W v) = Inr v"
    by (simp_all add: prover_enc_def)
qed

text \<open>What the database holds, the rollups in the order of their heights.\<close>

record prover_data =
  pd_last_seen :: "last_seen_block option"
  pd_rollups :: "(u64 \<times> rollup_input) list"
  pd_version :: "u64 option"

fun value_at :: "prover_data \<Rightarrow> prover_key \<Rightarrow> prover_value option" where
  "value_at d KeyLastSeenBlock = map_option ValueLastSeenBlock (pd_last_seen d)"
| "value_at d (KeyRollup h) = map_option ValueRollup (map_of (pd_rollups d) h)"
| "value_at d KeyProverVersion = map_option ValueProverVersion (pd_version d)"

definition prover_rep :: "'e prover_wire \<Rightarrow> prover_data \<Rightarrow> kv_contents \<Rightarrow> bool" where
  "prover_rep W d m \<longleftrightarrow> bt_ok m \<and> bt_ok (pd_rollups d) \<and> fst ` set m \<subseteq> range prover_key_serialize
     \<and> (\<forall>k. map_of m (prover_key_serialize k) = map_option (prover_enc W) (value_at d k))"

lemma prover_rep_set:
  assumes "kv_ok K contents" "prover_wire_ok W" "prover_rep W d (contents db)" "bt_ok (pd_rollups d')"
    and "\<forall>k'. value_at d' k' = ((value_at d)(k \<mapsto> v)) k'"
  shows "\<exists>db'. prover_db_set K W db k v = Inr db' \<and> prover_rep W d' (contents db')"
proof -
  obtain db' where "kv_put K db (prover_key_serialize k) (prover_enc W v) = Inr db'"
    "contents db' = bt_insert (prover_key_serialize k) (prover_enc W v) (contents db)"
    using kv_okD(3)[OF assms(1)] by blast
  with assms(2-) show ?thesis
    by (auto simp: prover_db_set_def prover_wire_okD prover_rep_def bt_ok_insert)
qed

lemma set_last_seen_block_ok:
  assumes "kv_ok K contents" "prover_wire_ok W" "prover_rep W d (contents db)"
  shows "\<exists>db'. set_last_seen_block K W db l = Inr db' \<and> prover_rep W (d\<lparr>pd_last_seen := Some l\<rparr>) (contents db')"
  unfolding set_last_seen_block_def
proof (rule prover_rep_set[OF assms])
  show "bt_ok (pd_rollups (d\<lparr>pd_last_seen := Some l\<rparr>))" using assms(3) by (simp add: prover_rep_def)
  show "\<forall>k'. value_at (d\<lparr>pd_last_seen := Some l\<rparr>) k' = ((value_at d)(KeyLastSeenBlock \<mapsto> ValueLastSeenBlock l)) k'"
  proof
    show "value_at (d\<lparr>pd_last_seen := Some l\<rparr>) k' = ((value_at d)(KeyLastSeenBlock \<mapsto> ValueLastSeenBlock l)) k'" for k'
      by (cases k') simp_all
  qed
qed

lemma set_rollup_ok:
  assumes "kv_ok K contents" "prover_wire_ok W" "prover_rep W d (contents db)"
  shows "\<exists>db'. set_rollup K W db h r = Inr db'
    \<and> prover_rep W (d\<lparr>pd_rollups := bt_insert h r (pd_rollups d)\<rparr>) (contents db')"
  unfolding set_rollup_def
proof (rule prover_rep_set[OF assms])
  show "bt_ok (pd_rollups (d\<lparr>pd_rollups := bt_insert h r (pd_rollups d)\<rparr>))"
    using assms(3) by (simp add: prover_rep_def bt_ok_insert)
  show "\<forall>k'. value_at (d\<lparr>pd_rollups := bt_insert h r (pd_rollups d)\<rparr>) k' = ((value_at d)(KeyRollup h \<mapsto> ValueRollup r)) k'"
  proof
    show "value_at (d\<lparr>pd_rollups := bt_insert h r (pd_rollups d)\<rparr>) k' = ((value_at d)(KeyRollup h \<mapsto> ValueRollup r)) k'" for k'
      by (cases k') simp_all
  qed
qed

lemma set_version_ok:
  assumes "kv_ok K contents" "prover_wire_ok W" "prover_rep W d (contents db)"
  shows "\<exists>db'. set_version K W db v = Inr db' \<and> prover_rep W (d\<lparr>pd_version := Some v\<rparr>) (contents db')"
  unfolding set_version_def
proof (rule prover_rep_set[OF assms])
  show "bt_ok (pd_rollups (d\<lparr>pd_version := Some v\<rparr>))" using assms(3) by (simp add: prover_rep_def)
  show "\<forall>k'. value_at (d\<lparr>pd_version := Some v\<rparr>) k' = ((value_at d)(KeyProverVersion \<mapsto> ValueProverVersion v)) k'"
  proof
    show "value_at (d\<lparr>pd_version := Some v\<rparr>) k' = ((value_at d)(KeyProverVersion \<mapsto> ValueProverVersion v)) k'" for k'
      by (cases k') simp_all
  qed
qed

lemma prover_db_reads:
  assumes "kv_ok K contents" "prover_wire_ok W" "prover_rep W d (contents db)"
  shows "get_last_seen_block K W db = Inr (pd_last_seen d)"
    and "get_version K W db = Inr (pd_version d)"
proof -
  have get: "prover_db_get K db k = Inr (map_option (prover_enc W) (value_at d k))" for k
    using assms(3) by (simp add: prover_db_get_def kv_okD(2)[OF assms(1)] prover_rep_def)
  show "get_last_seen_block K W db = Inr (pd_last_seen d)" "get_version K W db = Inr (pd_version d)"
    by (auto simp: get_last_seen_block_def get_version_def get prover_wire_okD(2)[OF assms(2)] split: option.split)
qed

lemma map_of_filter_fst: "map_of (filter (\<lambda>e. P (fst e)) m) k = (if P k then map_of m k else None)"
  by (induction m) auto

lemma map_of_inj_map:
  "inj f \<Longrightarrow> map_of (map (\<lambda>(k, v). (f k, g v)) xs) (f k) = map_option g (map_of xs k)"
  by (induction xs) (auto dest: injD)

text \<open>The listed rollups are those of the heights asked for, in their order.\<close>

lemma list_rollups_ok:
  assumes K: "kv_ok K contents" and W: "prover_wire_ok W" and d: "prover_rep W d (contents db)"
  shows "list_rollups K W db a b
    = map (\<lambda>r. Some (Inr r)) (filter (\<lambda>r. a \<le> fst r \<and> fst r < b) (pd_rollups d))"
proof -
  let ?lo = "prover_key_serialize (KeyRollup a)" and ?hi = "prover_key_serialize (KeyRollup b)"
  let ?enc = "\<lambda>(h, r). (prover_key_serialize (KeyRollup h), prover_enc W (ValueRollup r))"
  let ?rs = "filter (\<lambda>r. a \<le> fst r \<and> fst r < b) (pd_rollups d)"
  have ok: "bt_ok (contents db)" "bt_ok (pd_rollups d)" using d by (simp_all add: prover_rep_def)
  have inj: "inj (\<lambda>h. prover_key_serialize (KeyRollup h))" by (rule injI) simp
  have bounds: "in_bounds ?lo ?hi (prover_key_serialize k) \<longleftrightarrow> (\<exists>h. k = KeyRollup h \<and> a \<le> h \<and> h < b)" for k
    by (cases k) (auto simp: in_bounds_def, auto simp: prover_key_serialize_def)
  have "filter (\<lambda>e. in_bounds ?lo ?hi (fst e)) (contents db) = map ?enc ?rs"
  proof (rule bt_ok_ext)
    show "bt_ok (filter (\<lambda>e. in_bounds ?lo ?hi (fst e)) (contents db))" using ok(1) by simp
    have "bt_ok ?rs" using ok(2) by simp
    then show "bt_ok (map ?enc ?rs)"
      by (simp add: bt_ok_def sorted_wrt_map split_beta)
    show "map_of (filter (\<lambda>e. in_bounds ?lo ?hi (fst e)) (contents db)) = map_of (map ?enc ?rs)"
    proof
      fix bs
      show "map_of (filter (\<lambda>e. in_bounds ?lo ?hi (fst e)) (contents db)) bs = map_of (map ?enc ?rs) bs"
      proof (cases "\<exists>h. bs = prover_key_serialize (KeyRollup h)")
        case True
        then obtain h where h: "bs = prover_key_serialize (KeyRollup h)" by blast
        have l: "map_of (filter (\<lambda>e. in_bounds ?lo ?hi (fst e)) (contents db)) bs
            = (if a \<le> h \<and> h < b then map_of (contents db) bs else None)"
          using map_of_filter_fst[of "in_bounds ?lo ?hi" "contents db" bs] by (simp add: bounds h)
        have r: "map_of (map ?enc ?rs) bs = map_option (\<lambda>r. prover_enc W (ValueRollup r)) (map_of ?rs h)"
          unfolding h by (rule map_of_inj_map[OF inj])
        show ?thesis
          unfolding l r using d map_of_filter_fst[of "\<lambda>h. a \<le> h \<and> h < b" "pd_rollups d" h]
          by (simp add: prover_rep_def h option.map_comp comp_def)
      next
        case False
        have "bs \<notin> fst ` set (filter (\<lambda>e. in_bounds ?lo ?hi (fst e)) (contents db))"
        proof
          assume mem: "bs \<in> fst ` set (filter (\<lambda>e. in_bounds ?lo ?hi (fst e)) (contents db))"
          have "fst ` set (contents db) \<subseteq> range prover_key_serialize" using d by (simp add: prover_rep_def)
          moreover from mem have "bs \<in> fst ` set (contents db)" by auto
          ultimately have "bs \<in> range prover_key_serialize" by (rule subsetD)
          then obtain k where k: "bs = prover_key_serialize k" by (rule rangeE)
          moreover from mem have "in_bounds ?lo ?hi bs" by auto
          ultimately obtain h where "k = KeyRollup h" using bounds[of k] by auto
          with False k show False by simp
        qed
        moreover have "bs \<notin> fst ` set (map ?enc ?rs)" using False by auto
        ultimately show ?thesis unfolding map_of_eq_None_iff[symmetric] by (simp only:)
      qed
    qed
  qed
  then show ?thesis
    by (simp add: list_rollups_def kv_okD(5)[OF K] directed_def read_rollup_def prover_wire_okD(2)[OF W]
        comp_def split_beta)
qed

end
