(* ===== verification/Prover_Worker.thy ===== *)
theory Prover_Worker
  imports Prover_Db Prover_Props Node_Validate_Props
begin

text \<open>
  The prover worker of the node, \<open>pkg/node/src/prover/worker.rs\<close>: its start (migration, catching up
  with the tree of the node, the check of the tree against the last seen block), one committed
  block, and one round of the worker that rolls proofs up. The state is what is on disk: the
  database of \<open>Prover_Db\<close> and the worker's own tree of notes. What it reads from Ethereum, Postgres
  and the stream of commits are arguments. \<open>None\<close> is a panic.
\<close>

section \<open>Errors and state (error.rs)\<close>

datatype 'e worker_error =
    FailedToPeekNextCommit
  | ProverTreeRootDoesNotMatchBlockStateRoot element element
  | RootMismatch element element
  | InvalidProverVersion u64
  | FailedToGetNonce 'e
  | WorkerDb "'e prover_db_error"
  | WorkerNode "'e node_error"
  | WorkerContract 'e
  | WorkerProver "'e prover_error"
  | WorkerSmirkStorage "'e storage_error"
  | WorkerSmirkCollision "collision list"
  | WorkerPostgres 'e
  | WorkerIo 'e

record 'db worker_state =
  wk_db :: 'db
  wk_tree :: "(u64, 'db) persistent"

section \<open>Start (run\_prover, run\_prover\_worker)\<close>

text \<open>
  The migration: the proofs from the height of the contract on, which go to Postgres when there is
  one, and the new database.
\<close>

definition worker_migrate ::
  "('db, 'e) node_env \<Rightarrow> 'e prover_wire \<Rightarrow> ('e + u64) \<Rightarrow> 'db
     \<Rightarrow> ('e worker_error + 'db \<times> (u64 \<times> rollup_input) list) option" where
  "worker_migrate E W contract_height db =
     (case get_version (kv E) W db of
        Inl e \<Rightarrow> Some (Inl (WorkerDb e))
      | Inr None \<Rightarrow>
          (case contract_height of
             Inl e \<Rightarrow> Some (Inl (WorkerContract e))
           | Inr height \<Rightarrow>
               try_bind (map_option (map_sum WorkerDb id) (collect_results (list_rollups (kv E) W db height (- 1)))) (\<lambda>proofs.
               Some (map_sum WorkerDb (\<lambda>db. (db, proofs)) (set_version (kv E) W db 1))))
      | Inr (Some version) \<Rightarrow>
          if version = 1 then Some (Inr (db, [])) else Some (Inl (InvalidProverVersion version)))"

text \<open>The elements of the node's tree that were rolled up and that the worker's tree lacks.\<close>

definition rolled_up_missing ::
  "(u64, 'c) smirk_tree \<Rightarrow> u64 \<Rightarrow> (u64, 'c) smirk_tree \<Rightarrow> (element \<times> u64) list" where
  "rolled_up_missing node_notes_tree contract_height prover_tree =
     filter (\<lambda>(el, inserted_in). inserted_in \<le> contract_height \<and> \<not> contains_element prover_tree el)
       (tree_elements node_notes_tree)"

fun highest_height :: "u64 option \<Rightarrow> (element \<times> u64) list \<Rightarrow> u64 option" where
  "highest_height highest [] = highest"
| "highest_height highest ((_, inserted_in) # els) =
     highest_height (if (case highest of None \<Rightarrow> True | Some h \<Rightarrow> inserted_in > h) then Some inserted_in else highest) els"

datatype 'db started = Started "'db worker_state" u64 | DeletedAndPanicked 'db

definition last_seen_default :: "('db, 'e) node_env \<Rightarrow> last_seen_block option" where
  "last_seen_default E =
     map_option (\<lambda>root. \<lparr>ls_height = 0, ls_root_hash = root\<rparr>)
       (empty_tree_hash (node_env.poseidon E) MERKLE_TREE_DEPTH)"

text \<open>
  The check against the last seen block: a worker whose tree has another root forgets the block,
  deletes its tree and panics. \<open>removed\<close> is the answer of \<open>remove_dir_all\<close>.
\<close>

definition check_last_seen ::
  "('db, 'e) node_env \<Rightarrow> 'e prover_wire \<Rightarrow> ('e + unit) \<Rightarrow> 'db worker_state
     \<Rightarrow> ('e worker_error + 'db started) option" where
  "check_last_seen E W removed s = do {
     def \<leftarrow> last_seen_default E;
     root \<leftarrow> root_hash (node_env.poseidon E) (ps_tree (wk_tree s));
     (case get_last_seen_block (kv E) W (wk_db s) of
        Inl e \<Rightarrow> Some (Inl (WorkerDb e))
      | Inr seen \<Rightarrow>
          (let last_seen = (case seen of None \<Rightarrow> def | Some l \<Rightarrow> l)
           in if ls_root_hash last_seen \<noteq> root then
                (case set_last_seen_block (kv E) W (wk_db s) def of
                   Inl e \<Rightarrow> Some (Inl (WorkerDb e))
                 | Inr db \<Rightarrow>
                     (case removed of
                        Inl e \<Rightarrow> Some (Inl (WorkerIo e))
                      | Inr _ \<Rightarrow> Some (Inr (DeletedAndPanicked db))))
              else Some (Inr (Started s (ls_height last_seen + 1))))) }"

definition worker_start ::
  "('db, 'e) node_env \<Rightarrow> 'e prover_wire \<Rightarrow> ('e + unit) \<Rightarrow> (u64, simple_cache) smirk_tree \<Rightarrow> u64 \<Rightarrow> 'db worker_state
     \<Rightarrow> ('e worker_error + 'db started) option" where
  "worker_start E W removed node_notes_tree contract_height s = do {
     let missing = rolled_up_missing node_notes_tree contract_height (ps_tree (wk_tree s));
     b \<leftarrow> insert_entries MERKLE_TREE_DEPTH batch_new missing;
     (case b of
        Inl e \<Rightarrow> Some (Inl (WorkerSmirkCollision e))
      | Inr b \<Rightarrow> do {
          (tree, r) \<leftarrow> persistent_insert_batch (kv E) (smirk_format E) (node_env.poseidon E) MERKLE_TREE_DEPTH (wk_tree s) b;
          (case r of
             Inl e \<Rightarrow> Some (Inl (WorkerSmirkStorage e))
           | Inr _ \<Rightarrow>
               (case highest_height None missing of
                  None \<Rightarrow> check_last_seen E W removed (s\<lparr>wk_tree := tree\<rparr>)
                | Some height \<Rightarrow> do {
                    root \<leftarrow> root_hash (node_env.poseidon E) (ps_tree tree);
                    (case set_last_seen_block (kv E) W (wk_db s) \<lparr>ls_height = height, ls_root_hash = root\<rparr> of
                       Inl e \<Rightarrow> Some (Inl (WorkerDb e))
                     | Inr db \<Rightarrow> check_last_seen E W removed \<lparr>wk_db = db, wk_tree = tree\<rparr>) })) }) }"

section \<open>One committed block (run\_prover\_worker)\<close>

text \<open>
  What the worker meets while it handles a block: the answer of Postgres to the question who proves
  it (if there is a Postgres), the block committed next, and the answer to the insertion.
\<close>

record 'e commit_view =
  cm_lock :: "('e + bool option) option"
  cm_next :: "('e node_error + block) option"
  cm_inserted :: "'e + unit"

fun we_are_the_prover :: "('e + bool option) option \<Rightarrow> 'e worker_error + bool" where
  "we_are_the_prover None = Inr True"
| "we_are_the_prover (Some (Inl e)) = Inl (WorkerPostgres e)"
| "we_are_the_prover (Some (Inr (Some b))) = Inr b"
| "we_are_the_prover (Some (Inr None)) = Inr False"

definition seen_commit ::
  "('db, 'e) node_env \<Rightarrow> 'e prover_wire \<Rightarrow> block \<Rightarrow> 'db worker_state \<Rightarrow> 'db worker_state \<times> ('e worker_error + unit)"
where
  "seen_commit E W b s =
     (case set_last_seen_block (kv E) W (wk_db s)
             \<lparr>ls_height = block_height b, ls_root_hash = bs_root_hash (bc_state (b_content b))\<rparr> of
        Inl e \<Rightarrow> (s, Inl (WorkerDb e))
      | Inr db \<Rightarrow> (s\<lparr>wk_db := db\<rparr>, Inr ()))"

definition apply_commit ::
  "('db, 'e) node_env \<Rightarrow> block \<Rightarrow> bool \<Rightarrow> 'db worker_state
     \<Rightarrow> ('db worker_state \<times> ('e worker_error + unit)) option" where
  "apply_commit E b is_a_bad_block s =
     map_option (\<lambda>(tree, r). (s\<lparr>wk_tree := tree\<rparr>, map_sum WorkerNode id r))
       (apply_block_to_tree E (wk_tree s) (bc_state (b_content b)) (block_height b) is_a_bad_block)"

text \<open>The proof of a prover in mock mode: hashes of the transactions, without a proof.\<close>

definition mock_values :: "'f::field field_ops \<Rightarrow> snark_witness option \<Rightarrow> element list option" where
  "mock_values F txn =
     (case (case txn of
              Some (WitnessV1 proof) \<Rightarrow> sw_instances proof
            | None \<Rightarrow> [map (from_base F) (utxo_public_inputs F (utxo_new_padding F PROVER_TREE_DEPTH))]) of
        (root # mb_hash # mb_value # _) # _ \<Rightarrow> Some [root, mb_hash, mb_value]
      | _ \<Rightarrow> None)"

fun mock_hashes :: "'f::field field_ops \<Rightarrow> snark_witness option list \<Rightarrow> element list option" where
  "mock_hashes F [] = Some []"
| "mock_hashes F (t # ts) = do { v \<leftarrow> mock_values F t; vs \<leftarrow> mock_hashes F ts; Some (v @ vs) }"

definition prove_commit ::
  "('db, 'e) node_env \<Rightarrow> 'f::field prover_env \<Rightarrow> 'f field_ops \<Rightarrow> block \<Rightarrow> (u64, simple_cache) smirk_tree
     \<Rightarrow> ('e worker_error + prover_proof) option" where
  "prove_commit E P F b notes_tree =
     (let txns = map (\<lambda>u. Some (to_snark_witness u)) (bs_txns (bc_state (b_content b)));
          txns = txns @ replicate (MAXIMUM_TXNS - length txns) None
      in if node_mode E = MockProverMode then do {
           utxo_hashes \<leftarrow> mock_hashes F txns;
           old_root \<leftarrow> root_hash (node_env.poseidon E) notes_tree;
           Some (Inr \<lparr>pr_proof = [], pr_agg_instances = replicate 12 ZERO, pr_old_root = old_root,
                      pr_new_root = bs_root_hash (bc_state (b_content b)), pr_utxo_hashes = utxo_hashes\<rparr>) }
         else do {
           assert_that (length txns = MAXIMUM_TXNS);
           map_option (map_sum WorkerProver id) (prove P F notes_tree (block_height b) txns) })"

text \<open>Storing the proof, the first of the three writes.\<close>

definition store_rollup ::
  "('db, 'e) node_env \<Rightarrow> 'e prover_wire \<Rightarrow> block \<Rightarrow> block \<Rightarrow> prover_proof \<Rightarrow> 'db worker_state
     \<Rightarrow> 'db worker_state \<times> ('e worker_error + unit)" where
  "store_rollup E W b next_commit proof s =
     (let rollup_input = rollup_input_new proof (block_height b)
            (header_hash (keccak E) (borsh_header E) (b_content b))
            (bh_approvals (bc_header (b_content next_commit)))
      in case set_rollup (kv E) W (wk_db s) (block_height b) rollup_input of
           Inl e \<Rightarrow> (s, Inl (WorkerDb e))
         | Inr db \<Rightarrow> (s\<lparr>wk_db := db\<rparr>, Inr ()))"

text \<open>A step that may fail, followed by the next one.\<close>

definition and_then ::
  "('s \<times> ('e + unit)) option \<Rightarrow> ('s \<Rightarrow> ('s \<times> ('e + unit)) option) \<Rightarrow> ('s \<times> ('e + unit)) option" where
  "and_then m f = (case m of None \<Rightarrow> None | Some (s, Inl e) \<Rightarrow> Some (s, Inl e) | Some (s, Inr _) \<Rightarrow> f s)"

definition worker_commit ::
  "('db, 'e) node_env \<Rightarrow> 'f::field prover_env \<Rightarrow> 'f field_ops \<Rightarrow> 'e prover_wire \<Rightarrow> u64 \<Rightarrow> 'e commit_view \<Rightarrow> block
     \<Rightarrow> 'db worker_state \<Rightarrow> ('db worker_state \<times> ('e worker_error + unit)) option" where
  "worker_commit E P F W initial_contract_block_height V b s =
     (if bs_txns (bc_state (b_content b)) = [] then Some (seen_commit E W b s)
      else
        (let commit_was_already_rolled_up = initial_contract_block_height \<ge> block_height b;
             is_a_bad_block = block_height b \<in> set (bad_blocks E)
         in case (if commit_was_already_rolled_up \<or> is_a_bad_block then Inr False
                  else we_are_the_prover (cm_lock V)) of
              Inl e \<Rightarrow> Some (s, Inl e)
            | Inr False \<Rightarrow> and_then (apply_commit E b is_a_bad_block s) (\<lambda>s. Some (seen_commit E W b s))
            | Inr True \<Rightarrow>
                (case cm_next V of
                   None \<Rightarrow> None
                 | Some (Inl _) \<Rightarrow> Some (s, Inl FailedToPeekNextCommit)
                 | Some (Inr next_commit) \<Rightarrow>
                     (case prove_commit E P F b (ps_tree (wk_tree s)) of
                        None \<Rightarrow> None
                      | Some (Inl e) \<Rightarrow> Some (s, Inl e)
                      | Some (Inr proof) \<Rightarrow>
                          (let root = bs_root_hash (bc_state (b_content b))
                           in if pr_new_root proof \<noteq> root then Some (s, Inl (RootMismatch (pr_new_root proof) root))
                              else
                                and_then (Some (store_rollup E W b next_commit proof s)) (\<lambda>s.
                                and_then (apply_commit E b is_a_bad_block s) (\<lambda>s.
                                and_then (Some (seen_commit E W b s)) (\<lambda>s.
                                  if cm_lock V \<noteq> None \<and> isl (cm_inserted V) then None
                                  else do {
                                    tree_root \<leftarrow> root_hash (node_env.poseidon E) (ps_tree (wk_tree s));
                                    Some (s, if root \<noteq> tree_root
                                             then Inl (ProverTreeRootDoesNotMatchBlockStateRoot tree_root root)
                                             else Inr ()) }))))))))"

text \<open>The loop over the stream of commits, as far as the stream has come.\<close>

fun worker_run ::
  "('db, 'e) node_env \<Rightarrow> 'f::field prover_env \<Rightarrow> 'f field_ops \<Rightarrow> 'e prover_wire \<Rightarrow> u64
     \<Rightarrow> ('e commit_view \<times> ('e node_error + block)) list \<Rightarrow> 'db worker_state
     \<Rightarrow> ('db worker_state \<times> ('e worker_error + unit)) option" where
  "worker_run E P F W initial_contract_block_height [] s = Some (s, Inr ())"
| "worker_run E P F W initial_contract_block_height ((V, Inl e) # stream) s = Some (s, Inl (WorkerNode e))"
| "worker_run E P F W initial_contract_block_height ((V, Inr commit) # stream) s =
     and_then (worker_commit E P F W initial_contract_block_height V commit s)
       (worker_run E P F W initial_contract_block_height stream)"

end
