(* ===== verification/Prover_Worker_Props.thy ===== *)
theory Prover_Worker_Props
  imports Prover_Worker
begin

text \<open>
  The prover worker: what the committed blocks leave on disk, a crash between two of its writes, and
  the start from a deleted tree.
\<close>

section \<open>What the worker relies on\<close>

definition worker_env_ok ::
  "('db, 'e) node_env \<Rightarrow> 'f::field field_ops \<Rightarrow> 'e prover_wire \<Rightarrow> ('db \<Rightarrow> kv_contents) \<Rightarrow> bool" where
  "worker_env_ok E F W contents \<longleftrightarrow>
     kv_ok (kv E) contents \<and> smirk_wire_ok (smirk_format E) \<and> prover_wire_ok W
     \<and> node_env.poseidon E = hash_pair F \<and> fr_ok F \<and> fr_canonical F"

abbreviation tree_notes :: "'db worker_state \<Rightarrow> element list" where
  "tree_notes s \<equiv> map fst (t_entries (ps_tree (wk_tree s)))"

definition default_seen :: "('db, 'e) node_env \<Rightarrow> last_seen_block" where
  "default_seen E = \<lparr>ls_height = 0, ls_root_hash = notes_root E []\<rparr>"

definition seen_of :: "('db, 'e) node_env \<Rightarrow> prover_data \<Rightarrow> last_seen_block" where
  "seen_of E d = (case pd_last_seen d of None \<Rightarrow> default_seen E | Some l \<Rightarrow> l)"

text \<open>The tree and the database on disk are healthy.\<close>

definition on_disk ::
  "('db, 'e) node_env \<Rightarrow> 'e prover_wire \<Rightarrow> ('db \<Rightarrow> kv_contents) \<Rightarrow> prover_data \<Rightarrow> 'db worker_state \<Rightarrow> bool" where
  "on_disk E W contents d s \<longleftrightarrow> prover_rep W d (contents (wk_db s))
     \<and> persist_inv (node_env.poseidon E) (smirk_format E) contents 160 (wk_tree s)"

text \<open>And they agree.\<close>

definition worker_inv ::
  "('db, 'e) node_env \<Rightarrow> 'e prover_wire \<Rightarrow> ('db \<Rightarrow> kv_contents) \<Rightarrow> prover_data \<Rightarrow> 'db worker_state \<Rightarrow> bool" where
  "worker_inv E W contents d s \<longleftrightarrow> on_disk E W contents d s
     \<and> ls_root_hash (seen_of E d) = notes_root E (tree_notes s)"

text \<open>
  The block comes next on the notes of the tree: its notes are new and have slots of their own, none of
  them the one of the null leaf, its root hash is that of the notes with its own, and its elements are
  canonical.
\<close>

definition block_next :: "('db, 'e) node_env \<Rightarrow> element list \<Rightarrow> block \<Rightarrow> bool" where
  "block_next E notes b \<longleftrightarrow>
     distinct (block_leaves b) \<and> set (block_leaves b) \<inter> set notes = {} \<and> slots_apart (notes @ block_leaves b)
     \<and> lsb ZERO 160 \<notin> (\<lambda>e. lsb e 160) ` set (notes @ block_leaves b)
     \<and> bs_root_hash (bc_state (b_content b)) = notes_root E (notes @ block_leaves b)
     \<and> (\<forall>u \<in> set (bs_txns (bc_state (b_content b))). \<forall>e \<in> set (instances u). is_canonical e)"

lemma tree_root:
  assumes "on_disk E W contents d s"
  shows "root_hash (node_env.poseidon E) (ps_tree (wk_tree s)) = Some (notes_root E (tree_notes s))"
  using assms by (intro root_hash_spec[where cinv = "simple_cache_ok (node_env.poseidon E)"])
    (simp add: on_disk_def persist_inv_def)

lemma last_seen_default_eq: "last_seen_default E = Some (default_seen E)"
proof -
  have "tree_inv (node_env.poseidon E) (\<lambda>_. True) 160 (new_with_cache (Suc 160) () :: (unit, unit) smirk_tree)"
    by (rule tree_inv_new) simp
  from root_hash_spec[OF this]
  have "root_hash (node_env.poseidon E) (new_with_cache (Suc 160) () :: (unit, unit) smirk_tree)
      = Some (notes_root E [])" by (simp add: new_with_cache_def)
  moreover have "root_hash (node_env.poseidon E) (new_with_cache (Suc 160) () :: (unit, unit) smirk_tree)
      = empty_tree_hash (node_env.poseidon E) (Suc 160)"
    unfolding root_hash_def new_with_cache_def by simp
  ultimately show ?thesis
    by (simp only: last_seen_default_def depth_simps default_seen_def option.map)
qed

lemma contains_notes: "contains_element t l \<longleftrightarrow> l \<in> set (map fst (t_entries t))"
  by (auto simp: contains_element_def map_of_eq_None_iff)

text \<open>Elements added to the tree.\<close>

lemma notes_root_add:
  assumes "persist_inv (node_env.poseidon E) W contents 160 p" "persist_inv (node_env.poseidon E) W contents 160 p'"
    and "t_entries (ps_tree p') = add_entries (t_entries (ps_tree p)) es"
    and "keyed 160 (map fst es)" "free_in 160 (ps_tree p) (map fst es)"
  shows "notes_root E (map fst (t_entries (ps_tree p'))) = notes_root E (map fst (t_entries (ps_tree p)) @ map fst es)"
proof -
  have "note_tree_inv E (ps_tree p)" using assms(1) by (simp add: persist_inv_def)
  note k = keys_after[OF this assms(5,4)]
  show ?thesis unfolding assms(3) using slots_set[OF k(3,2,1)] by simp
qed

section \<open>The three writes of a commit\<close>

lemma seen_commit_ok:
  assumes "worker_env_ok E F W contents" "on_disk E W contents d s"
  shows "\<exists>s'. seen_commit E W b s = (s', Inr ()) \<and> wk_tree s' = wk_tree s
    \<and> on_disk E W contents
        (d\<lparr>pd_last_seen := Some \<lparr>ls_height = block_height b, ls_root_hash = bs_root_hash (bc_state (b_content b))\<rparr>\<rparr>) s'"
proof -
  have d: "kv_ok (kv E) contents" "prover_wire_ok W" "prover_rep W d (contents (wk_db s))"
    using assms by (simp_all add: worker_env_ok_def on_disk_def)
  obtain db' where "set_last_seen_block (kv E) W (wk_db s)
      \<lparr>ls_height = block_height b, ls_root_hash = bs_root_hash (bc_state (b_content b))\<rparr> = Inr db'"
    "prover_rep W (d\<lparr>pd_last_seen := Some \<lparr>ls_height = block_height b,
        ls_root_hash = bs_root_hash (bc_state (b_content b))\<rparr>\<rparr>) (contents db')"
    using set_last_seen_block_ok[OF d] by blast
  with assms(2) show ?thesis
    by (intro exI[of _ "s\<lparr>wk_db := db'\<rparr>"]) (simp add: seen_commit_def on_disk_def)
qed

lemma store_rollup_ok:
  assumes "worker_env_ok E F W contents" "on_disk E W contents d s"
  shows "\<exists>s' r. store_rollup E W b nb p s = (s', Inr ()) \<and> wk_tree s' = wk_tree s
    \<and> r = rollup_input_new p (block_height b) (header_hash (keccak E) (borsh_header E) (b_content b))
            (bh_approvals (bc_header (b_content nb)))
    \<and> on_disk E W contents (d\<lparr>pd_rollups := bt_insert (block_height b) r (pd_rollups d)\<rparr>) s'"
proof -
  have d: "kv_ok (kv E) contents" "prover_wire_ok W" "prover_rep W d (contents (wk_db s))"
    using assms by (simp_all add: worker_env_ok_def on_disk_def)
  let ?r = "rollup_input_new p (block_height b) (header_hash (keccak E) (borsh_header E) (b_content b))
        (bh_approvals (bc_header (b_content nb)))"
  obtain db' where "set_rollup (kv E) W (wk_db s) (block_height b) ?r = Inr db'"
    "prover_rep W (d\<lparr>pd_rollups := bt_insert (block_height b) ?r (pd_rollups d)\<rparr>) (contents db')"
    using set_rollup_ok[OF d] by blast
  with assms(2) show ?thesis
    by (intro exI[of _ "s\<lparr>wk_db := db'\<rparr>"] exI[of _ ?r]) (simp add: store_rollup_def on_disk_def Let_def)
qed

lemma apply_commit_ok:
  assumes "worker_env_ok E F W contents" "on_disk E W contents d s" "block_next E (tree_notes s) b"
  shows "\<exists>s'. apply_commit E b ignore s = Some (s', Inr ()) \<and> wk_db s' = wk_db s \<and> on_disk E W contents d s'
    \<and> t_entries (ps_tree (wk_tree s')) =
        add_entries (t_entries (ps_tree (wk_tree s))) (map (\<lambda>e. (e, block_height b)) (block_leaves b))
    \<and> set (tree_notes s') = set (tree_notes s @ block_leaves b)
    \<and> notes_root E (tree_notes s') = bs_root_hash (bc_state (b_content b))"
proof -
  have env: "kv_ok (kv E) contents" "smirk_wire_ok (smirk_format E)" using assms(1) by (simp_all add: worker_env_ok_def)
  have inv: "persist_inv (node_env.poseidon E) (smirk_format E) contents 160 (wk_tree s)"
    using assms(2) by (simp add: on_disk_def)
  have new: "\<forall>l \<in> set (block_leaves b). \<not> contains_element (ps_tree (wk_tree s)) l"
    using assms(3) by (auto simp: block_next_def contains_notes)
  have els: "block_leaves b = filter (\<lambda>l. \<not> contains_element (ps_tree (wk_tree s)) l) (block_leaves b)"
    using new by (intro filter_True[symmetric]) blast
  have apart: "slots_apart (tree_notes s @ block_leaves b)" "distinct (block_leaves b)"
    using assms(3) by (simp_all add: block_next_def)
  obtain p' where p': "apply_block_to_tree E (wk_tree s) (bc_state (b_content b)) (block_height b) ignore = Some (p', Inr ())"
    "persist_inv (node_env.poseidon E) (smirk_format E) contents 160 p'"
    "t_entries (ps_tree p') = add_entries (t_entries (ps_tree (wk_tree s))) (map (\<lambda>e. (e, block_height b)) (block_leaves b))"
    "root_hash (node_env.poseidon E) (ps_tree p') = Some (notes_root E (tree_notes s @ block_leaves b))"
    using apply_block_ok[OF env inv els apart] new by blast
  let ?s = "s\<lparr>wk_tree := p'\<rparr>"
  have "on_disk E W contents d ?s" using assms(2) p'(2) by (simp add: on_disk_def)
  moreover have "notes_root E (tree_notes ?s) = bs_root_hash (bc_state (b_content b))"
    using tree_root[OF calculation] p'(4) assms(3) by (simp add: block_next_def)
  moreover have "set (tree_notes ?s) = set (tree_notes s @ block_leaves b)"
    using keys_add_entries[of "t_entries (ps_tree (wk_tree s))" "map (\<lambda>e. (e, block_height b)) (block_leaves b)"]
    by (simp add: p'(3) image_image)
  ultimately show ?thesis using p'(1,3) by (intro exI[of _ ?s]) (simp add: apply_commit_def)
qed

section \<open>The proof of a block\<close>

text \<open>
  Validation does not limit the transactions of a block, but the prover takes six at most; their proofs
  must be readable for the accumulator. The mock prover needs neither.
\<close>

definition provable :: "('db, 'e) node_env \<Rightarrow> 'f field_ops \<Rightarrow> ('f snark \<Rightarrow> bool) \<Rightarrow> block \<Rightarrow> bool" where
  "provable E F readable b \<longleftrightarrow> node_mode E = MockProverMode
     \<or> length (bs_txns (bc_state (b_content b))) \<le> MAXIMUM_TXNS
        \<and> (\<forall>u \<in> set (bs_txns (bc_state (b_content b))). readable (txn_snark F (to_snark_witness u)))"

lemma prove_commit_too_many:
  "node_mode E \<noteq> MockProverMode \<Longrightarrow> MAXIMUM_TXNS < length (bs_txns (bc_state (b_content b)))
    \<Longrightarrow> prove_commit E P F b t = None"
  by (simp add: prove_commit_def assert_that_def)

lemma mock_hashes_ok:
  assumes "fr_ok F"
  shows "\<exists>hs. mock_hashes F (map (\<lambda>u. Some (to_snark_witness u)) us @ replicate k None) = Some hs"
proof -
  have "\<exists>hs. mock_hashes F (replicate k None) = Some hs"
    by (induction k) (auto simp: mock_values_def padding_inputs[OF assms] numeral_eq_Suc)
  then show ?thesis
    by (induction us) (auto simp: mock_values_def to_snark_witness_def instances_def)
qed

lemma prove_commit_ok:
  fixes F :: "'f::field field_ops" and E :: "('db, 'e) node_env"
  assumes env: "worker_env_ok E F W contents" and s: "on_disk E W contents d s"
    and b: "block_next E (tree_notes s) b" and P: "proofs_work P readable" "provable E F readable b"
  shows "\<exists>p. prove_commit E P F b (ps_tree (wk_tree s)) = Some (Inr p)
    \<and> pr_old_root p = notes_root E (tree_notes s) \<and> pr_new_root p = bs_root_hash (bc_state (b_content b))"
proof -
  let ?us = "bs_txns (bc_state (b_content b))" and ?t = "ps_tree (wk_tree s)"
  have e: "node_env.poseidon E = hash_pair F" "fr_ok F" "fr_canonical F"
    using env by (simp_all add: worker_env_ok_def)
  show ?thesis
  proof (cases "node_mode E = MockProverMode")
    case True
    obtain hs where "mock_hashes F (map (\<lambda>u. Some (to_snark_witness u)) ?us
        @ replicate (MAXIMUM_TXNS - length ?us) None) = Some hs"
      using mock_hashes_ok[OF e(2)] by blast
    with True show ?thesis using tree_root[OF s] by (simp add: prove_commit_def)
  next
    case False
    have inv: "prover_inv F 160 ?t" using s by (simp add: on_disk_def persist_inv_def e(1))
    have leaves: "non_zero (concat (map leaves ?us)) = block_leaves b" by (simp add: state_leaves_def)
    have "free_in 160 ?t (block_leaves b)" "keyed 160 (block_leaves b)"
      using b by (auto intro!: new_leaves_ok simp: block_next_def contains_notes NULL_HASH_def)
    then have fit: "leaves_fit ?t (concat (map leaves ?us))"
      using b unfolding leaves_fit_def leaves by (simp add: block_next_def image_Un)
    have len: "length ?us \<le> MAXIMUM_TXNS" "\<forall>u \<in> set ?us. \<forall>e \<in> set (instances u). is_canonical e"
      and read: "\<forall>u \<in> set ?us. readable (txn_snark F (to_snark_witness u))"
      using b P(2) False by (simp_all add: block_next_def provable_def)
    obtain p where p: "prove P F ?t (block_height b) (padded_txns ?us)
        = (Some (Inr p) :: ('e prover_error + _) option)"
      "pr_old_root p = prover_root F 160 ?t"
      "pr_new_root p = spec_root (hash_pair F) 160 (slots 160 (keys ?t @ non_zero (concat (map leaves ?us))))"
      using prove_run[OF e(2,3) P(1) read inv len fit] by blast
    have "pr_new_root p = bs_root_hash (bc_state (b_content b))"
      using b by (simp add: p(3) block_next_def leaves e(1))
    moreover have "prove_commit E P F b ?t = Some (Inr p)"
      using False p(1) len(1) by (simp add: prove_commit_def assert_that_def flip: padded_txns_def)
    ultimately show ?thesis using p(2) by (simp add: e(1))
  qed
qed

section \<open>One block\<close>

text \<open>What the stream and Postgres have to give: the next block, no error.\<close>

definition view_ok :: "'e commit_view \<Rightarrow> block \<Rightarrow> bool" where
  "view_ok V nb \<longleftrightarrow> cm_next V = Some (Inr nb) \<and> (\<forall>e. cm_lock V \<noteq> Some (Inl e)) \<and> \<not> isl (cm_inserted V)"

text \<open>The block is proved here, and the rollup stored for it.\<close>

definition proves_here :: "('db, 'e) node_env \<Rightarrow> u64 \<Rightarrow> 'e commit_view \<Rightarrow> block \<Rightarrow> bool" where
  "proves_here E c V b \<longleftrightarrow> bs_txns (bc_state (b_content b)) \<noteq> [] \<and> c < block_height b
     \<and> block_height b \<notin> set (bad_blocks E) \<and> we_are_the_prover (cm_lock V) = Inr True"

definition rollup_of :: "('db, 'e) node_env \<Rightarrow> block \<Rightarrow> block \<Rightarrow> element \<Rightarrow> rollup_input \<Rightarrow> bool" where
  "rollup_of E b nb old r \<longleftrightarrow> ri_height r = block_height b \<and> ri_old_root r = old
     \<and> pr_new_root (ri_proof r) = bs_root_hash (bc_state (b_content b))
     \<and> ri_other_hash r = header_hash (keccak E) (borsh_header E) (b_content b)
     \<and> ri_signatures r = bh_approvals (bc_header (b_content nb))"

definition after_block :: "block \<Rightarrow> prover_data \<Rightarrow> prover_data" where
  "after_block b d = d\<lparr>pd_last_seen := Some \<lparr>ls_height = block_height b, ls_root_hash = bs_root_hash (bc_state (b_content b))\<rparr>\<rparr>"

definition with_rollup :: "block \<Rightarrow> rollup_input \<Rightarrow> prover_data \<Rightarrow> prover_data" where
  "with_rollup b r d = d\<lparr>pd_rollups := bt_insert (block_height b) r (pd_rollups d)\<rparr>"

lemma after_block_inv:
  assumes "on_disk E W contents (after_block b d) s"
    and "notes_root E (tree_notes s) = bs_root_hash (bc_state (b_content b))"
  shows "worker_inv E W contents (after_block b d) s"
  using assms by (simp add: worker_inv_def seen_of_def after_block_def)

lemma and_then_simps [simp]:
  "and_then (Some (s, Inr u)) f = f s" "and_then None f = None" "and_then (Some (s, Inl e)) f = Some (s, Inl e)"
  by (simp_all add: and_then_def)

lemma worker_commit_ok:
  fixes F :: "'f::field field_ops"
  assumes env: "worker_env_ok E F W contents" and inv: "worker_inv E W contents d s"
    and b: "block_next E (tree_notes s) b" and V: "view_ok V nb"
    and P: "proofs_work P readable" "proves_here E c V b \<Longrightarrow> provable E F readable b"
  shows "\<exists>s' d'. worker_commit E P F W c V b s = Some (s', Inr ()) \<and> worker_inv E W contents d' s'
    \<and> set (tree_notes s') = set (tree_notes s @ block_leaves b)
    \<and> (if proves_here E c V b
        then \<exists>r. rollup_of E b nb (notes_root E (tree_notes s)) r \<and> d' = after_block b (with_rollup b r d)
        else d' = after_block b d)"
proof -
  have s: "on_disk E W contents d s" using inv by (simp add: worker_inv_def)
  consider (empty) "bs_txns (bc_state (b_content b)) = []"
    | (skip) "bs_txns (bc_state (b_content b)) \<noteq> []" "\<not> proves_here E c V b"
    | (here) "proves_here E c V b" by blast
  then show ?thesis
  proof cases
    case empty
    then have l: "block_leaves b = []" by (simp add: state_leaves_def)
    obtain s' where s': "seen_commit E W b s = (s', Inr ())" "wk_tree s' = wk_tree s" "on_disk E W contents (after_block b d) s'"
      using seen_commit_ok[OF env s] unfolding after_block_def by blast
    have "worker_inv E W contents (after_block b d) s'"
      using b by (intro after_block_inv[OF s'(3)]) (simp add: block_next_def l s'(2))
    then show ?thesis
      using empty s'(1,2) l by (intro exI[of _ s'] exI[of _ "after_block b d"]) (simp add: worker_commit_def proves_here_def)
  next
    case skip
    let ?bad = "block_height b \<in> set (bad_blocks E)"
    obtain s1 where s1: "apply_commit E b ?bad s = Some (s1, Inr ())" "on_disk E W contents d s1"
      "set (tree_notes s1) = set (tree_notes s @ block_leaves b)"
      "notes_root E (tree_notes s1) = bs_root_hash (bc_state (b_content b))"
      using apply_commit_ok[OF env s b] by blast
    obtain s' where s': "seen_commit E W b s1 = (s', Inr ())" "wk_tree s' = wk_tree s1" "on_disk E W contents (after_block b d) s'"
      using seen_commit_ok[OF env s1(2)] unfolding after_block_def by blast
    have who: "(if c \<ge> block_height b \<or> ?bad then Inr False else we_are_the_prover (cm_lock V)) = Inr False"
      using skip V by (cases "cm_lock V" rule: we_are_the_prover.cases) (auto simp: proves_here_def view_ok_def)
    have "worker_inv E W contents (after_block b d) s'"
      using s1(4) s'(2) by (intro after_block_inv[OF s'(3)]) simp
    then show ?thesis
      using skip who s1(1,3) s'(1,2)
      by (intro exI[of _ s'] exI[of _ "after_block b d"]) (simp add: worker_commit_def Let_def)
  next
    case here
    obtain p where p: "prove_commit E P F b (ps_tree (wk_tree s)) = Some (Inr p)"
      "pr_old_root p = notes_root E (tree_notes s)" "pr_new_root p = bs_root_hash (bc_state (b_content b))"
      using prove_commit_ok[OF env s b P(1) P(2)[OF here]] by blast
    obtain s0 r where s0: "store_rollup E W b nb p s = (s0, Inr ())" "wk_tree s0 = wk_tree s"
      "r = rollup_input_new p (block_height b) (header_hash (keccak E) (borsh_header E) (b_content b))
            (bh_approvals (bc_header (b_content nb)))" "on_disk E W contents (with_rollup b r d) s0"
      using store_rollup_ok[OF env s] unfolding with_rollup_def by blast
    have b0: "block_next E (tree_notes s0) b" using b by (simp add: s0(2))
    obtain s1 where s1: "apply_commit E b False s0 = Some (s1, Inr ())" "on_disk E W contents (with_rollup b r d) s1"
      "set (tree_notes s1) = set (tree_notes s @ block_leaves b)"
      "notes_root E (tree_notes s1) = bs_root_hash (bc_state (b_content b))"
      using apply_commit_ok[OF env s0(4) b0] unfolding s0(2) by blast
    obtain s' where s': "seen_commit E W b s1 = (s', Inr ())" "wk_tree s' = wk_tree s1"
      "on_disk E W contents (after_block b (with_rollup b r d)) s'"
      using seen_commit_ok[OF env s1(2)] unfolding after_block_def by blast
    have inv': "worker_inv E W contents (after_block b (with_rollup b r d)) s'"
      using s1(4) s'(2) by (intro after_block_inv[OF s'(3)]) simp
    have who: "(if c \<ge> block_height b \<or> block_height b \<in> set (bad_blocks E) then Inr False
        else we_are_the_prover (cm_lock V)) = Inr True" "bs_txns (bc_state (b_content b)) \<noteq> []"
      "block_height b \<notin> set (bad_blocks E)"
      using here by (auto simp: proves_here_def not_le)
    have "rollup_of E b nb (notes_root E (tree_notes s)) r"
      by (simp add: rollup_of_def s0(3) rollup_input_new_def ri_old_root_def p(2,3))
    moreover have "worker_commit E P F W c V b s = Some (s', Inr ())"
      using V p(1,3) s0(1) s1(1) s'(1) tree_root[OF s'(3)] s1(4) s'(2) who(2,3)
      unfolding worker_commit_def Let_def who(1) by (simp add: view_ok_def)
    ultimately show ?thesis
      using here inv' s1(3) s'(2) by (intro exI[of _ s'] exI[of _ "after_block b (with_rollup b r d)"]) auto
  qed
qed

section \<open>A run\<close>

lemma apart_keyed: "slots_apart (a @ b) \<Longrightarrow> distinct (a @ b) \<Longrightarrow> keyed 160 (a @ b)"
  unfolding slots_apart_def by (simp only: distinct_map)

lemma block_next_cong:
  assumes "block_next E a b" "set a = set a'" "distinct a" "distinct a'"
  shows "block_next E a' b"
proof -
  have d: "distinct (a @ block_leaves b)" "distinct (a' @ block_leaves b)"
    using assms by (auto simp: block_next_def)
  have s: "slots_apart (a @ block_leaves b)" "slots_apart (a' @ block_leaves b)"
    using assms(1,2) by (simp_all add: block_next_def slots_apart_def)
  have "slots 160 (a @ block_leaves b) = slots 160 (a' @ block_leaves b)"
    using assms(2) by (intro slots_set apart_keyed s d) simp
  then show ?thesis using assms(1,2) s(2) by (simp add: block_next_def)
qed

fun run_next :: "('db, 'e) node_env \<Rightarrow> element list \<Rightarrow> block list \<Rightarrow> bool" where
  "run_next E notes [] \<longleftrightarrow> True"
| "run_next E notes (b # bs) \<longleftrightarrow> block_next E notes b \<and> run_next E (notes @ block_leaves b) bs"

lemma run_next_cong:
  "run_next E a bs \<Longrightarrow> set a = set a' \<Longrightarrow> distinct a \<Longrightarrow> distinct a' \<Longrightarrow> run_next E a' bs"
proof (induction bs arbitrary: a a')
  case (Cons b bs)
  from Cons.prems(1) have b: "block_next E a b" and bs: "run_next E (a @ block_leaves b) bs" by simp_all
  have s: "set (a @ block_leaves b) = set (a' @ block_leaves b)" using Cons.prems(2) by simp
  have b': "block_next E a' b" by (rule block_next_cong[OF b Cons.prems(2-4)])
  have "distinct (a @ block_leaves b)" "distinct (a' @ block_leaves b)"
    using b b' Cons.prems(3,4) by (auto simp: block_next_def)
  from Cons.IH[OF bs s this] b' show ?case by simp
qed simp

lemma notes_distinct: "on_disk E W contents d s \<Longrightarrow> distinct (tree_notes s)"
  by (simp add: on_disk_def persist_inv_def tree_inv_def bt_ok_distinct)

lemma notes_root_cong:
  assumes "slots_apart a" "set a = set a'" "distinct a" "distinct a'"
  shows "notes_root E a = notes_root E a'"
proof -
  have "keyed 160 a" "keyed 160 a'" using assms by (simp_all only: distinct_map slots_apart_def)
  from slots_set[OF this assms(2)] show ?thesis by simp
qed

lemma run_next_apart: "run_next E a bs \<Longrightarrow> bs \<noteq> [] \<Longrightarrow> slots_apart a"
  by (cases bs) (auto simp: block_next_def slots_apart_def inj_on_Un)

text \<open>The block that follows the i-th one: the next of the run, or the one peeked at its end.\<close>

definition views_ok :: "('e commit_view \<times> block) list \<Rightarrow> block list \<Rightarrow> bool" where
  "views_ok commits nexts \<longleftrightarrow> list_all2 (\<lambda>c nb. view_ok (fst c) nb) commits nexts"

text \<open>A stream that yields these blocks without an error.\<close>

abbreviation stream_of :: "('v \<times> block) list \<Rightarrow> ('v \<times> ('x + block)) list" where
  "stream_of commits \<equiv> map (\<lambda>(V, commit). (V, Inr commit)) commits"

lemma worker_run_ok:
  fixes F :: "'f::field field_ops"
  assumes env: "worker_env_ok E F W contents" and P: "proofs_work P readable"
    and "worker_inv E W contents d s" and "run_next E (tree_notes s) (map snd commits)" and "views_ok commits nexts"
    and "distinct (map (\<lambda>c. block_height (snd c)) commits)"
    and "\<forall>(V, b) \<in> set commits. proves_here E c V b \<longrightarrow> provable E F readable b"
  shows "\<exists>s' d'. worker_run E P F W c (stream_of commits) s = Some (s', Inr ()) \<and> worker_inv E W contents d' s'
    \<and> set (tree_notes s') = set (tree_notes s @ concat (map block_leaves (map snd commits)))
    \<and> (\<forall>h. h \<notin> (\<lambda>c. block_height (snd c)) ` set commits \<longrightarrow> map_of (pd_rollups d') h = map_of (pd_rollups d) h)
    \<and> (\<forall>i < length commits. proves_here E c (fst (commits ! i)) (snd (commits ! i)) \<longrightarrow>
         (\<exists>r. map_of (pd_rollups d') (block_height (snd (commits ! i))) = Some r
            \<and> rollup_of E (snd (commits ! i)) (nexts ! i)
                (notes_root E (tree_notes s @ concat (map block_leaves (map snd (take i commits))))) r))"
  using assms(3-)
proof (induction commits arbitrary: s d nexts)
  case Nil
  then show ?case by (intro exI[of _ s] exI[of _ d]) simp
next
  case (Cons cm commits)
  obtain V b where cm: "cm = (V, b)" by (cases cm)
  obtain nb nexts' where nb: "nexts = nb # nexts'" "view_ok V nb" "views_ok commits nexts'"
    using Cons.prems(3) by (auto simp: views_ok_def cm list_all2_Cons1)
  have b: "block_next E (tree_notes s) b" and rest: "run_next E (tree_notes s @ block_leaves b) (map snd commits)"
    using Cons.prems(2) by (simp_all add: cm)
  obtain s1 d1 where 1: "worker_commit E P F W c V b s = Some (s1, Inr ())" "worker_inv E W contents d1 s1"
    "set (tree_notes s1) = set (tree_notes s @ block_leaves b)"
    "if proves_here E c V b then \<exists>r. rollup_of E b nb (notes_root E (tree_notes s)) r \<and> d1 = after_block b (with_rollup b r d)
     else d1 = after_block b d"
    using worker_commit_ok[OF env Cons.prems(1) b nb(2) P, of c] Cons.prems(5) by (auto simp: cm)
  have dist: "distinct (tree_notes s @ block_leaves b)" "distinct (tree_notes s1)"
    using Cons.prems(1) 1(2) b notes_distinct by (auto simp: worker_inv_def block_next_def)
  have "run_next E (tree_notes s1) (map snd commits)"
    by (rule run_next_cong[OF rest 1(3)[symmetric] dist])
  from Cons.IH[OF 1(2) this nb(3)] Cons.prems(4,5) obtain s' d' where
    r: "worker_run E P F W c (stream_of commits) s1 = Some (s', Inr ())" "worker_inv E W contents d' s'"
      "set (tree_notes s') = set (tree_notes s1 @ concat (map block_leaves (map snd commits)))"
      "\<forall>h. h \<notin> (\<lambda>c. block_height (snd c)) ` set commits \<longrightarrow> map_of (pd_rollups d') h = map_of (pd_rollups d1) h"
      "\<forall>i < length commits. proves_here E c (fst (commits ! i)) (snd (commits ! i)) \<longrightarrow>
         (\<exists>r. map_of (pd_rollups d') (block_height (snd (commits ! i))) = Some r
            \<and> rollup_of E (snd (commits ! i)) (nexts' ! i)
                (notes_root E (tree_notes s1 @ concat (map block_leaves (map snd (take i commits))))) r)"
    by auto
  have other: "map_of (pd_rollups d1) h = map_of (pd_rollups d) h" if "h \<noteq> block_height b" for h
    using 1(4) that by (auto simp: after_block_def with_rollup_def split: if_splits)
  have first: "\<exists>r. map_of (pd_rollups d') (block_height b) = Some r \<and> rollup_of E b nb (notes_root E (tree_notes s)) r"
    if "proves_here E c V b"
    using 1(4) that r(4) Cons.prems(4) by (auto simp: after_block_def with_rollup_def cm)
  have roots: "notes_root E (tree_notes s1 @ concat (map block_leaves (map snd (take i commits))))
      = notes_root E ((tree_notes s @ block_leaves b) @ concat (map block_leaves (map snd (take i commits))))"
    if "i < length commits" for i
  proof -
    have pre: "slots_apart (a @ concat (map block_leaves (map snd (take i cs))))
        \<and> distinct (a @ concat (map block_leaves (map snd (take i cs))))"
      if "run_next E a (map snd cs)" "i < length cs" "distinct a" for a i and cs :: "('g \<times> block) list"
      using that
    proof (induction cs arbitrary: a i)
      case (Cons k cs)
      show ?case
      proof (cases i)
        case 0
        then show ?thesis using Cons.prems by (auto simp: block_next_def slots_apart_def inj_on_Un)
      next
        case (Suc j)
        have "distinct (a @ block_leaves (snd k))" using Cons.prems by (auto simp: block_next_def)
        with Cons.IH[of "a @ block_leaves (snd k)" j] Cons.prems Suc show ?thesis by simp
      qed
    qed simp
    show ?thesis
      using pre[OF \<open>run_next E (tree_notes s1) (map snd commits)\<close> that dist(2)] pre[OF rest that dist(1)] 1(3)
      by (intro notes_root_cong) auto
  qed
  have "worker_run E P F W c (stream_of (cm # commits)) s = Some (s', Inr ())" by (simp add: cm 1(1) r(1))
  moreover have "set (tree_notes s') = set (tree_notes s @ concat (map block_leaves (map snd (cm # commits))))"
    using r(3) 1(3) by (auto simp: cm)
  moreover have "\<forall>h. h \<notin> (\<lambda>c. block_height (snd c)) ` set (cm # commits) \<longrightarrow> map_of (pd_rollups d') h = map_of (pd_rollups d) h"
    using r(4) other by (auto simp: cm)
  moreover have "\<exists>r. map_of (pd_rollups d') (block_height (snd ((cm # commits) ! i))) = Some r
            \<and> rollup_of E (snd ((cm # commits) ! i)) (nexts ! i)
                (notes_root E (tree_notes s @ concat (map block_leaves (map snd (take i (cm # commits)))))) r"
    if "i < length (cm # commits)" "proves_here E c (fst ((cm # commits) ! i)) (snd ((cm # commits) ! i))" for i
  proof (cases i)
    case 0
    then show ?thesis using first that(2) by (simp add: cm nb(1))
  next
    case (Suc j)
    then show ?thesis using r(5) roots[of j] that by (auto simp: cm nb(1))
  qed
  ultimately show ?case using r(2) by blast
qed

lemma run_next_root:
  "run_next E els bs \<Longrightarrow> i < length bs \<Longrightarrow>
     notes_root E (els @ concat (map block_leaves (take (Suc i) bs))) = bs_root_hash (bc_state (b_content (bs ! i)))"
proof (induction bs arbitrary: els i)
  case (Cons b bs)
  show ?case
  proof (cases i)
    case 0
    then show ?thesis using Cons.prems by (simp add: block_next_def)
  next
    case (Suc j)
    then show ?thesis using Cons.IH[of "els @ block_leaves b" j] Cons.prems by simp
  qed
qed simp

text \<open>The root hash of the tree before the i-th block of a run.\<close>

definition root_before :: "element \<Rightarrow> block list \<Rightarrow> nat \<Rightarrow> element" where
  "root_before start bs i = (if i = 0 then start else bs_root_hash (bc_state (b_content (bs ! (i - 1)))))"

text \<open>
  C5: The worker follows a chain: on blocks that come one on top of the other, of which the ones it has
  to prove have at most six transactions, all with readable proofs, it neither fails nor panics, if
  the databases, Postgres, the stream and the creation of proofs do not fail. Its tree holds exactly the notes of all blocks, tree and last seen block agree, and for
  every block it has to prove a rollup is stored under the height of the block that leads from the
  root hash of the block before it to its own and carries its header hash and the approvals of the
  next block. So the stored rollups link up.
\<close>

theorem worker_run_chain:
  fixes F :: "'f::field field_ops"
  assumes "worker_env_ok E F W contents" and "proofs_work P readable" and "worker_inv E W contents d s"
    and "run_next E (tree_notes s) (map snd commits)" and "views_ok commits nexts"
    and "distinct (map (\<lambda>c. block_height (snd c)) commits)"
    and "\<forall>(V, b) \<in> set commits. proves_here E c V b \<longrightarrow> provable E F readable b"
  shows "\<exists>s' d'. worker_run E P F W c (stream_of commits) s = Some (s', Inr ()) \<and> worker_inv E W contents d' s'
    \<and> set (tree_notes s') = set (tree_notes s @ concat (map block_leaves (map snd commits)))
    \<and> (\<forall>i < length commits. proves_here E c (fst (commits ! i)) (snd (commits ! i)) \<longrightarrow>
         (\<exists>r. map_of (pd_rollups d') (block_height (snd (commits ! i))) = Some r
            \<and> rollup_of E (snd (commits ! i)) (nexts ! i)
                (root_before (notes_root E (tree_notes s)) (map snd commits) i) r))"
proof -
  have root: "notes_root E (tree_notes s @ concat (map block_leaves (map snd (take i commits))))
      = root_before (notes_root E (tree_notes s)) (map snd commits) i" if "i < length commits" for i
  proof (cases i)
    case (Suc j)
    then show ?thesis
      using run_next_root[OF assms(4), of j] that by (simp add: root_before_def take_map)
  qed (simp add: root_before_def)
  from worker_run_ok[OF assms] obtain s' d' where
    "worker_run E P F W c (stream_of commits) s = Some (s', Inr ())" "worker_inv E W contents d' s'"
    "set (tree_notes s') = set (tree_notes s @ concat (map block_leaves (map snd commits)))"
    "\<forall>i < length commits. proves_here E c (fst (commits ! i)) (snd (commits ! i)) \<longrightarrow>
         (\<exists>r. map_of (pd_rollups d') (block_height (snd (commits ! i))) = Some r
            \<and> rollup_of E (snd (commits ! i)) (nexts ! i)
                (notes_root E (tree_notes s @ concat (map block_leaves (map snd (take i commits))))) r)"
    by blast
  with root show ?thesis by (intro exI[of _ s'] exI[of _ d']) auto
qed

section \<open>Starts\<close>

lemma check_ok:
  assumes "worker_env_ok E F W contents" "worker_inv E W contents d s"
  shows "check_last_seen E W removed s = Some (Inr (Started s (ls_height (seen_of E d) + 1)))"
proof -
  have s: "on_disk E W contents d s" using assms(2) by (simp add: worker_inv_def)
  have r: "kv_ok (kv E) contents" "prover_wire_ok W" "prover_rep W d (contents (wk_db s))"
    using assms(1) s by (simp_all add: worker_env_ok_def on_disk_def)
  show ?thesis
    using assms(2) by (simp add: check_last_seen_def last_seen_default_eq tree_root[OF s] prover_db_reads(1)[OF r]
        worker_inv_def seen_of_def Let_def)
qed

lemma check_mismatch:
  assumes "worker_env_ok E F W contents" "on_disk E W contents d s"
    and "ls_root_hash (seen_of E d) \<noteq> notes_root E (tree_notes s)"
  shows "\<exists>db. check_last_seen E W (Inr u) s = Some (Inr (DeletedAndPanicked db))
    \<and> prover_rep W (d\<lparr>pd_last_seen := Some (default_seen E)\<rparr>) (contents db)"
proof -
  have r: "kv_ok (kv E) contents" "prover_wire_ok W" "prover_rep W d (contents (wk_db s))"
    using assms(1,2) by (simp_all add: worker_env_ok_def on_disk_def)
  obtain db where "set_last_seen_block (kv E) W (wk_db s) (default_seen E) = Inr db"
    "prover_rep W (d\<lparr>pd_last_seen := Some (default_seen E)\<rparr>) (contents db)"
    using set_last_seen_block_ok[OF r] by blast
  then show ?thesis
    using assms(3) by (auto simp: check_last_seen_def last_seen_default_eq tree_root[OF assms(2)]
        prover_db_reads(1)[OF r] seen_of_def Let_def)
qed

lemma highest_height_Some:
  "highest_height (Some h) els = Some (Max (insert h (snd ` set els)))"
proof (induction els arbitrary: h)
  case (Cons e els)
  obtain el i where e: "e = (el, i)" by (cases e)
  have "Max (insert (if i > h then i else h) (snd ` set els)) = Max (insert h (insert i (snd ` set els)))"
  proof (cases "set els = {}")
    case False
    then show ?thesis by (simp add: max_def) (auto simp: max_def)
  qed simp
  moreover have "highest_height (Some h) (e # els) = highest_height (Some (if i > h then i else h)) els"
    by (simp add: e)
  ultimately show ?case unfolding Cons.IH by (simp add: e)
qed simp

lemma highest_height_spec:
  "highest_height None els = (if els = [] then None else Some (Max (snd ` set els)))"
  by (cases els) (auto simp: highest_height_Some)

text \<open>The elements the start adds to the worker's tree.\<close>

lemma start_insert_ok:
  fixes node_tree :: "(u64, simple_cache) smirk_tree" and c :: u64
  assumes "worker_env_ok E F W contents" "on_disk E W contents d s"
    and "note_tree_inv E node_tree" "slots_apart (tree_notes s @ map fst (t_entries node_tree))"
  defines "missing \<equiv> rolled_up_missing node_tree c (ps_tree (wk_tree s))"
  shows "\<exists>b t. insert_entries (Suc 160) batch_new missing = Some (Inr b)
    \<and> persistent_insert_batch (kv E) (smirk_format E) (node_env.poseidon E) (Suc 160) (wk_tree s) b = Some (t, Inr ())
    \<and> on_disk E W contents d (s\<lparr>wk_tree := t\<rparr>)
    \<and> t_entries (ps_tree t) = add_entries (t_entries (ps_tree (wk_tree s))) missing"
proof -
  have env: "kv_ok (kv E) contents" "smirk_wire_ok (smirk_format E)" using assms(1) by (simp_all add: worker_env_ok_def)
  have inv: "persist_inv (node_env.poseidon E) (smirk_format E) contents 160 (wk_tree s)"
    using assms(2) by (simp add: on_disk_def)
  have sub: "set (map fst missing) \<subseteq> set (map fst (t_entries node_tree))"
    by (auto simp: missing_def rolled_up_missing_def tree_elements_def)
  have "distinct (map fst (t_entries node_tree))" using assms(3) by (simp add: tree_inv_def bt_ok_distinct)
  then have "distinct (map fst missing)"
    unfolding missing_def rolled_up_missing_def tree_elements_def by (rule distinct_map_filter)
  moreover have "slots_apart (tree_notes s @ map fst missing)"
    using assms(4) sub unfolding slots_apart_def by (elim inj_on_subset) auto
  moreover have "NULL_HASH \<notin> set (map fst missing)" using assms(3) sub by (auto simp: tree_inv_def)
  moreover have "\<forall>l \<in> set (map fst missing). \<not> contains_element (ps_tree (wk_tree s)) l"
    by (auto simp: missing_def rolled_up_missing_def)
  ultimately have new: "free_in 160 (ps_tree (wk_tree s)) (map fst missing)" "keyed 160 (map fst missing)"
    using new_leaves_ok by blast+
  from insert_entries_ok[OF batch_new_ok, of "Suc 160" missing] new(2) obtain b where
    b: "insert_entries (Suc 160) batch_new missing = Some (Inr b)" "batch_ok (Suc 160) b" "b_entries b = missing"
    by (auto simp: batch_new_def batch_elements_def)
  have n: "(160 :: nat) \<le> 256" by simp
  have "free_in 160 (ps_tree (wk_tree s)) (batch_elements b)" using new(1) by (simp add: batch_elements_def b(3))
  from persistent_insert_inv[OF env n inv b(2) this] b(1,3) assms(2) show ?thesis
    by (auto simp: on_disk_def)
qed

lemma worker_start_run:
  fixes F :: "'f::field field_ops" and node_tree :: "(u64, simple_cache) smirk_tree"
  assumes "worker_env_ok E F W contents" and "on_disk E W contents d s"
    and "note_tree_inv E node_tree" and "slots_apart (tree_notes s @ map fst (t_entries node_tree))"
    and "missing = rolled_up_missing node_tree c (ps_tree (wk_tree s))"
  shows "if missing = [] \<and> ls_root_hash (seen_of E d) \<noteq> notes_root E (tree_notes s)
    then \<exists>db. worker_start E W (Inr ()) node_tree c s = Some (Inr (DeletedAndPanicked db))
       \<and> prover_rep W (d\<lparr>pd_last_seen := Some (default_seen E)\<rparr>) (contents db)
    else \<exists>s' d'. worker_start E W (Inr ()) node_tree c s
          = Some (Inr (Started s' ((if missing = [] then ls_height (seen_of E d) else Max (snd ` set missing)) + 1)))
       \<and> worker_inv E W contents d' s' \<and> pd_rollups d' = pd_rollups d
       \<and> set (tree_notes s') = set (tree_notes s) \<union> {e. \<exists>i. (e, i) \<in> set (t_entries node_tree) \<and> i \<le> c}"
proof -
  obtain b t where bt: "insert_entries (Suc 160) batch_new missing = Some (Inr b)"
    "persistent_insert_batch (kv E) (smirk_format E) (node_env.poseidon E) (Suc 160) (wk_tree s) b = Some (t, Inr ())"
    "on_disk E W contents d (s\<lparr>wk_tree := t\<rparr>)"
    "t_entries (ps_tree t) = add_entries (t_entries (ps_tree (wk_tree s))) missing"
    using start_insert_ok[OF assms(1-4), of c] unfolding assms(5) by blast
  let ?s = "s\<lparr>wk_tree := t\<rparr>"
  have held: "set (tree_notes ?s) = set (tree_notes s) \<union> {e. \<exists>i. (e, i) \<in> set (t_entries node_tree) \<and> i \<le> c}"
    using keys_add_entries[of "t_entries (ps_tree (wk_tree s))" missing]
    by (force simp: bt(4) assms(5) rolled_up_missing_def tree_elements_def contains_notes image_iff)
  have start: "worker_start E W (Inr ()) node_tree c s =
      (case highest_height None missing of
         None \<Rightarrow> check_last_seen E W (Inr ()) ?s
       | Some height \<Rightarrow> do {
           root \<leftarrow> root_hash (node_env.poseidon E) (ps_tree t);
           (case set_last_seen_block (kv E) W (wk_db s) \<lparr>ls_height = height, ls_root_hash = root\<rparr> of
              Inl e \<Rightarrow> Some (Inl (WorkerDb e))
            | Inr db \<Rightarrow> check_last_seen E W (Inr ()) \<lparr>wk_db = db, wk_tree = t\<rparr>) })"
    using bt(1,2) unfolding worker_start_def Let_def depth_simps assms(5)[symmetric] by simp
  show ?thesis
  proof (cases "missing = []")
    case True
    then have eq: "worker_start E W (Inr ()) node_tree c s = check_last_seen E W (Inr ()) ?s"
      and same: "t_entries (ps_tree t) = t_entries (ps_tree (wk_tree s))"
      by (simp_all add: start highest_height_spec bt(4))
    show ?thesis
    proof (cases "ls_root_hash (seen_of E d) = notes_root E (tree_notes s)")
      case agree: True
      then have inv: "worker_inv E W contents d ?s" using bt(3) same by (simp add: worker_inv_def)
      with check_ok[OF assms(1) inv] held agree True eq show ?thesis
        by simp (intro exI[of _ ?s] exI[of _ d], simp)
    next
      case False
      with check_mismatch[OF assms(1) bt(3), of "()"] True eq same show ?thesis by simp
    qed
  next
    case False
    let ?l = "\<lparr>ls_height = Max (snd ` set missing), ls_root_hash = notes_root E (tree_notes ?s)\<rparr>"
    have r: "kv_ok (kv E) contents" "prover_wire_ok W" "prover_rep W d (contents (wk_db s))"
      using assms(1,2) by (simp_all add: worker_env_ok_def on_disk_def)
    obtain db where db: "set_last_seen_block (kv E) W (wk_db s) ?l = Inr db"
      "prover_rep W (d\<lparr>pd_last_seen := Some ?l\<rparr>) (contents db)"
      using set_last_seen_block_ok[OF r] by blast
    let ?s' = "\<lparr>wk_db = db, wk_tree = t\<rparr>" and ?d = "d\<lparr>pd_last_seen := Some ?l\<rparr>"
    have inv: "worker_inv E W contents ?d ?s'"
      using bt(3) db(2) by (simp add: worker_inv_def on_disk_def seen_of_def)
    have "worker_start E W (Inr ()) node_tree c s = check_last_seen E W (Inr ()) ?s'"
      using False tree_root[OF bt(3)] db(1) by (simp add: start highest_height_spec)
    moreover have "seen_of E ?d = ?l" by (simp add: seen_of_def)
    ultimately have eq: "worker_start E W (Inr ()) node_tree c s
        = Some (Inr (Started ?s' ((if missing = [] then ls_height (seen_of E d) else Max (snd ` set missing)) + 1)))"
      using False check_ok[OF assms(1) inv] by simp
    have held': "set (tree_notes ?s') = set (tree_notes s) \<union> {e. \<exists>i. (e, i) \<in> set (t_entries node_tree) \<and> i \<le> c}"
      and kept: "pd_rollups ?d = pd_rollups d" using held by simp_all
    show ?thesis
      using False eq inv kept held' by (subst if_not_P, blast) (intro exI[of _ ?s'] exI[of _ ?d] conjI)
  qed
qed

text \<open>
  C7: The start of the worker on any tree and database adds the notes of the node's tree that were
  inserted up to the height of the contract. If it lacked some, it always starts, after the highest
  height of the added ones; if not, it starts after the last seen block when tree and block agree,
  and otherwise forgets the block and stops for a start with an empty tree. Rollups are kept.
\<close>

theorem worker_start_spec:
  fixes F :: "'f::field field_ops" and node_tree :: "(u64, simple_cache) smirk_tree"
  assumes "worker_env_ok E F W contents" and "on_disk E W contents d s"
    and "note_tree_inv E node_tree" and "slots_apart (tree_notes s @ map fst (t_entries node_tree))"
    and "missing = rolled_up_missing node_tree c (ps_tree (wk_tree s))"
  shows "if missing = [] \<and> ls_root_hash (seen_of E d) \<noteq> notes_root E (tree_notes s)
    then \<exists>db. worker_start E W (Inr ()) node_tree c s = Some (Inr (DeletedAndPanicked db))
       \<and> prover_rep W (d\<lparr>pd_last_seen := Some (default_seen E)\<rparr>) (contents db)
    else \<exists>s' d'. worker_start E W (Inr ()) node_tree c s
          = Some (Inr (Started s' ((if missing = [] then ls_height (seen_of E d) else Max (snd ` set missing)) + 1)))
       \<and> worker_inv E W contents d' s' \<and> pd_rollups d' = pd_rollups d
       \<and> set (tree_notes s') = set (tree_notes s) \<union> {e. \<exists>i. (e, i) \<in> set (t_entries node_tree) \<and> i \<le> c}"
  by (rule worker_start_run[OF assms])

text \<open>
  The start goes on after the highest height it caught up with, or after \<open>h\<close>, with these rollups, and
  with tree and last seen block in agreement.
\<close>

definition start_height :: "(element \<times> u64) list \<Rightarrow> u64 \<Rightarrow> u64" where
  "start_height missing h = (if missing = [] then h else Max (snd ` set missing))"

definition starts_after ::
  "('db, 'e) node_env \<Rightarrow> 'e prover_wire \<Rightarrow> ('db \<Rightarrow> kv_contents) \<Rightarrow> (u64, simple_cache) smirk_tree \<Rightarrow> u64
     \<Rightarrow> (u64 \<times> rollup_input) list \<Rightarrow> u64 \<Rightarrow> 'db worker_state \<Rightarrow> bool" where
  "starts_after E W contents node_tree c rollups h s \<longleftrightarrow>
     (\<exists>s' d'. worker_start E W (Inr ()) node_tree c s
          = Some (Inr (Started s' (start_height (rolled_up_missing node_tree c (ps_tree (wk_tree s))) h + 1)))
        \<and> worker_inv E W contents d' s' \<and> pd_rollups d' = rollups)"

lemma worker_start_agree:
  fixes F :: "'f::field field_ops" and node_tree :: "(u64, simple_cache) smirk_tree"
  assumes "worker_env_ok E F W contents" and "worker_inv E W contents d s"
    and "note_tree_inv E node_tree" and "slots_apart (tree_notes s @ map fst (t_entries node_tree))"
  shows "starts_after E W contents node_tree c (pd_rollups d) (ls_height (seen_of E d)) s"
  using worker_start_run[OF assms(1) _ assms(3,4) refl, of d c] assms(2)
  unfolding starts_after_def start_height_def worker_inv_def by (simp only: simp_thms if_False) blast

text \<open>
  C6: A crash of the worker between any two of its writes for a block, and the next start. Before the
  tree is written the start goes on with the same block, after the last seen block is written with
  the next one, in both cases from the heights it caught up with, if the node's tree has rolled-up
  notes that the worker's tree lacks. In between, when the block changes the root and there is nothing to
  catch up with, the start finds the mismatch, forgets the last seen block and deletes the tree; when
  there is, it goes on after what it caught up with and does not notice the crash. The rollup is kept in all
  cases.
\<close>

theorem worker_crash:
  fixes F :: "'f::field field_ops" and node_tree :: "(u64, simple_cache) smirk_tree"
  assumes "worker_env_ok E F W contents" and "worker_inv E W contents d s" and "block_next E (tree_notes s) b"
    and "store_rollup E W b nb p s = (s1, Inr ())" and "apply_commit E b False s1 = Some (s2, Inr ())"
    and "seen_commit E W b s2 = (s3, Inr ())"
    and "note_tree_inv E node_tree" and "slots_apart (tree_notes s @ block_leaves b @ map fst (t_entries node_tree))"
  shows "\<exists>r. ri_proof r = p
    \<and> starts_after E W contents node_tree c (pd_rollups d) (ls_height (seen_of E d)) s
    \<and> starts_after E W contents node_tree c (bt_insert (block_height b) r (pd_rollups d)) (ls_height (seen_of E d)) s1
    \<and> starts_after E W contents node_tree c (bt_insert (block_height b) r (pd_rollups d)) (block_height b) s3
    \<and> (if rolled_up_missing node_tree c (ps_tree (wk_tree s2)) = []
           \<and> bs_root_hash (bc_state (b_content b)) \<noteq> ls_root_hash (seen_of E d)
        then \<exists>db d'. worker_start E W (Inr ()) node_tree c s2 = Some (Inr (DeletedAndPanicked db))
           \<and> prover_rep W d' (contents db) \<and> pd_last_seen d' = Some (default_seen E)
           \<and> pd_rollups d' = bt_insert (block_height b) r (pd_rollups d)
        else starts_after E W contents node_tree c (bt_insert (block_height b) r (pd_rollups d)) (ls_height (seen_of E d)) s2)"
proof -
  have s: "on_disk E W contents d s" using assms(2) by (simp add: worker_inv_def)
  obtain r where r: "wk_tree s1 = wk_tree s" "on_disk E W contents (with_rollup b r d) s1" "ri_proof r = p"
    using store_rollup_ok[OF assms(1) s, of b nb p] assms(4)
    by (auto simp: with_rollup_def rollup_input_new_def)
  have b1: "block_next E (tree_notes s1) b" using assms(3) by (simp add: r(1))
  obtain s2' where "apply_commit E b False s1 = Some (s2', Inr ())" "on_disk E W contents (with_rollup b r d) s2'"
    "set (tree_notes s2') = set (tree_notes s1 @ block_leaves b)"
    "notes_root E (tree_notes s2') = bs_root_hash (bc_state (b_content b))"
    using apply_commit_ok[OF assms(1) r(2) b1, of False] by blast
  then have a: "on_disk E W contents (with_rollup b r d) s2" "set (tree_notes s2) = set (tree_notes s @ block_leaves b)"
    "notes_root E (tree_notes s2) = bs_root_hash (bc_state (b_content b))"
    using assms(5) unfolding r(1) by (simp_all only: option.inject prod.inject simp_thms)
  have c: "wk_tree s3 = wk_tree s2" "on_disk E W contents (after_block b (with_rollup b r d)) s3"
    using seen_commit_ok[OF assms(1) a(1), of b] assms(6) by (auto simp: after_block_def)
  have seen: "seen_of E (with_rollup b r d) = seen_of E d" "pd_rollups (with_rollup b r d) = bt_insert (block_height b) r (pd_rollups d)"
    "seen_of E (after_block b (with_rollup b r d)) = \<lparr>ls_height = block_height b, ls_root_hash = bs_root_hash (bc_state (b_content b))\<rparr>"
    "pd_rollups (after_block b (with_rollup b r d)) = bt_insert (block_height b) r (pd_rollups d)"
    by (simp_all add: seen_of_def with_rollup_def after_block_def)
  have i1: "worker_inv E W contents (with_rollup b r d) s1"
    using assms(2) r(1,2) by (simp add: worker_inv_def seen)
  have i3: "worker_inv E W contents (after_block b (with_rollup b r d)) s3"
    using a(3) c by (intro after_block_inv) simp_all
  have apart: "slots_apart (tree_notes s @ map fst (t_entries node_tree))"
      "slots_apart (tree_notes s2 @ map fst (t_entries node_tree))"
    using assms(8) a(2) unfolding slots_apart_def by (auto elim!: inj_on_subset)
  let ?m = "rolled_up_missing node_tree c (ps_tree (wk_tree s2))"
  let ?crash = "?m = [] \<and> bs_root_hash (bc_state (b_content b)) \<noteq> ls_root_hash (seen_of E d)"
  have crash: "?m = [] \<and> ls_root_hash (seen_of E (with_rollup b r d)) \<noteq> notes_root E (tree_notes s2) \<longleftrightarrow> ?crash"
    by (auto simp: seen(1) a(3))
  note start2 = worker_start_run[OF assms(1) a(1) assms(7) apart(2) refl, of c, unfolded crash]
  have 2: "if ?crash
        then \<exists>db d'. worker_start E W (Inr ()) node_tree c s2 = Some (Inr (DeletedAndPanicked db))
           \<and> prover_rep W d' (contents db) \<and> pd_last_seen d' = Some (default_seen E)
           \<and> pd_rollups d' = bt_insert (block_height b) r (pd_rollups d)
        else starts_after E W contents node_tree c (bt_insert (block_height b) r (pd_rollups d)) (ls_height (seen_of E d)) s2"
  proof (cases ?crash)
    case True
    then obtain db where db: "worker_start E W (Inr ()) node_tree c s2 = Some (Inr (DeletedAndPanicked db))"
        "prover_rep W ((with_rollup b r d)\<lparr>pd_last_seen := Some (default_seen E)\<rparr>) (contents db)"
      using start2 unfolding if_P[OF True] by blast
    then show ?thesis
      unfolding if_P[OF True]
      by (intro exI[of _ db] exI[of _ "(with_rollup b r d)\<lparr>pd_last_seen := Some (default_seen E)\<rparr>"]) (simp add: with_rollup_def)
  next
    case False
    then show ?thesis
      using start2 unfolding if_not_P[OF False] starts_after_def start_height_def seen(1,2) by blast
  qed
  note agree = worker_start_agree[OF assms(1) _ assms(7), of _ _ c]
  have "starts_after E W contents node_tree c (pd_rollups d) (ls_height (seen_of E d)) s"
    by (rule agree[OF assms(2) apart(1)])
  moreover have "starts_after E W contents node_tree c (bt_insert (block_height b) r (pd_rollups d)) (ls_height (seen_of E d)) s1"
    using agree[OF i1] apart(1) by (simp add: seen r(1))
  moreover have "starts_after E W contents node_tree c (bt_insert (block_height b) r (pd_rollups d)) (block_height b) s3"
    using agree[OF i3] apart(2) by (simp add: seen c(1))
  ultimately show ?thesis using r(3) 2 by blast
qed

end
