(* ===== verification/Worker_Sample.thy ===== *)
theory Worker_Sample
  imports Prover_Worker_Props Prover_Sample Node_Sample
begin

text \<open>
  A concrete worker for the witnesses: the environment of \<open>Node_Sample\<close>, a field whose hash is the
  sum, a wire format of the worker's values, and two blocks, the first of which mints the note 5.
\<close>

section \<open>The environment\<close>

definition sum_field :: "rat field_ops" where
  "sum_field = field_ops.poseidon_update (\<lambda>_ l. of_nat (unat (\<Sum>r\<leftarrow>l. word_of_nat (nat \<lfloor>r\<rfloor>) :: element))) rat_field"

lemma sum_to_base: "to_base sum_field e = of_nat (unat e)"
  by (simp add: to_base_def sum_field_def rat_field_def limbs_value_of_element del: of_nat_unat)

lemma sum_from_base: "from_base sum_field r = word_of_nat (nat \<lfloor>r\<rfloor>)"
  by (simp add: from_base_def sum_field_def rat_field_def)

lemma sum_poseidon: "field_ops.poseidon sum_field l = of_nat (unat (\<Sum>r\<leftarrow>l. word_of_nat (nat \<lfloor>r\<rfloor>) :: element))"
  by (simp add: sum_field_def)

lemma sum_field_ok: "fr_ok sum_field" "fr_canonical sum_field"
  unfolding fr_ok_def fr_canonical_def sum_to_base sum_from_base
  by (auto simp: sum_field_def rat_field_def word_of_nat_unat simp del: of_nat_unat)

lemma sum_hash: "hash_pair sum_field = (+)"
proof (intro ext)
  show "hash_pair sum_field l r = l + r" for l r
    by (simp add: hash_merge_def sum_to_base sum_from_base sum_poseidon word_of_nat_unat del: of_nat_unat)
qed

definition proof_codec :: "prover_proof codec" where
  "proof_codec = map_codec
     (\<lambda>p. (pr_proof p, pr_agg_instances p, pr_old_root p, pr_new_root p, pr_utxo_hashes p))
     (\<lambda>(a, b, c, d, e). \<lparr>pr_proof = a, pr_agg_instances = b, pr_old_root = c, pr_new_root = d, pr_utxo_hashes = e\<rparr>)
     (pair_codec bytes_codec (pair_codec (list_codec element_codec)
       (pair_codec element_codec (pair_codec element_codec (list_codec element_codec)))))"

definition rollup_codec :: "rollup_input codec" where
  "rollup_codec = map_codec
     (\<lambda>r. (ri_proof r, ri_height r, ri_other_hash r, ri_signatures r))
     (\<lambda>(a, b, c, d). \<lparr>ri_proof = a, ri_height = b, ri_other_hash = c, ri_signatures = d\<rparr>)
     (pair_codec proof_codec (pair_codec u64_codec (pair_codec element_codec (list_codec bytes_codec))))"

definition value_codec :: "prover_value codec" where
  "value_codec = map_codec
     (\<lambda>v. case v of ValueLastSeenBlock l \<Rightarrow> (Some (ls_height l, ls_root_hash l), None, 0)
                  | ValueRollup r \<Rightarrow> (None, Some r, 0) | ValueProverVersion n \<Rightarrow> (None, None, n))
     (\<lambda>(l, r, n). case l of Some (h, hash) \<Rightarrow> ValueLastSeenBlock \<lparr>ls_height = h, ls_root_hash = hash\<rparr>
                           | None \<Rightarrow> (case r of Some r \<Rightarrow> ValueRollup r | None \<Rightarrow> ValueProverVersion n))
     (pair_codec (option_codec (pair_codec u64_codec element_codec)) (pair_codec (option_codec rollup_codec) u64_codec))"

lemma value_codec_ok: "codec_ok value_codec"
proof -
  have "codec_ok proof_codec"
    unfolding proof_codec_def by (intro map_codec_ok pair_codec_ok list_codec_ok simple_codecs_ok) simp
  then have "codec_ok rollup_codec"
    unfolding rollup_codec_def by (intro map_codec_ok pair_codec_ok list_codec_ok simple_codecs_ok) simp_all
  then show ?thesis
    unfolding value_codec_def
    by (intro map_codec_ok pair_codec_ok option_codec_ok simple_codecs_ok) (simp_all split: prover_value.split)
qed

definition sample_wire :: "unit prover_wire" where
  "sample_wire = \<lparr>pv_to_bytes = Inr \<circ> fst value_codec, pv_from_bytes = run_codec value_codec\<rparr>"

lemma sample_worker_env: "worker_env_ok sample_env sum_field sample_wire store_contents"
  using run_codec_ok[OF value_codec_ok]
  by (simp add: worker_env_ok_def sum_field_ok sum_hash prover_wire_ok_def sample_wire_def)

section \<open>A fresh worker and two blocks\<close>

definition sample_worker :: "kv_contents worker_state" where
  "sample_worker = \<lparr>wk_db = [], wk_tree = sample_tree\<rparr>"

definition fresh_data :: prover_data where
  "fresh_data = \<lparr>pd_last_seen = None, pd_rollups = [], pd_version = None\<rparr>"

lemma fresh_seen [simp]: "seen_of sample_env fresh_data = default_seen sample_env"
  by (simp add: seen_of_def fresh_data_def)

lemma sample_worker_notes [simp]: "tree_notes sample_worker = []"
  by (simp add: sample_worker_def)

lemma sample_worker_inv: "worker_inv sample_env sample_wire store_contents fresh_data sample_worker"
proof -
  have "map_option (prover_enc sample_wire) (value_at fresh_data k) = None" for k
    by (cases k) (simp_all add: fresh_data_def)
  then have "prover_rep sample_wire fresh_data []" by (simp add: prover_rep_def fresh_data_def)
  then show ?thesis
    using sample_tree_inv
    by (simp add: worker_inv_def on_disk_def sample_worker_def default_seen_def)
qed

definition minting_five :: utxo_proof where
  "minting_five = \<lparr>up_recent_root = 0, up_mb_hash = 0, up_mb_value = 0, up_input_leaves = (0, 0),
                   up_output_leaves = (5, 0), up_proof = []\<rparr>"

definition block_of :: "u64 \<Rightarrow> utxo_proof list \<Rightarrow> block" where
  "block_of h txns = \<lparr>b_content = \<lparr>bc_header = bc_header content_genesis\<lparr>bh_height := h\<rparr>,
      bc_state = \<lparr>bs_root_hash = notes_root sample_env [5], bs_txns = txns\<rparr>\<rparr>, b_signature = signature_default\<rparr>"

lemma block_of_simps [simp]:
  "block_height (block_of h us) = h" "block_leaves (block_of h [minting_five]) = [5]" "block_leaves (block_of h []) = []"
  "bs_root_hash (bc_state (b_content (block_of h us))) = notes_root sample_env [5]"
  "bs_txns (bc_state (b_content (block_of h us))) = us"
  by (simp_all add: block_of_def state_leaves_def leaves_def array2_def minting_five_def content_genesis_def ZERO_def)

lemma five_slot: "lsb ZERO 160 \<noteq> lsb 5 160"
  by code_simp

lemma sample_run: "run_next sample_env [] [block_of 1 [minting_five], block_of 2 []]"
proof -
  have "\<forall>e \<in> set (instances minting_five). is_canonical e"
    by (simp add: instances_def leaves_def array2_def minting_five_def canonical_iff MODULUS_def)
  then show ?thesis
    using five_slot by (simp add: block_next_def slots_apart_def)
qed

definition sample_view :: "unit commit_view" where
  "sample_view = \<lparr>cm_lock = None, cm_next = Some (Inr (block_of 2 [])), cm_inserted = Inr ()\<rparr>"

lemma sample_views:
  "views_ok [(sample_view, block_of 1 [minting_five]), (sample_view, block_of 2 [])] [block_of 2 [], block_of 2 []]"
  by (simp add: views_ok_def view_ok_def sample_view_def)

lemma sample_proves: "proves_here sample_env 0 sample_view (block_of 1 [minting_five])"
  by (simp add: proves_here_def sample_view_def)

section \<open>The worker on these blocks\<close>

lemma worker_run_chain_witness:
  "\<exists>s' d' r. worker_run sample_env sample_prover sum_field sample_wire 0
       [(sample_view, Inr (block_of 1 [minting_five])), (sample_view, Inr (block_of 2 []))] sample_worker = Some (s', Inr ())
     \<and> worker_inv sample_env sample_wire store_contents d' s' \<and> set (tree_notes s') = {5}
     \<and> map_of (pd_rollups d') 1 = Some r
     \<and> rollup_of sample_env (block_of 1 [minting_five]) (block_of 2 []) (notes_root sample_env []) r"
proof -
  let ?cs = "[(sample_view, block_of 1 [minting_five]), (sample_view, block_of 2 [])]"
  have run: "run_next sample_env (tree_notes sample_worker) (map snd ?cs)"
    and heights: "distinct (map (\<lambda>c. block_height (snd c)) ?cs)"
    using sample_run by simp_all
  have few: "\<forall>(V, b) \<in> set ?cs. proves_here sample_env 0 V b \<longrightarrow> provable sample_env sum_field (\<lambda>_. True) b"
    by (simp add: provable_def MAXIMUM_TXNS_def depths)
  from worker_run_chain[OF sample_worker_env sample_prover_ok sample_worker_inv run sample_views heights few] sample_proves
  show ?thesis by (force simp: root_before_def)
qed

lemma spec_root_single:
  "length q = n \<Longrightarrow> (\<forall>q'. length q' = n \<longrightarrow> q' \<noteq> q \<longrightarrow> f q' = 0) \<Longrightarrow> spec_root (+) n f = (f q :: element)"
proof (induction n arbitrary: q f)
  case (Suc n)
  obtain b p where q: "q = b # p" "length p = n" using Suc.prems(1) by (cases q) auto
  have "spec_root (+) n (\<lambda>q. f (b # q)) = f (b # p)" using Suc.prems(2) q by (intro Suc.IH) auto
  moreover have "spec_root (+) n (\<lambda>q. f ((\<not> b) # q)) = f ((\<not> b) # p)" using Suc.prems(2) q by (intro Suc.IH) auto
  moreover have "f ((\<not> b) # p) = 0" using Suc.prems(2) q by simp
  ultimately show ?case by (cases b) (simp_all add: q)
qed simp

lemma five_root: "notes_root sample_env [5] = 5" "notes_root sample_env [] = 0"
proof -
  have "length (lsb (5 :: element) 160) = 160" by (simp add: lsb_eq_map)
  from spec_root_single[OF this, of "slots 160 [5]"] spec_root_single[OF this, of "slots 160 []"]
  show "notes_root sample_env [5] = 5" "notes_root sample_env [] = 0"
    by (simp_all add: slots_def slot_upd_def element_consts)
qed

definition sample_proof :: prover_proof where
  "sample_proof = \<lparr>pr_proof = [], pr_agg_instances = [], pr_old_root = 0, pr_new_root = 5, pr_utxo_hashes = []\<rparr>"

lemma sample_on_disk: "on_disk sample_env sample_wire store_contents fresh_data sample_worker"
  using sample_worker_inv by (simp add: worker_inv_def)

lemma sample_block_next: "block_next sample_env (tree_notes sample_worker) (block_of 1 [minting_five])"
  using sample_run by simp

text \<open>A node whose tree holds the note 5 of height 1, while the contract is at height 0.\<close>

lemma worker_crash_witness:
  "\<exists>s1 s2 s3 db node_tree. t_entries node_tree = [(5, 1)]
     \<and> store_rollup sample_env sample_wire (block_of 1 [minting_five]) (block_of 2 []) sample_proof sample_worker = (s1, Inr ())
     \<and> apply_commit sample_env (block_of 1 [minting_five]) False s1 = Some (s2, Inr ())
     \<and> seen_commit sample_env sample_wire (block_of 1 [minting_five]) s2 = (s3, Inr ())
     \<and> (\<exists>s'. worker_start sample_env sample_wire (Inr ()) node_tree 0 s1 = Some (Inr (Started s' 1)))
     \<and> worker_start sample_env sample_wire (Inr ()) node_tree 0 s2 = Some (Inr (DeletedAndPanicked db))
     \<and> (\<exists>s'. worker_start sample_env sample_wire (Inr ()) node_tree 0 s3 = Some (Inr (Started s' 2)))"
proof -
  let ?b = "block_of 1 [minting_five]"
  obtain s1 d1 where s1: "store_rollup sample_env sample_wire ?b (block_of 2 []) sample_proof sample_worker = (s1, Inr ())"
    "wk_tree s1 = wk_tree sample_worker" "on_disk sample_env sample_wire store_contents d1 s1"
    using store_rollup_ok[OF sample_worker_env sample_on_disk] by blast
  have b1: "block_next sample_env (tree_notes s1) ?b" using sample_block_next by (simp add: s1(2))
  obtain s2 where s2: "apply_commit sample_env ?b False s1 = Some (s2, Inr ())"
    "on_disk sample_env sample_wire store_contents d1 s2" "t_entries (ps_tree (wk_tree s2)) = [(5, 1)]"
    using apply_commit_ok[OF sample_worker_env s1(3) b1, of False] by (auto simp: s1(2) sample_worker_def)
  obtain s3 where s3: "seen_commit sample_env sample_wire ?b s2 = (s3, Inr ())" "wk_tree s3 = wk_tree s2"
    using seen_commit_ok[OF sample_worker_env s2(2)] by blast
  let ?t = "ps_tree (wk_tree s2)"
  have inv: "note_tree_inv sample_env ?t" using s2(2) by (simp add: on_disk_def persist_inv_def)
  have apart: "slots_apart (tree_notes sample_worker @ block_leaves ?b @ map fst (t_entries ?t))"
    by (simp add: s2(3) slots_apart_def)
  have none: "rolled_up_missing ?t 0 t' = []" for t'
    by (simp add: rolled_up_missing_def tree_elements_def s2(3))
  have differ: "bs_root_hash (bc_state (b_content ?b)) \<noteq> ls_root_hash (seen_of sample_env fresh_data)"
    unfolding fresh_seen default_seen_def block_of_simps last_seen_block.simps five_root by simp
  have heights: "ls_height (seen_of sample_env fresh_data) + 1 = 1" "block_height ?b + 1 = 2"
    by (simp_all add: default_seen_def)
  have agree: "\<exists>s'. worker_start sample_env sample_wire (Inr ()) ?t 0 x = Some (Inr (Started s' (h + 1)))"
    if "starts_after sample_env sample_wire store_contents ?t 0 rollups h x" for rollups h x
    using that none by (auto simp: starts_after_def start_height_def)
  from worker_crash[OF sample_worker_env sample_worker_inv sample_block_next s1(1) s2(1) s3(1) inv apart, of 0]
  obtain r db where "starts_after sample_env sample_wire store_contents ?t 0 (bt_insert (block_height ?b) r (pd_rollups fresh_data))
       (ls_height (seen_of sample_env fresh_data)) s1"
     "starts_after sample_env sample_wire store_contents ?t 0 (bt_insert (block_height ?b) r (pd_rollups fresh_data)) (block_height ?b) s3"
     "worker_start sample_env sample_wire (Inr ()) ?t 0 s2 = Some (Inr (DeletedAndPanicked db))"
    using differ none by (simp only: simp_thms if_True) blast
  from agree[OF this(1)] agree[OF this(2)] this(3) show ?thesis
    unfolding heights using s1(1) s2(1,3) s3(1) by (intro exI[of _ s1] exI[of _ s2] exI[of _ s3] exI[of _ db] exI[of _ ?t]) simp
qed

lemma worker_start_spec_witness:
  "\<exists>node_tree s'. t_entries node_tree = [(5, 1)]
     \<and> worker_start sample_env sample_wire (Inr ()) node_tree 1 sample_worker = Some (Inr (Started s' 2))
     \<and> set (tree_notes s') = {5}"
proof -
  obtain s where s: "on_disk sample_env sample_wire store_contents fresh_data s" "t_entries (ps_tree (wk_tree s)) = [(5, 1)]"
    using apply_commit_ok[OF sample_worker_env sample_on_disk sample_block_next, of False] by (auto simp: sample_worker_def)
  let ?t = "ps_tree (wk_tree s)"
  have inv: "note_tree_inv sample_env ?t" using s(1) by (simp add: on_disk_def persist_inv_def)
  have apart: "slots_apart (tree_notes sample_worker @ map fst (t_entries ?t))"
    by (simp add: s(2) slots_apart_def)
  have missing: "rolled_up_missing ?t 1 (ps_tree (wk_tree sample_worker)) = [(5, 1)]"
    by (simp add: rolled_up_missing_def tree_elements_def s(2) contains_notes)
  from worker_start_spec[OF sample_worker_env sample_on_disk inv apart missing[symmetric]] s(2)
  show ?thesis by (intro exI[of _ ?t]) auto
qed

end
