(* ===== verification/Spec2Isabelle.thy ===== *)
theory Spec2Isabelle
  imports Zk_Props Smirk_Props Doomslug_Props Mempool Block_Store_Props Smirk_Storage_Props
    Node_Cache Node_Validate_Props Node_Sample Node_Reach Node_Recovery Node_Sync_Props Node_Run
    Circuit_Sample Prover_Sample Worker_Sample
begin

text \<open>
  A verification of the Payy node: the Rust workspace \<open>pkg/\<close> of a rollup of private notes.

  \<^bold>\<open>The program.\<close> Validators agree on a chain of blocks. A block carries transactions: proofs that some
  notes are spent and others created, with the leaves of both. Every node stores the blocks, keeps a
  sparse Merkle tree of all leaves, and validates a block before it commits it. A prover turns each
  committed block into one proof that leads from the root of the tree before the block to the root
  after it, which goes to Ethereum. The parts and how they meet:
  \<^item> \<open>pkg/zk-primitives\<close>, \<open>pkg/smirk\<close>: elements, hashing, the tree, its batches and its database;
  \<^item> \<open>pkg/block-store\<close>, \<open>pkg/wire-message\<close>, \<open>pkg/primitives\<close> (pagination): the stored blocks;
  \<^item> \<open>pkg/doomslug\<close>: the approvals that let a leader produce a block;
  \<^item> \<open>pkg/node\<close>: mempool, cache of blocks that wait for their predecessors, validation, proposals,
    the tick that commits, recovery, synchronisation, the prover worker;
  \<^item> \<open>pkg/zk-circuits\<close>, \<open>pkg/prover\<close>: the circuits of transactions, insertions and aggregations, and
    the prover that fills them.

  \<^bold>\<open>Conventions\<close> (\<open>Payy_Prelude\<close>). A Rust integer is a word of its width, except that the heights, instants
  and durations of Doomslug are naturals, the heights because no height comes near the end of its range
  (an addition there would wrap in the code and does not in the model). A struct is a record, an enum a
  datatype, a \<open>Result\<close> a sum with the error on the left, a computation that may panic an option whose
  \<open>None\<close> is the panic, an ordered map an association list in key order. State is passed explicitly; a
  function that awaits is one step. A hash set or map is a list in the order of its insertions; the reachable
  states of the mempool, which iterates over one, are closed under its reorderings. Definitions keep the names
  of the code, with a prefix or suffix where HOL has the name.

  \<^bold>\<open>What models what.\<close>
  \<^item> \<open>Zk_Element\<close>, \<open>Zk_Hash\<close>, \<open>Zk_Props\<close>: \<open>Element\<close> with its encodings, slots (\<open>lsb\<close>) and conversions
    to the field, hashing and Merkle roots. Encodings are inverse; conversion reduces by the modulus.
  \<^item> \<open>Smirk_Cache\<close>: the two hash caches behind the locale \<open>hash_cache\<close>, and the empty-tree hashes.
    \<open>Smirk_Batch\<close>: batches without colliding slots. \<open>Smirk_Node\<close>, \<open>Smirk_Hashing\<close>: the nodes, insertion
    without hashing and rehashing; \<open>spec_root\<close> is the abstract Merkle root of a function from slots to
    elements. \<open>Smirk_Tree\<close>, \<open>Smirk_Correct\<close>, \<open>Smirk_Path\<close>, \<open>Smirk_Props\<close>: the tree and its invariant
    \<open>tree_inv\<close>; every operation keeps it, adds exactly the entries asked for and has the abstract root.
  \<^item> \<open>Kv_Store\<close>: the key-value database as a record of operations with the laws \<open>kv_ok\<close>, and an
    instance in memory. \<open>Wire_Message\<close>: the upgrade loop as a locale over a format, interpreted on the
    stored formats. \<open>Block_Store\<close>, \<open>Block_Store_Inv\<close>, \<open>Block_Store_Props\<close>, \<open>Pagination\<close>: the block
    store refines a history of blocks; lists, pages, migration. \<open>Smirk_Storage\<close>,
    \<open>Smirk_Storage_Props\<close>: the tree on disk; an insertion is durable.
  \<^item> \<open>Doomslug\<close>, \<open>Doomslug_Inv\<close>, \<open>Doomslug_Props\<close>: the state of the approvals as operations and as a
    step relation; quorums in every reachable state, bounds of the windows, the timer.
  \<^item> \<open>Mempool\<close>, \<open>Node_Cache\<close>: leases of transactions; the bounded cache as a refinement of a map from
    heights to blocks.
  \<^item> \<open>Node_Block\<close>, \<open>Node_Validate\<close>, \<open>Node_Validate_Props\<close>, \<open>Node_Sample\<close>: blocks, transactions and their
    formats; what validation accepts, and that an accepted block applies to the tree.
  \<^item> \<open>Node_Core\<close>, \<open>Node_Core_Props\<close>, \<open>Node_Reach\<close>, \<open>Node_Recovery\<close>: the state behind the locks of
    \<open>NodeShared\<close> and its operations; the invariant ties the store, the tree and the chain together and
    every operation keeps it; a tick ends, or panics on a proof that cannot be read; a crash at any point
    of a commit is repaired at the next start but for the first block. \<open>Node_Sync\<close>, \<open>Node_Sync_Props\<close>:
    the sync worker as a state machine, what slow and fast snapshots do. \<open>Node_Run\<close>: the runs of the node
    with its sync worker, without fast snapshots, and no double spend along them.
  \<^item> \<open>Circuit_Chips\<close>, \<open>Circuit_Gadgets\<close>: the chips; one function gives both halves of a chip, run for an
    honest prover (the values of \<open>assign\<close>) or for one that chose its cells (only the gates bind it).
    \<open>Circuit_Utxo\<close>, \<open>Circuit_Utxo_Props\<close>: the transaction circuit is sound and complete.
    \<open>Circuit_Insert\<close>, \<open>Circuit_Insert_Props\<close>, \<open>Circuit_Rollup\<close>: insertions and aggregations; a proved
    rollup inserts exactly the leaves of its transactions. \<open>Circuit_Sample\<close>: the theorems at a
    concrete transaction and batch.
  \<^item> \<open>Prover_Batch\<close>, \<open>Prover\<close>, \<open>Prover_Props\<close>, \<open>Prover_Sample\<close>: batches are provable, a block's proof has
    the right roots, and the circuit the aggregations are really proved with. \<open>Prover_Db\<close>,
    \<open>Prover_Worker\<close>, \<open>Prover_Worker_Props\<close>, \<open>Worker_Sample\<close>: the worker that proves the committed
    blocks, and its database; along a chain of blocks it can prove the stored rollups link up, a crash
    between two of its writes is noticed at the next start if the start has nothing to catch up with,
    and a start catches up with the rolled-up notes.

  \<^bold>\<open>Parameters.\<close> Code outside the repository is an argument: Keccak-256, Poseidon and the representation
  of field elements (\<open>field_ops\<close>, with the laws \<open>fr_ok\<close>, \<open>fr_canonical\<close>, \<open>field_repr_ok\<close>), the formats
  derived with Borsh, signing and recovery, the proof system and its accumulator (\<open>verify_proof\<close>,
  which may fail on a proof it cannot read and then makes \<open>snark_verify\<close> panic, and \<open>prover_env\<close>), RocksDB (\<open>kv_ops\<close>), what is read from Ethereum, Postgres, clocks and channels. Each
  hypothesis on them is the documented behaviour and has a concrete instance in a witness.

  \<^bold>\<open>Collisions.\<close> No theorem assumes of a hash that it never collides. Where it matters, the conclusion
  has a collision among finitely many things as its other case: pairs that were hashed (circuits, paths),
  blocks of different heights that were inserted into a cache or seen by a node (\<open>heights_clash\<close>). Notes
  with the same 160 bits of slot are such a case in \<open>no_double_spend\<close>; elsewhere that the notes at hand
  have different slots is a premise (\<open>slots_apart\<close>, \<open>env_ok\<close>), since the tree cannot hold others.

  \<^bold>\<open>Bounds and fuel.\<close> Trees have depth 161, so 160 bits of a leaf choose its slot; the tree lemmas hold
  for every depth up to 257. Decompositions in circuits have 256 bits. The migration loop has fuel 2,
  one round for each version and one to see the end. The loop of a tick has one more than the heights
  in the cache: each round commits one of them or removes it. The timer of Doomslug sends at most 20
  skips at a time, as the code does. Everything else recurses structurally.

  \<^bold>\<open>Not modelled.\<close> The chip that verifies proofs inside a circuit, keys, parameters and transcripts (calls
  of \<open>halo2\<close> and \<open>snark_verifier\<close>); the circuits of mint, burn, points, signature and compliance, which the
  block pipeline does not use; the client of the Ethereum contracts and the worker that sends proofs
  to them (\<open>run_rollup_worker\<close>, \<open>Prover::rollup\<close>): parameters encoded for web3 and polling; the HTTP
  routes, the peer-to-peer network, configuration and tools, which are glue over the operations above;
  logging and metrics; the contracts and applications in other languages.
\<close>

end
